(* ===== verification/Prelude.thy ===== *)
theory Prelude
  imports Main "HOL-Library.Word" "HOL-Library.List_Lexorder" "HOL-Library.Char_ord"
    "HOL-Library.AList" "HOL-Library.Multiset"
begin

text \<open>
  Shared vocabulary of the development: machine integers, the crate's \<open>Error\<close> type, the
  two result shapes (a pure \<open>Result\<close> and a computation that also threads a state), the
  little-endian integer codec of \<open>to_le_bytes\<close> / \<open>from_le_bytes\<close>, the
  \<open>read_exact\<close> primitive, and generic facts on lists and maps that several components use.

  Conventions. \<open>usize\<close> is 64 bits wide. Arithmetic that can leave its width follows the
  release profile (it wraps), and is written on words; counters and lengths that cannot
  reach \<open>2 ^ 64\<close> are natural numbers. A panic is the error value \<^term>\<open>Panic\<close>.
\<close>

section \<open>Machine integers, errors and results\<close>

type_synonym byte = "8 word"
type_synonym u32 = "32 word"
type_synonym u64 = "64 word"

datatype io_kind =
    NotFound | AlreadyExists | UnexpectedEof | InvalidData | WouldBlock | OtherIo

datatype error =
    Io io_kind
  | Serialization string
  | Corruption string
  | InvalidOperation string
  | SessionLocked io_kind
  | Bincode string
  | Panic string

type_synonym 'a res = "error + 'a"
type_synonym ('s, 'a) io = "'s \<Rightarrow> (error + 'a) \<times> 's"

named_theorems result_simps "how results and stateful computations compose"

text \<open>The \<open>?\<close> operator on a pure result and on a computation with state.\<close>

definition res_bind :: "'e + 'a \<Rightarrow> ('a \<Rightarrow> 'e + 'b) \<Rightarrow> 'e + 'b" where
  "res_bind r f = (case r of Inl e \<Rightarrow> Inl e | Inr x \<Rightarrow> f x)"

definition map_err :: "('e \<Rightarrow> 'f) \<Rightarrow> 'e + 'a \<Rightarrow> 'f + 'a" where
  "map_err f r = (case r of Inl e \<Rightarrow> Inl (f e) | Inr x \<Rightarrow> Inr x)"

definition io_bind ::
    "('s \<Rightarrow> ('e + 'a) \<times> 's) \<Rightarrow> ('a \<Rightarrow> 's \<Rightarrow> ('e + 'b) \<times> 's) \<Rightarrow> 's \<Rightarrow> ('e + 'b) \<times> 's" where
  "io_bind m f s = (case m s of (r, s') \<Rightarrow> (case r of Inl e \<Rightarrow> (Inl e, s') | Inr x \<Rightarrow> f x s'))"

definition io_return :: "'a \<Rightarrow> 's \<Rightarrow> ('e + 'a) \<times> 's" where
  "io_return x s = (Inr x, s)"

definition io_fail :: "'e \<Rightarrow> 's \<Rightarrow> ('e + 'a) \<times> 's" where
  "io_fail e s = (Inl e, s)"

definition io_lift :: "'e + 'a \<Rightarrow> 's \<Rightarrow> ('e + 'a) \<times> 's" where
  "io_lift r s = (r, s)"

definition io_get :: "('s \<Rightarrow> 'e + 'a) \<Rightarrow> 's \<Rightarrow> ('e + 'a) \<times> 's" where
  "io_get f s = (f s, s)"

lemma res_bind_Inl [simp, result_simps]: "res_bind (Inl e) f = Inl e"
  by (simp add: res_bind_def)

lemma res_bind_Inr [simp, result_simps]: "res_bind (Inr x) f = f x"
  by (simp add: res_bind_def)

lemma res_bind_eq_Inr [result_simps]:
  "res_bind r f = Inr y \<longleftrightarrow> (\<exists>x. r = Inr x \<and> f x = Inr y)"
  by (cases r) auto

lemma res_bind_eq_Inl [result_simps]:
  "res_bind r f = Inl e \<longleftrightarrow> r = Inl e \<or> (\<exists>x. r = Inr x \<and> f x = Inl e)"
  by (cases r) auto

lemma res_bind_cong [fundef_cong]:
  "r = r' \<Longrightarrow> (\<And>x. r' = Inr x \<Longrightarrow> f x = g x) \<Longrightarrow> res_bind r f = res_bind r' g"
  by (cases r') auto

lemma map_err_Inr [simp]: "map_err f (Inr x) = Inr x"
  by (simp add: map_err_def)

lemma map_err_Inl [simp]: "map_err f (Inl e) = Inl (f e)"
  by (simp add: map_err_def)

lemma map_err_eq_Inr [result_simps]: "map_err f r = Inr x \<longleftrightarrow> r = Inr x"
  by (cases r) auto

lemma io_bind_Inr [result_simps]: "m s = (Inr x, s') \<Longrightarrow> io_bind m f s = f x s'"
  by (simp add: io_bind_def)

lemma io_bind_Inl [result_simps]: "m s = (Inl e, s') \<Longrightarrow> io_bind m f s = (Inl e, s')"
  by (simp add: io_bind_def)

lemma io_bind_eq_Inr:
  "io_bind m f s = (Inr y, s'') \<longleftrightarrow> (\<exists>x s'. m s = (Inr x, s') \<and> f x s' = (Inr y, s''))"
  by (auto simp: io_bind_def split: prod.splits sum.splits)

lemma io_bind_InrE:
  assumes "io_bind m f s = (Inr y, s'')"
  obtains x s' where "m s = (Inr x, s')" and "f x s' = (Inr y, s'')"
  using assms by (auto simp: io_bind_eq_Inr)

lemma io_return_apply [simp]: "io_return x s = (Inr x, s)"
  by (simp add: io_return_def)

lemma io_fail_apply [simp]: "io_fail e s = (Inl e, s)"
  by (simp add: io_fail_def)

lemma io_lift_apply [simp]: "io_lift r s = (r, s)"
  by (simp add: io_lift_def)

lemma io_get_apply [simp]: "io_get f s = (f s, s)"
  by (simp add: io_get_def)

section \<open>Little-endian integers\<close>

named_theorems codec_simps "round trips of the byte codecs"

fun le_bytes :: "nat \<Rightarrow> nat \<Rightarrow> byte list" where
  "le_bytes 0 x = []"
| "le_bytes (Suc n) x = of_nat (x mod 256) # le_bytes n (x div 256)"

fun le_nat :: "byte list \<Rightarrow> nat" where
  "le_nat [] = 0"
| "le_nat (b # bs) = unat b + 256 * le_nat bs"

abbreviation u32_le :: "nat \<Rightarrow> byte list" where
  "u32_le \<equiv> le_bytes 4"

abbreviation u64_le :: "nat \<Rightarrow> byte list" where
  "u64_le \<equiv> le_bytes 8"

lemma length_le_bytes [simp]: "length (le_bytes n x) = n"
  by (induction n arbitrary: x) auto

lemma unat_of_nat_byte: "unat (of_nat (x mod 256) :: byte) = x mod 256"
  by (simp add: unat_of_nat)

lemma le_nat_le_bytes [simp, codec_simps]: "le_nat (le_bytes n x) = x mod 256 ^ n"
proof (induction n arbitrary: x)
  case 0
  then show ?case by simp
next
  case (Suc n)
  have "x mod 256 + 256 * (x div 256 mod 256 ^ n) = x mod (256 * 256 ^ n)"
    by (simp add: mod_mult2_eq)
  then show ?case
    by (simp only: le_bytes.simps le_nat.simps Suc unat_of_nat_byte power_Suc)
qed

lemma le_nat_u32 [codec_simps]: "x < 2 ^ 32 \<Longrightarrow> le_nat (u32_le x) = x"
  by simp

lemma le_nat_u64 [codec_simps]: "x < 2 ^ 64 \<Longrightarrow> le_nat (u64_le x) = x"
  by simp

section \<open>Reading exactly n bytes\<close>

text \<open>
  \<open>Cursor::read_exact\<close>: the first \<open>n\<close> bytes and the rest, or nothing when fewer remain.
\<close>

definition take_exact :: "nat \<Rightarrow> 'a list \<Rightarrow> ('a list \<times> 'a list) option" where
  "take_exact n bs = (if n \<le> length bs then Some (take n bs, drop n bs) else None)"

lemma take_exact_append [simp, codec_simps]:
  "length xs = n \<Longrightarrow> take_exact n (xs @ ys) = Some (xs, ys)"
  by (simp add: take_exact_def)

lemma take_exact_Some_length:
  "take_exact n bs = Some (xs, ys) \<Longrightarrow> length bs = n + length ys"
  by (auto simp: take_exact_def split: if_splits)

section \<open>Overlaying partial maps\<close>

text \<open>
  The reference semantics of a stack of tables: newest first, the first table that knows a
  key decides, whether it stores a value or a tombstone.
\<close>

fun overlay :: "('k \<rightharpoonup> 'v) list \<Rightarrow> ('k \<rightharpoonup> 'v)" where
  "overlay [] = Map.empty"
| "overlay (m # ms) = overlay ms ++ m"

lemma overlay_Cons_apply:
  "overlay (m # ms) k = (case m k of None \<Rightarrow> overlay ms k | Some v \<Rightarrow> Some v)"
  by (simp add: map_add_def)

lemma overlay_append: "overlay (xs @ ys) = overlay ys ++ overlay xs"
  by (induction xs) auto

lemma overlay_single [simp]: "overlay [m] = m"
  by simp

lemma overlay_empties: "(\<And>m. m \<in> set ms \<Longrightarrow> m = Map.empty) \<Longrightarrow> overlay ms = Map.empty"
  by (induction ms) auto

lemma overlay_fold:
  "fold (\<lambda>m acc. acc ++ m) ms acc = acc ++ overlay (rev ms)"
  by (induction ms arbitrary: acc) (auto simp: overlay_append)

section \<open>Options and association lists\<close>

lemma distinct_map_sort_key [simp]: "distinct (map f (sort_key g xs)) \<longleftrightarrow> distinct (map f xs)"
proof -
  have "mset (map f (sort_key g xs)) = mset (map f xs)" by simp
  then show ?thesis by (metis mset_eq_imp_distinct_iff)
qed

lemma map_of_sort_key: "distinct (map fst m) \<Longrightarrow> map_of (sort_key g m) = map_of m"
proof
  fix k
  assume "distinct (map fst m)"
  then have "map_of (sort_key g m) k = Some v \<longleftrightarrow> map_of m k = Some v" for v
    by simp
  then show "map_of (sort_key g m) k = map_of m k"
    by (cases "map_of m k"; cases "map_of (sort_key g m) k") auto
qed

lemma join_option_eq_Some [simp]:
  "Option.bind x id = Some v \<longleftrightarrow> x = Some (Some v)"
  by (cases x) auto

lemma map_of_filter_key:
  "map_of (filter (\<lambda>(k, v). P k) es) k = (if P k then map_of es k else None)"
  by (induction es) auto

lemma set_filter_key_fst:
  "fst ` set (filter (\<lambda>(k, v). P k) es) = {k \<in> fst ` set es. P k}"
  by auto

lemma sorted_wrt_filter_key:
  "sorted_wrt R (map fst es) \<Longrightarrow> sorted_wrt R (map fst (filter P es))"
  by (induction es) auto

lemma sorted_wrt_less_distinct:
  fixes xs :: "'a :: linorder list"
  shows "sorted_wrt (<) xs \<Longrightarrow> distinct xs"
  by (simp add: strict_sorted_iff)

lemma map_of_eq_fst_set: "map_of es k = None \<longleftrightarrow> k \<notin> fst ` set es"
  by (simp add: map_of_eq_None_iff)

end
