(* ===== verification/Disk.thy ===== *)
theory Disk
  imports Prelude
begin

text \<open>
  \<open>std::fs\<close> as the crate uses it: directory entries name inodes, inodes hold bytes. A hard
  link is a second entry for an inode; removing or renaming a file changes entries only, so
  the bytes stay reachable through every other link. An open \<open>File\<close> is its inode, and
  appending goes to the inode. Failures are those the state decides: a missing file or
  directory, a name that is taken, a short read. \<open>fsync\<close> does not change what a running
  process reads. The interface \<open>file_store\<close> states what a writer of fresh files relies on;
  \<open>disk\<close> implements it.
\<close>

type_synonym path = "string list"

record disk =
  d_names :: "(path \<times> nat) list"
  d_dirs :: "path list"
  d_data :: "nat \<Rightarrow> byte list"
  d_next :: nat

section \<open>The calls\<close>

definition path_exists :: "disk \<Rightarrow> path \<Rightarrow> bool" where
  "path_exists d p \<longleftrightarrow> map_of (d_names d) p \<noteq> None \<or> p \<in> set (d_dirs d)"

definition file_contents :: "disk \<Rightarrow> path \<Rightarrow> byte list option" where
  "file_contents d p = map_option (d_data d) (map_of (d_names d) p)"

definition fs_read :: "path \<Rightarrow> disk \<Rightarrow> byte list res" where
  "fs_read p d = (case file_contents d p of None \<Rightarrow> Inl (Io NotFound) | Some bs \<Rightarrow> Inr bs)"

definition fs_fresh :: "path \<Rightarrow> disk \<Rightarrow> nat res \<times> disk" where
  "fs_fresh p d =
     (if butlast p \<notin> set (d_dirs d) then (Inl (Io NotFound), d)
      else (Inr (d_next d),
            d\<lparr>d_names := (p, d_next d) # d_names d,
              d_data := (d_data d)(d_next d := []),
              d_next := Suc (d_next d)\<rparr>))"

text \<open>\<open>File::create_new\<close>\<close>

definition fs_create_new :: "path \<Rightarrow> disk \<Rightarrow> nat res \<times> disk" where
  "fs_create_new p d =
     (if path_exists d p then (Inl (Io AlreadyExists), d) else fs_fresh p d)"

text \<open>\<open>File::create\<close>, also \<open>OpenOptions\<close> with \<open>create\<close>, \<open>write\<close> and \<open>truncate\<close>\<close>

definition fs_create :: "path \<Rightarrow> disk \<Rightarrow> nat res \<times> disk" where
  "fs_create p d =
     (if p \<in> set (d_dirs d) then (Inl (Io OtherIo), d)
      else (case map_of (d_names d) p of
              Some i \<Rightarrow> (Inr i, d\<lparr>d_data := (d_data d)(i := [])\<rparr>)
            | None \<Rightarrow> fs_fresh p d))"

definition fs_append :: "nat \<Rightarrow> byte list \<Rightarrow> disk \<Rightarrow> unit res \<times> disk" where
  "fs_append i bs d = (Inr (), d\<lparr>d_data := (d_data d)(i := d_data d i @ bs)\<rparr>)"

definition fs_sync :: "nat \<Rightarrow> disk \<Rightarrow> unit res \<times> disk" where
  "fs_sync i d = (Inr (), d)"

definition fs_hard_link :: "path \<Rightarrow> path \<Rightarrow> disk \<Rightarrow> unit res \<times> disk" where
  "fs_hard_link src dst d =
     (case map_of (d_names d) src of
        None \<Rightarrow> (Inl (Io NotFound), d)
      | Some i \<Rightarrow>
          if path_exists d dst then (Inl (Io AlreadyExists), d)
          else if butlast dst \<notin> set (d_dirs d) then (Inl (Io NotFound), d)
          else (Inr (), d\<lparr>d_names := (dst, i) # d_names d\<rparr>))"

definition fs_remove :: "path \<Rightarrow> disk \<Rightarrow> unit res \<times> disk" where
  "fs_remove p d =
     (if map_of (d_names d) p = None then (Inl (Io NotFound), d)
      else (Inr (), d\<lparr>d_names := AList.delete p (d_names d)\<rparr>))"

text \<open>\<open>rename\<close> replaces the target; between two links of one inode it does nothing.\<close>

definition fs_rename :: "path \<Rightarrow> path \<Rightarrow> disk \<Rightarrow> unit res \<times> disk" where
  "fs_rename src dst d =
     (case map_of (d_names d) src of
        None \<Rightarrow> (Inl (Io NotFound), d)
      | Some i \<Rightarrow>
          if dst \<in> set (d_dirs d) then (Inl (Io OtherIo), d)
          else if butlast dst \<notin> set (d_dirs d) then (Inl (Io NotFound), d)
          else if map_of (d_names d) dst = Some i then (Inr (), d)
          else (Inr (), d\<lparr>d_names := AList.update dst i (AList.delete src (d_names d))\<rparr>))"

definition path_prefixes :: "path \<Rightarrow> path list" where
  "path_prefixes p = map (\<lambda>n. take n p) [0..<Suc (length p)]"

definition fs_create_dir_all :: "path \<Rightarrow> disk \<Rightarrow> unit res \<times> disk" where
  "fs_create_dir_all p d =
     (if \<exists>q \<in> set (path_prefixes p). map_of (d_names d) q \<noteq> None
      then (Inl (Io AlreadyExists), d)
      else (Inr (), d\<lparr>d_dirs :=
              filter (\<lambda>q. q \<notin> set (d_dirs d)) (path_prefixes p) @ d_dirs d\<rparr>))"

definition is_prefix :: "path \<Rightarrow> path \<Rightarrow> bool" where
  "is_prefix p q \<longleftrightarrow> take (length p) q = p"

definition fs_remove_dir_all :: "path \<Rightarrow> disk \<Rightarrow> unit res \<times> disk" where
  "fs_remove_dir_all p d =
     (if p \<notin> set (d_dirs d) then (Inl (Io NotFound), d)
      else (Inr (), d\<lparr>d_names := filter (\<lambda>(q, i). \<not> is_prefix p q) (d_names d),
                      d_dirs := filter (\<lambda>q. \<not> is_prefix p q) (d_dirs d)\<rparr>))"

text \<open>\<open>read_dir\<close>: the names of the files, and of the directories, directly below.\<close>

definition child_of :: "path \<Rightarrow> path \<Rightarrow> bool" where
  "child_of p q \<longleftrightarrow> q \<noteq> [] \<and> butlast q = p"

definition fs_read_dir_files :: "path \<Rightarrow> disk \<Rightarrow> string list res" where
  "fs_read_dir_files p d =
     (if p \<in> set (d_dirs d)
      then Inr (map last (filter (child_of p) (map fst (d_names d))))
      else Inl (Io NotFound))"

definition fs_read_dir_dirs :: "path \<Rightarrow> disk \<Rightarrow> string list res" where
  "fs_read_dir_dirs p d =
     (if p \<in> set (d_dirs d)
      then Inr (map last (filter (child_of p) (d_dirs d)))
      else Inl (Io NotFound))"

text \<open>\<open>File::open(dir)\<close> followed by \<open>sync_all\<close>\<close>

definition fs_sync_path :: "path \<Rightarrow> disk \<Rightarrow> unit res \<times> disk" where
  "fs_sync_path p d = (if path_exists d p then (Inr (), d) else (Inl (Io NotFound), d))"

section \<open>Invariant and frame lemmas\<close>

definition disk_ok :: "disk \<Rightarrow> bool" where
  "disk_ok d \<longleftrightarrow> (\<forall>p i. map_of (d_names d) p = Some i \<longrightarrow> i < d_next d)
     \<and> (\<forall>p \<in> set (d_dirs d). map_of (d_names d) p = None)"

text \<open>The file open as inode \<open>i\<close> has the single name \<open>p\<close>.\<close>

definition sole_name :: "disk \<Rightarrow> nat \<Rightarrow> path \<Rightarrow> bool" where
  "sole_name d i p \<longleftrightarrow> map_of (d_names d) p = Some i
     \<and> (\<forall>q. map_of (d_names d) q = Some i \<longrightarrow> q = p)"

lemma disk_ok_lookup: "disk_ok d \<Longrightarrow> map_of (d_names d) p = Some i \<Longrightarrow> i < d_next d"
  by (simp add: disk_ok_def)

lemma fs_create_new_Inr:
  "fs_create_new p d = (Inr i, d') \<longleftrightarrow>
     \<not> path_exists d p \<and> butlast p \<in> set (d_dirs d) \<and> i = d_next d
     \<and> d' = d\<lparr>d_names := (p, d_next d) # d_names d,
              d_data := (d_data d)(d_next d := []), d_next := Suc (d_next d)\<rparr>"
  by (auto simp: fs_create_new_def fs_fresh_def)

lemma disk_ok_create_new:
  "disk_ok d \<Longrightarrow> fs_create_new p d = (r, d') \<Longrightarrow> disk_ok d'"
  by (auto simp: fs_create_new_def fs_fresh_def disk_ok_def path_exists_def
      less_Suc_eq split: if_splits)

lemma contents_create_new:
  assumes "disk_ok d" and "fs_create_new p d = (Inr i, d')"
  shows "file_contents d' = (file_contents d)(p \<mapsto> [])"
  using assms by (auto simp: fs_create_new_Inr file_contents_def fun_eq_iff
      map_option_case dest: disk_ok_lookup split: option.split)

lemma sole_name_create_new:
  assumes "disk_ok d" and "fs_create_new p d = (Inr i, d')"
  shows "sole_name d' i p"
  using assms by (auto simp: fs_create_new_Inr sole_name_def dest: disk_ok_lookup)

lemma sole_name_create_new_other:
  assumes "disk_ok d" and "fs_create_new p d = (Inr i, d')" and "sole_name d j q"
  shows "sole_name d' j q"
proof -
  from assms(3) have q: "map_of (d_names d) q = Some j"
      and only: "\<And>x. map_of (d_names d) x = Some j \<Longrightarrow> x = q"
    by (simp_all add: sole_name_def)
  from assms(1) q have "j < d_next d" by (rule disk_ok_lookup)
  moreover from assms(2) q have "p \<noteq> q"
    by (auto simp: fs_create_new_Inr path_exists_def)
  moreover have "map_of (d_names d') = (map_of (d_names d))(p \<mapsto> d_next d)"
    using assms(2) by (simp add: fs_create_new_Inr fun_eq_iff)
  ultimately show ?thesis
    unfolding sole_name_def using q only
    by (metis fun_upd_apply less_irrefl option.inject)
qed

lemma disk_ok_append [simp]: "disk_ok (snd (fs_append i bs d)) = disk_ok d"
  by (simp add: fs_append_def disk_ok_def)

lemma sole_name_append [simp]: "sole_name (snd (fs_append i bs d)) j p = sole_name d j p"
  by (simp add: fs_append_def sole_name_def)

lemma contents_append:
  assumes "sole_name d i p"
  shows "file_contents (snd (fs_append i bs d)) =
    (file_contents d)(p \<mapsto> the (file_contents d p) @ bs)"
  using assms by (auto simp: fs_append_def sole_name_def file_contents_def fun_eq_iff
      map_option_case split: option.split)

section \<open>The interface of a writer of fresh files\<close>

text \<open>
  \<open>view\<close> is what every path reads as; \<open>owned\<close> says that a handle is the only way its file is
  reached. A fresh file starts empty and owned, an append to an owned file changes that file
  only, and neither disturbs the handles owned so far.
\<close>

locale file_store =
  fixes view :: "'d \<Rightarrow> path \<rightharpoonup> byte list"
    and create :: "path \<Rightarrow> 'd \<Rightarrow> nat res \<times> 'd"
    and append_to :: "nat \<Rightarrow> byte list \<Rightarrow> 'd \<Rightarrow> 'd"
    and owned :: "'d \<Rightarrow> nat \<Rightarrow> path \<Rightarrow> bool"
    and invar :: "'d \<Rightarrow> bool"
  assumes create_invar: "invar d \<Longrightarrow> create p d = (Inr i, d') \<Longrightarrow> invar d'"
    and create_view: "invar d \<Longrightarrow> create p d = (Inr i, d') \<Longrightarrow> view d' = (view d)(p \<mapsto> [])"
    and create_fresh: "invar d \<Longrightarrow> create p d = (Inr i, d') \<Longrightarrow> view d p = None"
    and create_owned: "invar d \<Longrightarrow> create p d = (Inr i, d') \<Longrightarrow> owned d' i p"
    and create_keeps: "invar d \<Longrightarrow> create p d = (Inr i, d') \<Longrightarrow> owned d j q \<Longrightarrow> owned d' j q"
    and append_invar: "invar d \<Longrightarrow> invar (append_to i bs d)"
    and append_keeps: "owned d j q \<Longrightarrow> owned (append_to i bs d) j q"
    and append_view:
      "owned d i p \<Longrightarrow> view (append_to i bs d) = (view d)(p \<mapsto> the (view d p) @ bs)"
    and owned_view: "owned d i p \<Longrightarrow> view d p \<noteq> None"
begin

lemma append_all_keeps: "owned d j q \<Longrightarrow> owned (fold (append_to i) bss d) j q"
  by (induction bss arbitrary: d) (auto simp: append_keeps)

lemma append_all_invar: "invar d \<Longrightarrow> invar (fold (append_to i) bss d)"
  by (induction bss arbitrary: d) (auto simp: append_invar)

text \<open>Chunks appended one after the other read back as their concatenation.\<close>

lemma append_all_view:
  "owned d i p \<Longrightarrow>
   view (fold (append_to i) bss d) = (view d)(p \<mapsto> the (view d p) @ concat bss)"
proof (induction bss arbitrary: d)
  case Nil
  then show ?case using owned_view by (auto simp: fun_eq_iff)
next
  case (Cons bs bss)
  have "owned (append_to i bs d) i p" using Cons.prems by (rule append_keeps)
  from Cons.IH [OF this] append_view [OF Cons.prems] show ?case
    by (simp add: fun_eq_iff)
qed

lemma write_fresh:
  assumes "invar d" and "create p d = (Inr i, d')"
  shows "view (fold (append_to i) bss d') = (view d)(p \<mapsto> concat bss)"
  using append_all_view [OF create_owned [OF assms]] create_view [OF assms] by simp

end

interpretation disk_store: file_store file_contents fs_create_new
  "\<lambda>i bs d. snd (fs_append i bs d)" sole_name disk_ok
proof unfold_locales
  fix d d' :: disk and p q :: path and i j :: nat
  assume "disk_ok d" and c: "fs_create_new p d = (Inr i, d')"
  then show "disk_ok d'" "file_contents d' = (file_contents d)(p \<mapsto> [])" "sole_name d' i p"
    by (auto intro: disk_ok_create_new contents_create_new sole_name_create_new)
  from c show "file_contents d p = None"
    by (auto simp: fs_create_new_Inr path_exists_def file_contents_def)
  assume "sole_name d j q"
  with \<open>disk_ok d\<close> c show "sole_name d' j q" by (rule sole_name_create_new_other)
qed (auto simp: contents_append, auto simp: sole_name_def file_contents_def)

section \<open>Removing, linking and renaming\<close>

lemma disk_ok_remove: "disk_ok d \<Longrightarrow> fs_remove p d = (r, d') \<Longrightarrow> disk_ok d'"
  by (auto simp: fs_remove_def disk_ok_def delete_conv' split: if_splits)

lemma contents_remove:
  "fs_remove p d = (r, d') \<Longrightarrow> file_contents d' = (file_contents d)(p := None)"
  by (auto simp: fs_remove_def file_contents_def fun_eq_iff delete_conv' split: if_splits)

lemma fs_remove_dirs [simp]: "d_dirs (snd (fs_remove p d)) = d_dirs d"
  by (simp add: fs_remove_def)

lemma contents_hard_link:
  "fs_hard_link src dst d = (Inr (), d') \<Longrightarrow>
   file_contents d' = (file_contents d)(dst := file_contents d src)"
  by (auto simp: fs_hard_link_def file_contents_def fun_eq_iff split: option.splits if_splits)

lemma disk_ok_hard_link: "disk_ok d \<Longrightarrow> fs_hard_link src dst d = (r, d') \<Longrightarrow> disk_ok d'"
  by (auto simp: fs_hard_link_def disk_ok_def path_exists_def split: option.splits if_splits)

lemma path_exists_contents:
  "path_exists d p \<longleftrightarrow> file_contents d p \<noteq> None \<or> p \<in> set (d_dirs d)"
  by (simp add: path_exists_def file_contents_def)

lemma fs_create_fresh: "\<not> path_exists d p \<Longrightarrow> fs_create p d = fs_create_new p d"
  by (simp add: fs_create_def fs_create_new_def path_exists_def)

lemma rename_fresh:
  assumes "disk_ok d" and "file_contents d src = Some bs" and "\<not> path_exists d dst"
    and "butlast dst \<in> set (d_dirs d)"
  obtains d' where "fs_rename src dst d = (Inr (), d')" and "disk_ok d'"
    and "file_contents d' = (file_contents d)(src := None, dst \<mapsto> bs)" and "d_dirs d' = d_dirs d"
proof -
  from assms(2) obtain i where i: "map_of (d_names d) src = Some i" and bs: "d_data d i = bs"
    by (auto simp: file_contents_def)
  let ?d = "d\<lparr>d_names := AList.update dst i (AList.delete src (d_names d))\<rparr>"
  from assms(3,4) i have "fs_rename src dst d = (Inr (), ?d)"
    by (simp add: fs_rename_def path_exists_def)
  moreover have "disk_ok ?d"
    using assms(1,3) i by (auto simp: disk_ok_def update_conv' delete_conv' path_exists_def)
  moreover have "file_contents ?d = (file_contents d)(src := None, dst \<mapsto> bs)"
    using bs by (auto simp: file_contents_def update_conv' delete_conv' fun_eq_iff)
  ultimately show thesis by (intro that [of ?d]) simp_all
qed

end
