(* ===== verification/RustText.thy ===== *)
theory RustText
  imports Prelude
begin

text \<open>
  The pieces of Rust's text formatting and parsing that the crate relies on: zero-padded
  decimal (\<open>{:05}\<close>, run file names) and hexadecimal (\<open>{:08x}\<close>, checksums),
  \<open>from_str_radix\<close> / \<open>parse\<close> for unsigned integers (optional \<open>+\<close>, both letter cases,
  overflow detected), \<open>str::trim\<close>, \<open>str::lines\<close> and \<open>str::find\<close>. Strings are lists of
  characters; the files concerned hold ASCII text, so byte positions and character positions
  agree and the white space is ASCII white space. Round trips: a number formatted at any
  width parses back to itself; text without newlines survives \<open>lines\<close>.
\<close>

section \<open>Digits\<close>

function digits :: "nat \<Rightarrow> nat \<Rightarrow> nat list" where
  "digits b n = (if b < 2 \<or> n < b then [n] else digits b (n div b) @ [n mod b])"
  by pat_completeness auto
termination
  by (relation "measure (\<lambda>(b, n). n)") (auto intro: div_less_dividend)

declare digits.simps [simp del]

definition digit_char :: "nat \<Rightarrow> char" where
  "digit_char d = (if d < 10 then char_of (48 + d) else char_of (87 + d))"

definition to_digit :: "nat \<Rightarrow> char \<Rightarrow> nat option" where
  "to_digit radix c =
     (let n = of_char c :: nat;
          d = (if 48 \<le> n \<and> n \<le> 57 then n - 48
               else if 97 \<le> n \<and> n \<le> 122 then n - 87
               else if 65 \<le> n \<and> n \<le> 90 then n - 55
               else radix)
      in if d < radix then Some d else None)"

definition fmt_radix :: "nat \<Rightarrow> nat \<Rightarrow> string" where
  "fmt_radix b n = map digit_char (digits b n)"

definition pad_zero :: "nat \<Rightarrow> string \<Rightarrow> string" where
  "pad_zero w s = replicate (w - length s) (digit_char 0) @ s"

definition fmt_05 :: "nat \<Rightarrow> string" where
  "fmt_05 n = pad_zero 5 (fmt_radix 10 n)"

definition fmt_08x :: "u32 \<Rightarrow> string" where
  "fmt_08x w = pad_zero 8 (fmt_radix 16 (unat w))"

definition digits_value :: "nat \<Rightarrow> nat \<Rightarrow> nat list \<Rightarrow> nat" where
  "digits_value b acc ds = foldl (\<lambda>a d. a * b + d) acc ds"

lemma digits_value_simps [simp]:
  "digits_value b acc [] = acc"
  "digits_value b acc (d # ds) = digits_value b (acc * b + d) ds"
  "digits_value b acc (ds @ es) = digits_value b (digits_value b acc ds) es"
  by (simp_all add: digits_value_def)

lemma digits_value_zeros [simp]: "digits_value b 0 (replicate k 0) = 0"
  by (induction k) auto

lemma digits_value_digits: "2 \<le> b \<Longrightarrow> digits_value b 0 (digits b n) = n"
proof (induction b n rule: digits.induct)
  case (1 b n)
  then show ?case by (subst digits.simps) auto
qed

lemma digits_less: "2 \<le> b \<Longrightarrow> d \<in> set (digits b n) \<Longrightarrow> d < b"
proof (induction b n rule: digits.induct)
  case (1 b n)
  then show ?case by (subst (asm) digits.simps) (auto split: if_splits)
qed

lemma digits_nonempty [simp]: "digits b n \<noteq> []"
  by (subst digits.simps) simp

lemma length_digits_le: "2 \<le> b \<Longrightarrow> n < b ^ Suc k \<Longrightarrow> length (digits b n) \<le> Suc k"
proof (induction k arbitrary: n)
  case 0
  then show ?case by (subst digits.simps) simp
next
  case (Suc k)
  show ?case
  proof (cases "n < b")
    case True
    then show ?thesis by (subst digits.simps) simp
  next
    case False
    have "n div b < b ^ Suc k"
      using Suc.prems by (simp add: less_mult_imp_div_less mult.commute)
    then have "length (digits b (n div b)) \<le> Suc k" using Suc by blast
    with False Suc.prems show ?thesis by (subst digits.simps) simp
  qed
qed

lemma digits_value_mono: "2 \<le> b \<Longrightarrow> acc \<le> digits_value b acc ds"
proof (induction ds arbitrary: acc)
  case (Cons d ds)
  have "acc \<le> acc * b + d" using Cons.prems by (simp add: trans_le_add1)
  also have "\<dots> \<le> digits_value b (acc * b + d) ds" using Cons by blast
  finally show ?case by simp
qed simp

lemma of_char_digit_char: "d < 16 \<Longrightarrow> of_char (digit_char d) = (if d < 10 then 48 + d else 87 + d)"
  by (auto simp: digit_char_def of_char_of)

lemma to_digit_digit_char: "d < b \<Longrightarrow> b \<le> 16 \<Longrightarrow> to_digit b (digit_char d) = Some d"
  by (auto simp: to_digit_def of_char_digit_char Let_def)

section \<open>Parsing unsigned integers\<close>

datatype int_error = EmptyInt | InvalidDigit | PosOverflow

fun parse_digits :: "nat \<Rightarrow> nat \<Rightarrow> nat \<Rightarrow> string \<Rightarrow> int_error + nat" where
  "parse_digits bound radix acc [] = Inr acc"
| "parse_digits bound radix acc (c # cs) =
     (case to_digit radix c of
        None \<Rightarrow> Inl InvalidDigit
      | Some d \<Rightarrow>
          if acc * radix + d < bound then parse_digits bound radix (acc * radix + d) cs
          else Inl PosOverflow)"

definition from_str_radix :: "nat \<Rightarrow> nat \<Rightarrow> string \<Rightarrow> int_error + nat" where
  "from_str_radix bound radix s =
     (case s of
        [] \<Rightarrow> Inl EmptyInt
      | c # cs \<Rightarrow>
          if c = CHR ''+'' then (if cs = [] then Inl InvalidDigit else parse_digits bound radix 0 cs)
          else parse_digits bound radix 0 s)"

lemma parse_digits_chars:
  assumes "\<forall>d \<in> set ds. d < b" and "2 \<le> b" and "b \<le> 16" and "digits_value b acc ds < bound"
  shows "parse_digits bound b acc (map digit_char ds) = Inr (digits_value b acc ds)"
  using assms
proof (induction ds arbitrary: acc)
  case (Cons d ds)
  then have "acc * b + d \<le> digits_value b (acc * b + d) ds"
    by (blast intro: digits_value_mono)
  with Cons show ?case by (simp add: to_digit_digit_char)
qed simp

lemma digit_char_not_plus: "d < 16 \<Longrightarrow> digit_char d \<noteq> CHR ''+''"
proof
  assume d: "d < 16" and "digit_char d = CHR ''+''"
  then have "of_char (digit_char d) = (of_char CHR ''+'' :: nat)" by simp
  with d show False by (simp add: of_char_digit_char split: if_splits)
qed

lemma from_str_radix_padded:
  assumes b: "2 \<le> b" "b \<le> 16" and n: "n < bound"
  shows "from_str_radix bound b (pad_zero w (fmt_radix b n)) = Inr n"
proof -
  define ds where "ds = replicate (w - length (digits b n)) 0 @ digits b n"
  have s: "pad_zero w (fmt_radix b n) = map digit_char ds"
    by (simp add: pad_zero_def fmt_radix_def ds_def)
  have small: "\<forall>d \<in> set ds. d < b"
    using b digits_less by (auto simp: ds_def)
  have val: "digits_value b 0 ds = n"
    using b by (simp add: ds_def digits_value_digits)
  obtain d ds' where ds: "ds = d # ds'"
    by (cases ds) (auto simp: ds_def)
  from small ds b have "d < 16" by auto
  then have "digit_char d \<noteq> CHR ''+''" by (rule digit_char_not_plus)
  moreover have "parse_digits bound b 0 (map digit_char ds) = Inr n"
    using parse_digits_chars [OF small b, of 0 bound] val n by simp
  ultimately show ?thesis
    by (simp add: s from_str_radix_def ds)
qed

lemma from_str_radix_fmt_05: "n < bound \<Longrightarrow> from_str_radix bound 10 (fmt_05 n) = Inr n"
  by (simp add: fmt_05_def from_str_radix_padded)

lemma from_str_radix_fmt_08x: "from_str_radix (2 ^ 32) 16 (fmt_08x w) = Inr (unat w)"
proof -
  have "unat w < 2 ^ LENGTH(32)" by (rule unsigned_less)
  then show ?thesis by (simp add: fmt_08x_def from_str_radix_padded)
qed

lemma fmt_05_inj [simp]: "fmt_05 m = fmt_05 n \<longleftrightarrow> m = n"
proof
  assume eq: "fmt_05 m = fmt_05 n"
  have "Inr m = from_str_radix (Suc (max m n)) 10 (fmt_05 m)"
    by (simp add: from_str_radix_fmt_05)
  also have "\<dots> = Inr n"
    by (simp add: eq from_str_radix_fmt_05)
  finally show "m = n" by simp
qed simp

lemma length_fmt_08x [simp]: "length (fmt_08x w) = 8"
proof -
  have "unat w < 2 ^ LENGTH(32)" by (rule unsigned_less)
  then have "unat w < 16 ^ Suc 7" by simp
  then have "length (digits 16 (unat w)) \<le> Suc 7"
    by (rule length_digits_le [rotated]) simp
  then show ?thesis by (simp add: fmt_08x_def pad_zero_def fmt_radix_def)
qed

lemma set_pad_zero_fmt: "2 \<le> b \<Longrightarrow> c \<in> set (pad_zero w (fmt_radix b n)) \<Longrightarrow> \<exists>d < b. c = digit_char d"
  using digits_less by (fastforce simp: pad_zero_def fmt_radix_def)

section \<open>Text as bytes\<close>

definition string_bytes :: "string \<Rightarrow> byte list" where
  "string_bytes s = map (\<lambda>c. of_nat (of_char c)) s"

definition bytes_string :: "byte list \<Rightarrow> string" where
  "bytes_string bs = map (\<lambda>b. char_of (unat b)) bs"

definition is_ascii :: "string \<Rightarrow> bool" where
  "is_ascii s \<longleftrightarrow> (\<forall>c \<in> set s. of_char c < (128 :: nat))"

section \<open>White space, lines, searching\<close>

definition is_whitespace :: "char \<Rightarrow> bool" where
  "is_whitespace c \<longleftrightarrow> (let n = of_char c :: nat in (9 \<le> n \<and> n \<le> 13) \<or> n = 32)"

definition trim_start :: "string \<Rightarrow> string" where
  "trim_start s = dropWhile is_whitespace s"

definition trim :: "string \<Rightarrow> string" where
  "trim s = rev (dropWhile is_whitespace (rev (dropWhile is_whitespace s)))"

definition starts_with :: "string \<Rightarrow> string \<Rightarrow> bool" where
  "starts_with p s \<longleftrightarrow> take (length p) s = p"

fun find_char :: "char \<Rightarrow> string \<Rightarrow> nat option" where
  "find_char c [] = None"
| "find_char c (x # xs) = (if x = c then Some 0 else map_option Suc (find_char c xs))"

definition newline :: char where
  "newline = CHR 0x0A"

definition strip_cr :: "string \<Rightarrow> string" where
  "strip_cr s = (if s \<noteq> [] \<and> last s = CHR 0x0D then butlast s else s)"

text \<open>
  \<open>str::lines\<close>: each line ends at a newline (dropped, with a carriage return before it) or
  at the end of the text; nothing follows a final newline.
\<close>

function split_lines :: "string \<Rightarrow> string list" where
  "split_lines s =
     (if s = [] then []
      else (case dropWhile (\<lambda>c. c \<noteq> newline) s of
              [] \<Rightarrow> [s]
            | _ # rest \<Rightarrow> strip_cr (takeWhile (\<lambda>c. c \<noteq> newline) s) # split_lines rest))"
  by pat_completeness auto
termination
proof (relation "measure length", goal_cases)
  case (2 s x21 x22)
  have "length (dropWhile (\<lambda>c. c \<noteq> newline) s) \<le> length s"
    by (rule length_dropWhile_le)
  with 2 show ?case by simp
qed simp

declare split_lines.simps [simp del]

lemma split_lines_Nil [simp]: "split_lines [] = []"
  by (simp add: split_lines.simps)

lemma dropWhile_no: "c \<notin> set l \<Longrightarrow> dropWhile (\<lambda>x. x \<noteq> c) (l @ c # r) = c # r"
  by (induction l) auto

lemma takeWhile_no: "c \<notin> set l \<Longrightarrow> takeWhile (\<lambda>x. x \<noteq> c) (l @ c # r) = l"
  by (induction l) auto

lemma split_lines_Cons:
  "newline \<notin> set l \<Longrightarrow> split_lines (l @ newline # r) = strip_cr l # split_lines r"
  by (subst split_lines.simps) (simp add: dropWhile_no takeWhile_no)

lemma split_lines_concat:
  "(\<And>l. l \<in> set ls \<Longrightarrow> newline \<notin> set l) \<Longrightarrow>
   split_lines (concat (map (\<lambda>l. l @ [newline]) ls)) = map strip_cr ls"
  by (induction ls) (auto simp: split_lines_Cons)

lemma find_char_append: "c \<notin> set xs \<Longrightarrow> find_char c (xs @ c # ys) = Some (length xs)"
  by (induction xs) auto

lemma trim_ends:
  assumes "s \<noteq> []" and "\<not> is_whitespace (hd s)" and "\<not> is_whitespace (last s)"
  shows "trim s = s"
proof -
  have "dropWhile is_whitespace s = s"
    using assms(1,2) by (cases s) auto
  moreover have "dropWhile is_whitespace (rev s) = rev s"
    using assms(1,3) by (cases "rev s") (auto simp: last_rev [symmetric] hd_rev)
  ultimately show ?thesis by (simp add: trim_def)
qed

lemma digit_char_not_ws: "d < 16 \<Longrightarrow> \<not> is_whitespace (digit_char d)"
  by (auto simp: is_whitespace_def of_char_digit_char Let_def)

end
