(* ===== verification/Checksum.thy ===== *)
theory Checksum
  imports Disk RustText
begin

text \<open>
  \<open>src/checksum.rs\<close>: checksum values, the text format of a \<open>.checksums\<close> file (one line
  \<open>CRC32C (name) = hexvalue\<close> per file), reading and writing such files, and checking a file
  against an expected value. The checksum function itself is the \<open>crc32fast\<close> crate, a
  parameter \<open>crc\<close> of the definitions that compute one; a \<open>Hasher\<close> fed several buffers is
  documented to give the checksum of their concatenation, so its state is the bytes fed so
  far. The \<open>HashMap\<close> of checksums is an association list with unique keys.
\<close>

type_synonym crc_fun = "byte list \<Rightarrow> u32"
type_synonym checksums_file = "(string \<times> u32) list"

section \<open>Checksum values\<close>

definition crc_initial :: u32 where
  "crc_initial = 0"

definition crc_hash :: "crc_fun \<Rightarrow> byte list \<Rightarrow> u32" where
  "crc_hash crc data = crc data"

text \<open>The read loop: chunks of 8192 bytes are fed to the hasher until a read returns none.\<close>

function hash_chunks :: "byte list \<Rightarrow> byte list \<Rightarrow> byte list" where
  "hash_chunks hashed remaining =
     (if remaining = [] then hashed
      else hash_chunks (hashed @ take 8192 remaining) (drop 8192 remaining))"
  by pat_completeness auto
termination
  by (relation "measure (\<lambda>(h, r). length r)") auto

declare hash_chunks.simps [simp del]

definition read_file_crc32c :: "crc_fun \<Rightarrow> path \<Rightarrow> disk \<Rightarrow> u32 res" where
  "read_file_crc32c crc p d = res_bind (fs_read p d) (\<lambda>bs. Inr (crc (hash_chunks [] bs)))"

definition crc_to_hex :: "u32 \<Rightarrow> string" where
  "crc_to_hex c = fmt_08x c"

definition crc_from_hex :: "string \<Rightarrow> string + u32" where
  "crc_from_hex s =
     (case from_str_radix (2 ^ 32) 16 s of
        Inl e \<Rightarrow> Inl ''Failed to parse hex''
      | Inr n \<Rightarrow> Inr (of_nat n))"

lemma hash_chunks_append: "hash_chunks hashed remaining = hashed @ remaining"
proof (induction hashed remaining rule: hash_chunks.induct)
  case (1 hashed remaining)
  then show ?case by (subst hash_chunks.simps) simp
qed

lemma read_file_crc32c_eq:
  "read_file_crc32c crc p d = res_bind (fs_read p d) (\<lambda>bs. Inr (crc bs))"
  by (simp add: read_file_crc32c_def hash_chunks_append)

lemma crc_from_hex_to_hex: "crc_from_hex (crc_to_hex c) = Inr c"
  by (simp add: crc_from_hex_def crc_to_hex_def from_str_radix_fmt_08x del: power_numeral)

section \<open>The text format\<close>

definition line_prefix :: string where
  "line_prefix = ''CRC32C (''"

definition parse_checksum_line :: "string \<Rightarrow> string + (string \<times> string)" where
  "parse_checksum_line line =
     (if \<not> starts_with line_prefix line
      then Inl (''Expected line to start with 'CRC32C (', got: '' @ line)
      else
        (case find_char CHR '')'' line of
           None \<Rightarrow> Inl (''Expected ')' in line: '' @ line)
         | Some close_paren \<Rightarrow>
             (let filename = drop 8 (take close_paren line) in
              if newline \<in> set filename \<or> CHR ''('' \<in> set filename \<or> CHR '')'' \<in> set filename
              then Inl (''Invalid characters in filename: '' @ filename)
              else
                (let rest = trim (drop (close_paren + 1) line) in
                 if \<not> starts_with ''='' rest
                 then Inl (''Expected '=' after filename, got: '' @ rest)
                 else
                   (let hex_value = trim (drop 1 rest) in
                    if length hex_value \<noteq> 8
                    then Inl (''Expected 8 hex digits, got: '' @ hex_value)
                    else Inr (filename, hex_value))))))"

definition line_error :: "nat \<Rightarrow> string \<Rightarrow> string" where
  "line_error line_num e = ''Line '' @ fmt_radix 10 (line_num + 1) @ '': '' @ e"

fun parse_lines :: "nat \<Rightarrow> string list \<Rightarrow> checksums_file \<Rightarrow> string + checksums_file" where
  "parse_lines line_num [] checksums = Inr checksums"
| "parse_lines line_num (l # ls) checksums =
     (let line = trim l in
      if line = [] then parse_lines (Suc line_num) ls checksums
      else res_bind (map_err (line_error line_num) (parse_checksum_line line))
        (\<lambda>(filename, hex_value).
           res_bind (map_err (line_error line_num) (crc_from_hex hex_value))
             (\<lambda>c. parse_lines (Suc line_num) ls (AList.update filename c checksums))))"

definition parse_checksums_file :: "string \<Rightarrow> string + checksums_file" where
  "parse_checksums_file content = parse_lines 0 (split_lines content) []"

definition format_line :: "string \<times> u32 \<Rightarrow> string" where
  "format_line e = line_prefix @ fst e @ '') = '' @ crc_to_hex (snd e)"

definition format_checksums_file :: "checksums_file \<Rightarrow> string" where
  "format_checksums_file m = concat (map (\<lambda>e. format_line e @ [newline]) (sort_key fst m))"

definition checksum_name_ok :: "string \<Rightarrow> bool" where
  "checksum_name_ok s \<longleftrightarrow> newline \<notin> set s \<and> CHR ''('' \<notin> set s \<and> CHR '')'' \<notin> set s"

lemma crc_to_hex_chars: "c \<in> set (crc_to_hex w) \<Longrightarrow> \<exists>d < 16. c = digit_char d"
  unfolding crc_to_hex_def fmt_08x_def by (rule set_pad_zero_fmt) simp

lemma length_crc_to_hex [simp]: "length (crc_to_hex w) = 8"
  by (simp add: crc_to_hex_def)

lemma crc_to_hex_nonempty [simp]: "crc_to_hex w \<noteq> []"
  using length_crc_to_hex [of w] by (metis list.size(3) zero_neq_numeral)

lemma crc_to_hex_no_ws: "c \<in> set (crc_to_hex w) \<Longrightarrow> \<not> is_whitespace c"
  using crc_to_hex_chars digit_char_not_ws by blast

lemma hd_hex_not_ws: "\<not> is_whitespace (hd (crc_to_hex w))"
  by (rule crc_to_hex_no_ws [OF hd_in_set]) simp

lemma last_hex_not_ws: "\<not> is_whitespace (last (crc_to_hex w))"
  by (rule crc_to_hex_no_ws [OF last_in_set]) simp

lemma newline_is_whitespace: "is_whitespace newline"
  by (simp add: is_whitespace_def newline_def)

lemma newline_not_in_hex: "newline \<notin> set (crc_to_hex w)"
  using crc_to_hex_no_ws newline_is_whitespace by blast

lemma trim_hex: "trim (crc_to_hex w) = crc_to_hex w"
  by (rule trim_ends) (simp_all add: hd_hex_not_ws last_hex_not_ws)

lemma trim_space_hex: "trim (CHR '' '' # crc_to_hex w) = crc_to_hex w"
  using trim_hex [of w] by (simp add: trim_def is_whitespace_def)

lemma trim_eq_hex: "trim ('' = '' @ crc_to_hex w) = ''= '' @ crc_to_hex w"
proof -
  have "trim (''= '' @ crc_to_hex w) = ''= '' @ crc_to_hex w"
    by (rule trim_ends) (simp_all add: last_hex_not_ws, simp add: is_whitespace_def)
  then show ?thesis by (simp add: trim_def is_whitespace_def)
qed

lemma last_format_line: "last (format_line e) = last (crc_to_hex (snd e))"
  by (simp add: format_line_def)

lemma hd_format_line: "hd (format_line e) = CHR ''C''"
  by (simp add: format_line_def line_prefix_def)

lemma format_line_nonempty [simp]: "format_line e \<noteq> []"
  by (simp add: format_line_def line_prefix_def)

lemma trim_format_line: "trim (format_line e) = format_line e"
  by (rule trim_ends)
    (simp_all add: last_format_line hd_format_line last_hex_not_ws, simp add: is_whitespace_def)

lemma strip_cr_format_line: "strip_cr (format_line e) = format_line e"
proof -
  have "last (crc_to_hex (snd e)) \<noteq> CHR 0x0D"
    using last_hex_not_ws [of "snd e"] by (auto simp: is_whitespace_def)
  then show ?thesis by (simp add: strip_cr_def last_format_line)
qed

lemma newline_not_in_format_line:
  "checksum_name_ok (fst e) \<Longrightarrow> newline \<notin> set (format_line e)"
  using newline_not_in_hex
  by (auto simp: format_line_def line_prefix_def checksum_name_ok_def newline_def)

lemma parse_format_line:
  assumes "checksum_name_ok name"
  shows "parse_checksum_line (format_line (name, w)) = Inr (name, crc_to_hex w)"
proof -
  have line: "format_line (name, w) = (line_prefix @ name) @ CHR '')'' # '' = '' @ crc_to_hex w"
    by (simp add: format_line_def)
  have find: "find_char CHR '')'' (format_line (name, w)) = Some (8 + length name)"
    unfolding line using assms
    by (subst find_char_append) (auto simp: line_prefix_def checksum_name_ok_def)
  have name: "drop 8 (take (8 + length name) (format_line (name, w))) = name"
    by (simp add: line line_prefix_def numeral_eq_Suc)
  have rest: "trim (drop (8 + length name + 1) (format_line (name, w))) = ''= '' @ crc_to_hex w"
  proof -
    have "drop (8 + length name + 1) (format_line (name, w)) = '' = '' @ crc_to_hex w"
      by (simp add: line line_prefix_def numeral_eq_Suc)
    then show ?thesis by (simp only: trim_eq_hex)
  qed
  have start: "starts_with line_prefix (format_line (name, w))"
    by (simp add: starts_with_def format_line_def)
  have hex: "trim (drop 1 (''= '' @ crc_to_hex w)) = crc_to_hex w"
    by (simp add: trim_space_hex)
  show ?thesis
    using assms
    by (simp only: parse_checksum_line_def start find name rest hex option.case Let_def)
      (simp add: checksum_name_ok_def starts_with_def)
qed

lemma parse_formatted_lines:
  "(\<And>e. e \<in> set es \<Longrightarrow> checksum_name_ok (fst e)) \<Longrightarrow>
   parse_lines n (map format_line es) acc = Inr (fold (\<lambda>(k, v). AList.update k v) es acc)"
proof (induction es arbitrary: n acc)
  case (Cons e es)
  obtain k v where e: "e = (k, v)" by (cases e)
  with Cons.prems have "checksum_name_ok k" by fastforce
  with Cons e show ?case
    by (simp add: trim_format_line parse_format_line crc_from_hex_to_hex)
qed simp

lemma map_of_fold_update:
  "distinct (map fst es) \<Longrightarrow>
   map_of (fold (\<lambda>(k, v). AList.update k v) es acc) = map_of acc ++ map_of es"
proof (induction es arbitrary: acc)
  case (Cons e es)
  obtain k v where e: "e = (k, v)" by (cases e)
  have "map_of es k = None" using Cons.prems e by (simp add: map_of_eq_None_iff)
  then have "(map_of acc)(k \<mapsto> v) ++ map_of es = map_of acc ++ (map_of es)(k \<mapsto> v)"
    by (auto simp: fun_eq_iff map_add_def split: option.split)
  with Cons e show ?case by (simp add: update_conv' del: map_add_upd fun_upd_apply)
qed simp

lemma parse_format_checksums:
  assumes "distinct (map fst m)" and "\<forall>(name, c) \<in> set m. checksum_name_ok name"
  obtains m' where "parse_checksums_file (format_checksums_file m) = Inr m'"
    and "map_of m' = map_of m"
proof -
  let ?es = "sort_key fst m"
  let ?m' = "fold (\<lambda>(k, v). AList.update k v) ?es []"
  have ok: "\<And>e. e \<in> set ?es \<Longrightarrow> checksum_name_ok (fst e)" using assms(2) by auto
  have lines: "\<And>l. l \<in> set (map format_line ?es) \<Longrightarrow> newline \<notin> set l"
    using ok newline_not_in_format_line by auto
  have "format_checksums_file m = concat (map (\<lambda>l. l @ [newline]) (map format_line ?es))"
    by (simp add: format_checksums_file_def comp_def)
  then have "split_lines (format_checksums_file m) = map strip_cr (map format_line ?es)"
    by (simp only: split_lines_concat [OF lines])
  then have "split_lines (format_checksums_file m) = map format_line ?es"
    by (simp add: strip_cr_format_line)
  then have "parse_checksums_file (format_checksums_file m) = Inr ?m'"
    using parse_formatted_lines [of ?es 0 "[]", OF ok] by (simp add: parse_checksums_file_def)
  moreover have "distinct (map fst ?es)"
    using assms(1) by simp
  then have "map_of ?m' = map_of m"
    using map_of_sort_key [OF assms(1)] by (simp add: map_of_fold_update)
  ultimately show thesis by (rule that)
qed

section \<open>Checksum files on disk\<close>

text \<open>
  Text is stored one byte per character; \<open>read_to_string\<close> is modelled for ASCII content and
  rejects any other byte.
\<close>

definition fs_read_to_string :: "path \<Rightarrow> disk \<Rightarrow> string res" where
  "fs_read_to_string p d =
     res_bind (fs_read p d)
       (\<lambda>bs. if \<forall>b \<in> set bs. unat b < 128 then Inr (bytes_string bs) else Inl (Io InvalidData))"

text \<open>\<open>Path::with_extension\<close> on the last component: the part after the last dot is replaced.\<close>

definition file_stem :: "string \<Rightarrow> string" where
  "file_stem name =
     (case dropWhile (\<lambda>c. c \<noteq> CHR ''.'') (rev name) of
        [] \<Rightarrow> name
      | _ # r \<Rightarrow> if r = [] then name else rev r)"

definition file_extension :: "string \<Rightarrow> string option" where
  "file_extension name =
     (case dropWhile (\<lambda>c. c \<noteq> CHR ''.'') (rev name) of
        [] \<Rightarrow> None
      | _ # r \<Rightarrow> if r = [] then None else Some (rev (takeWhile (\<lambda>c. c \<noteq> CHR ''.'') (rev name))))"

definition with_extension :: "path \<Rightarrow> string \<Rightarrow> path" where
  "with_extension p ext = butlast p @ [file_stem (last p) @ ''.'' @ ext]"

definition read_checksums_file :: "path \<Rightarrow> disk \<Rightarrow> checksums_file res" where
  "read_checksums_file p d =
     res_bind (fs_read_to_string p d)
       (\<lambda>content. map_err (\<lambda>_. Io InvalidData) (parse_checksums_file content))"

definition write_checksums_file :: "path \<Rightarrow> checksums_file \<Rightarrow> (disk, unit) io" where
  "write_checksums_file p checksums =
     (let content = format_checksums_file checksums;
          temp_path = with_extension p ''checksum.tmp''
      in io_bind (fs_create temp_path) (\<lambda>file.
         io_bind (fs_append file (string_bytes content)) (\<lambda>_.
         io_bind (fs_sync file) (\<lambda>_.
         io_bind (fs_rename temp_path p) (\<lambda>_.
         fs_sync_path (butlast p))))))"

definition get_checksum :: "checksums_file \<Rightarrow> string \<Rightarrow> string + u32" where
  "get_checksum m filename =
     (case map_of m filename of
        Some c \<Rightarrow> Inr c
      | None \<Rightarrow> Inl (''Checksum not found for file: '' @ filename))"

definition check_crc :: "crc_fun \<Rightarrow> path \<Rightarrow> u32 \<Rightarrow> disk \<Rightarrow> unit res" where
  "check_crc crc p expected d =
     res_bind (read_file_crc32c crc p d)
       (\<lambda>computed. if computed \<noteq> expected then Inl (Io InvalidData) else Inr ())"

definition expect_checksum :: "crc_fun \<Rightarrow> path \<Rightarrow> checksums_file \<Rightarrow> string \<Rightarrow> disk \<Rightarrow> unit res" where
  "expect_checksum crc p m filename d =
     res_bind (map_err (\<lambda>_. Io InvalidData) (get_checksum m filename))
       (\<lambda>expected. check_crc crc p expected d)"

lemma check_crc_iff:
  "check_crc crc p c d = Inr () \<longleftrightarrow> (\<exists>bs. file_contents d p = Some bs \<and> crc bs = c)"
  by (auto simp: check_crc_def read_file_crc32c_eq fs_read_def result_simps
      split: option.splits if_splits)

lemma bytes_string_bytes: "bytes_string (string_bytes s) = s"
proof (induction s)
  case (Cons c s)
  have "(of_char c :: nat) < 256" by simp
  then have "unat (of_nat (of_char c) :: byte) = of_char c"
    by (simp add: unat_of_nat)
  with Cons show ?case by (simp add: bytes_string_def string_bytes_def)
qed (simp add: bytes_string_def string_bytes_def)

lemma string_bytes_ascii: "is_ascii s \<Longrightarrow> b \<in> set (string_bytes s) \<Longrightarrow> unat b < 128"
  by (auto simp: is_ascii_def string_bytes_def unat_of_nat)

lemma is_ascii_append [simp]: "is_ascii (a @ b) \<longleftrightarrow> is_ascii a \<and> is_ascii b"
  by (auto simp: is_ascii_def)

lemma is_ascii_hex: "is_ascii (crc_to_hex w)"
  using crc_to_hex_chars by (fastforce simp: is_ascii_def of_char_digit_char)

lemma is_ascii_format:
  assumes "\<forall>(name, c) \<in> set m. is_ascii name"
  shows "is_ascii (format_checksums_file m)"
proof -
  have "is_ascii (format_line e @ [newline])" if "e \<in> set m" for e
    using assms that is_ascii_hex
    by (auto simp: format_line_def line_prefix_def newline_def) (auto simp: is_ascii_def)
  then show ?thesis by (auto simp: format_checksums_file_def is_ascii_def newline_def)
qed

lemma read_formatted:
  assumes "file_contents d p = Some (string_bytes (format_checksums_file m))"
    and "distinct (map fst m)" and "\<forall>(name, c) \<in> set m. checksum_name_ok name \<and> is_ascii name"
  obtains m' where "read_checksums_file p d = Inr m'" and "map_of m' = map_of m"
proof -
  from assms(2,3) obtain m' where m': "parse_checksums_file (format_checksums_file m) = Inr m'"
      "map_of m' = map_of m"
    by (auto intro: parse_format_checksums [of m])
  have "is_ascii (format_checksums_file m)" using assms(3) by (auto intro: is_ascii_format)
  then have "read_checksums_file p d = Inr m'"
    using assms(1) m'(1) string_bytes_ascii
    by (simp add: read_checksums_file_def fs_read_to_string_def fs_read_def bytes_string_bytes)
  with m'(2) show thesis by (rule that [rotated])
qed

end
