(* ===== verification/Bloom.thy ===== *)
theory Bloom
  imports Checksum
begin

unbundle bit_operations_syntax

text \<open>
  The bloom filter of \<open>src/sstable.rs\<close>: a bit array in bytes, seven probes per key, each the
  checksum of the probe number followed by the key. Out-of-range indexing and a remainder by
  zero are panics of the code and \<^term>\<open>Panic\<close> results here. The main fact is that a filter
  built from keys answers "maybe" for each of them, whatever the hash.
\<close>

record bloom =
  bl_bits :: "byte list"
  bl_num_bits :: nat
  bl_num_hashes :: nat

definition bloom_hash :: "crc_fun \<Rightarrow> byte list \<Rightarrow> nat \<Rightarrow> u32" where
  "bloom_hash crc key seed = crc (u32_le seed @ key)"

text \<open>\<open>bits[bit_pos / 8] |= 1 << (bit_pos % 8)\<close>\<close>

definition bloom_set :: "nat \<Rightarrow> byte list \<Rightarrow> byte list" where
  "bloom_set bit_pos bits =
     bits[bit_pos div 8 := (bits ! (bit_pos div 8)) OR push_bit (bit_pos mod 8) 1]"

definition bloom_pos :: "crc_fun \<Rightarrow> nat \<Rightarrow> byte list \<Rightarrow> nat \<Rightarrow> nat" where
  "bloom_pos crc num_bits key i = unat (bloom_hash crc key i) mod num_bits"

definition bloom_add :: "crc_fun \<Rightarrow> nat \<Rightarrow> nat \<Rightarrow> byte list \<Rightarrow> byte list \<Rightarrow> byte list" where
  "bloom_add crc num_hashes num_bits key bits =
     fold (\<lambda>i. bloom_set (bloom_pos crc num_bits key i)) [0..<num_hashes] bits"

definition bloom_from_keys :: "crc_fun \<Rightarrow> byte list list \<Rightarrow> nat \<Rightarrow> bloom res" where
  "bloom_from_keys crc keys bits_per_key =
     (let num_bits = length keys * bits_per_key;
          num_hashes = 7;
          bits = replicate ((num_bits + 7) div 8) 0
      in if keys \<noteq> [] \<and> num_bits = 0 then Inl (Panic ''remainder by zero'')
         else Inr \<lparr>bl_bits = fold (bloom_add crc num_hashes num_bits) keys bits,
                   bl_num_bits = num_bits, bl_num_hashes = num_hashes\<rparr>)"

fun bloom_probe :: "crc_fun \<Rightarrow> bloom \<Rightarrow> byte list \<Rightarrow> nat list \<Rightarrow> bool res" where
  "bloom_probe crc b key [] = Inr True"
| "bloom_probe crc b key (i # is) =
     (if bl_num_bits b = 0 then Inl (Panic ''remainder by zero'')
      else
        let bit_pos = bloom_pos crc (bl_num_bits b) key i in
        if length (bl_bits b) \<le> bit_pos div 8 then Inl (Panic ''index out of bounds'')
        else if (bl_bits b ! (bit_pos div 8)) AND push_bit (bit_pos mod 8) 1 = 0 then Inr False
        else bloom_probe crc b key is)"

definition might_contain :: "crc_fun \<Rightarrow> bloom \<Rightarrow> byte list \<Rightarrow> bool res" where
  "might_contain crc b key = bloom_probe crc b key [0..<bl_num_hashes b]"

section \<open>No false negatives\<close>

definition bloom_bit :: "byte list \<Rightarrow> nat \<Rightarrow> bool" where
  "bloom_bit bits p \<longleftrightarrow> bit (bits ! (p div 8)) (p mod 8)"

lemma probe_bit: "((w :: byte) AND 2 ^ n = 0) \<longleftrightarrow> \<not> bit w n"
  by (rule and_exp_eq_0_iff_not_bit)

lemma bit_byte_exp: "bit (2 ^ m :: byte) (n mod 8) \<longleftrightarrow> m = n mod 8"
  by (auto simp: bit_exp_iff)

lemma length_bloom_set [simp]: "length (bloom_set p bits) = length bits"
  by (simp add: bloom_set_def)

lemma bloom_bit_set:
  assumes "p div 8 < length bits"
  shows "bloom_bit (bloom_set p bits) q \<longleftrightarrow> q = p \<or> bloom_bit bits q"
proof (cases "q div 8 = p div 8")
  case True
  have "q = p \<longleftrightarrow> q mod 8 = p mod 8"
    using True by (metis div_mult_mod_eq)
  then show ?thesis
    using True assms
    by (auto simp: bloom_bit_def bloom_set_def bit_or_iff bit_byte_exp)
next
  case False
  then show ?thesis by (auto simp: bloom_bit_def bloom_set_def)
qed

lemma length_bloom_sets [simp]:
  "length (fold (\<lambda>i. bloom_set (f i)) is bits) = length bits"
  by (induction "is" arbitrary: bits) auto

lemma bloom_bit_sets:
  assumes "\<forall>i \<in> set is. f i div 8 < length bits"
  shows "bloom_bit (fold (\<lambda>i. bloom_set (f i)) is bits) q \<longleftrightarrow>
    (\<exists>i \<in> set is. q = f i) \<or> bloom_bit bits q"
  using assms
  by (induction "is" arbitrary: bits) (auto simp: bloom_bit_set)

lemma length_bloom_add [simp]: "length (bloom_add crc n m key bits) = length bits"
  by (simp add: bloom_add_def)

lemma length_bloom_adds [simp]: "length (fold (bloom_add crc n m) keys bits) = length bits"
  by (induction keys arbitrary: bits) auto

lemma bloom_pos_less:
  assumes "0 < m" and "(m + 7) div 8 \<le> length bits"
  shows "bloom_pos crc m key i div 8 < length bits"
proof -
  have "bloom_pos crc m key i < m" using assms(1) by (simp add: bloom_pos_def)
  then have "bloom_pos crc m key i div 8 < (m + 7) div 8" by linarith
  with assms(2) show ?thesis by linarith
qed

lemma bloom_bit_adds:
  assumes "0 < m" and "(m + 7) div 8 \<le> length bits"
  shows "bloom_bit (fold (bloom_add crc n m) keys bits) q \<longleftrightarrow>
    (\<exists>key \<in> set keys. \<exists>i < n. q = bloom_pos crc m key i) \<or> bloom_bit bits q"
  using assms(2)
proof (induction keys arbitrary: bits)
  case (Cons key keys)
  have "bloom_bit (bloom_add crc n m key bits) q \<longleftrightarrow>
      (\<exists>i < n. q = bloom_pos crc m key i) \<or> bloom_bit bits q"
    unfolding bloom_add_def using Cons.prems assms(1)
    by (subst bloom_bit_sets) (auto simp: bloom_pos_less)
  with Cons show ?case by auto
qed simp

lemma bloom_probe_set:
  assumes "0 < bl_num_bits b"
    and "\<forall>i \<in> set is. bloom_pos crc (bl_num_bits b) key i div 8 < length (bl_bits b)"
    and "\<forall>i \<in> set is. bloom_bit (bl_bits b) (bloom_pos crc (bl_num_bits b) key i)"
  shows "bloom_probe crc b key is = Inr True"
  using assms(2,3)
proof (induction "is")
  case (Cons i "is")
  with assms(1) show ?case
    by (simp add: Let_def probe_bit bloom_bit_def not_le)
qed simp

lemma bloom_probe_total:
  assumes "0 < bl_num_bits b" and "(bl_num_bits b + 7) div 8 \<le> length (bl_bits b)"
  shows "\<exists>r. bloom_probe crc b key is = Inr r"
proof (induction "is")
  case (Cons i "is")
  then show ?case
    using assms bloom_pos_less [OF assms, of crc key i] by (auto simp: Let_def)
qed auto

definition bloom_ok :: "crc_fun \<Rightarrow> byte list list \<Rightarrow> bloom \<Rightarrow> bool" where
  "bloom_ok crc keys b \<longleftrightarrow>
     (\<forall>key \<in> set keys. might_contain crc b key = Inr True)
     \<and> (\<forall>key. \<exists>r. might_contain crc b key = Inr r)"

lemma bloom_ok_from_keys:
  assumes "keys \<noteq> []" and "0 < bits_per_key"
    and b: "bloom_from_keys crc keys bits_per_key = Inr b"
  shows "bloom_ok crc keys b"
proof -
  let ?m = "length keys * bits_per_key" and ?z = "replicate ((length keys * bits_per_key + 7) div 8) 0"
  have m: "0 < ?m" using assms by simp
  have b': "bl_num_bits b = ?m" "bl_num_hashes b = 7"
      "bl_bits b = fold (bloom_add crc 7 ?m) keys ?z"
    using b m by (auto simp: bloom_from_keys_def Let_def)
  have len: "(bl_num_bits b + 7) div 8 \<le> length (bl_bits b)" by (simp add: b')
  have "might_contain crc b key = Inr True" if "key \<in> set keys" for key
    unfolding might_contain_def
  proof (rule bloom_probe_set)
    show "0 < bl_num_bits b" using m by (simp add: b')
    show "\<forall>i \<in> set [0..<bl_num_hashes b].
        bloom_pos crc (bl_num_bits b) key i div 8 < length (bl_bits b)"
      using bloom_pos_less [OF _ len] m by (simp add: b'(1))
    show "\<forall>i \<in> set [0..<bl_num_hashes b].
        bloom_bit (bl_bits b) (bloom_pos crc (bl_num_bits b) key i)"
      using that m by (auto simp: b' bloom_bit_adds) blast
  qed
  moreover have "\<exists>r. might_contain crc b key = Inr r" for key
    unfolding might_contain_def using bloom_probe_total [OF _ len] m by (simp add: b')
  ultimately show ?thesis by (simp add: bloom_ok_def)
qed

lemma bloom_from_keys_total: "0 < bits_per_key \<Longrightarrow> \<exists>b. bloom_from_keys crc keys bits_per_key = Inr b"
  by (auto simp: bloom_from_keys_def Let_def)

text \<open>
  C8. The bloom filter has no false negatives and never panics: built at the 10 bits per key
  that \<open>finish\<close> uses, it answers \<open>true\<close> for every key it was built from, for any checksum
  function, and gives an answer for every other key.
\<close>

theorem bloom_no_false_negatives:
  assumes "keys \<noteq> []"
  shows "\<exists>b. bloom_from_keys crc keys 10 = Inr b
    \<and> (\<forall>key \<in> set keys. might_contain crc b key = Inr True)
    \<and> (\<forall>key. \<exists>r. might_contain crc b key = Inr r)"
proof -
  obtain b where b: "bloom_from_keys crc keys 10 = Inr b"
    using bloom_from_keys_total [of 10 crc keys] by auto
  have "bloom_ok crc keys b" by (rule bloom_ok_from_keys [OF assms _ b]) simp
  with b show ?thesis by (auto simp: bloom_ok_def)
qed

theorem bloom_no_false_negatives_witness:
  "\<exists>b. bloom_from_keys (\<lambda>bs. of_nat (sum_list (map unat bs))) [[1, 2], [3]] 10 = Inr b
    \<and> might_contain (\<lambda>bs. of_nat (sum_list (map unat bs))) b [3] = Inr True"
  using bloom_no_false_negatives [of "[[1, 2], [3]]" "\<lambda>bs. of_nat (sum_list (map unat bs))"]
  by auto

end
