(* ===== verification/ChecksumHandle.thy ===== *)
theory ChecksumHandle
  imports Checksum
begin

text \<open>
  \<open>src/checksum_handle.rs\<close>: a file being written together with the running checksum of what
  was written. The hasher's state is the bytes it has been fed. The invariant \<open>tracks\<close> says
  that these bytes are exactly what the file on disk reads as, so the checksum a handle
  returns is one that \<open>check_crc\<close> accepts.
\<close>

record checksum_handle =
  ch_file :: nat
  ch_hashed :: "byte list"

definition ch_create :: "path \<Rightarrow> (disk, checksum_handle) io" where
  "ch_create p =
     io_bind (fs_create_new p) (\<lambda>file. io_return \<lparr>ch_file = file, ch_hashed = []\<rparr>)"

definition ch_write_all :: "checksum_handle \<Rightarrow> byte list \<Rightarrow> (disk, checksum_handle) io" where
  "ch_write_all h buf =
     io_bind (fs_append (ch_file h) buf)
       (\<lambda>_. io_return (h\<lparr>ch_hashed := ch_hashed h @ buf\<rparr>))"

definition ch_close :: "crc_fun \<Rightarrow> checksum_handle \<Rightarrow> (disk, u32) io" where
  "ch_close crc h = io_bind (fs_sync (ch_file h)) (\<lambda>_. io_return (crc (ch_hashed h)))"

definition write_file_with_checksum :: "crc_fun \<Rightarrow> path \<Rightarrow> byte list \<Rightarrow> (disk, u32) io" where
  "write_file_with_checksum crc p data =
     io_bind (ch_create p) (\<lambda>h. io_bind (ch_write_all h data) (\<lambda>h'. ch_close crc h'))"

section \<open>The checksum describes the file\<close>

definition tracks :: "disk \<Rightarrow> checksum_handle \<Rightarrow> path \<Rightarrow> bool" where
  "tracks d h p \<longleftrightarrow>
     sole_name d (ch_file h) p \<and> file_contents d p = Some (ch_hashed h)"

lemma ch_create_Inr:
  "ch_create p d = (Inr h, d') \<longleftrightarrow>
     fs_create_new p d = (Inr (ch_file h), d') \<and> h = \<lparr>ch_file = ch_file h, ch_hashed = []\<rparr>"
  by (auto simp: ch_create_def io_bind_eq_Inr)

lemma ch_create_tracks:
  assumes "disk_ok d" and "ch_create p d = (Inr h, d')"
  shows "disk_ok d'" and "tracks d' h p" and "file_contents d' = (file_contents d)(p \<mapsto> [])"
    and "file_contents d p = None" and "ch_hashed h = []" and "d_dirs d' = d_dirs d"
proof -
  from assms(2) have c: "fs_create_new p d = (Inr (ch_file h), d')"
    and h: "h = \<lparr>ch_file = ch_file h, ch_hashed = []\<rparr>"
    by (simp_all add: ch_create_Inr)
  show "ch_hashed h = []" by (subst h) simp
  show "disk_ok d'" by (rule disk_store.create_invar [OF assms(1) c])
  show v: "file_contents d' = (file_contents d)(p \<mapsto> [])"
    by (rule disk_store.create_view [OF assms(1) c])
  show "file_contents d p = None" by (rule disk_store.create_fresh [OF assms(1) c])
  show "d_dirs d' = d_dirs d" using c by (simp add: fs_create_new_Inr)
  show "tracks d' h p"
    using disk_store.create_owned [OF assms(1) c] v \<open>ch_hashed h = []\<close> by (simp add: tracks_def)
qed

lemma ch_create_keeps:
  assumes "disk_ok d" and "ch_create p d = (Inr h, d')" and "tracks d g q"
  shows "tracks d' g q"
proof -
  from assms(2) have c: "fs_create_new p d = (Inr (ch_file h), d')"
    by (simp add: ch_create_Inr)
  have "q \<noteq> p" using disk_store.create_fresh [OF assms(1) c] assms(3) by (auto simp: tracks_def)
  then show ?thesis
    using assms(3) disk_store.create_keeps [OF assms(1) c] disk_store.create_view [OF assms(1) c]
    by (simp add: tracks_def)
qed

lemma ch_write_all_eq:
  "ch_write_all h buf d =
     (Inr (h\<lparr>ch_hashed := ch_hashed h @ buf\<rparr>), snd (fs_append (ch_file h) buf d))"
  by (simp add: ch_write_all_def io_bind_def fs_append_def)

lemma ch_write_all_tracks:
  assumes "tracks d h p"
  shows "tracks (snd (fs_append (ch_file h) buf d)) (h\<lparr>ch_hashed := ch_hashed h @ buf\<rparr>) p"
    and "file_contents (snd (fs_append (ch_file h) buf d)) =
           (file_contents d)(p \<mapsto> ch_hashed h @ buf)"
  using assms contents_append [of d "ch_file h" p buf] by (simp_all add: tracks_def)

lemma ch_write_all_keeps:
  assumes "tracks d h p" and "tracks d g q" and "p \<noteq> q"
  shows "tracks (snd (fs_append (ch_file h) buf d)) g q"
  using assms contents_append [of d "ch_file h" p buf] by (simp add: tracks_def)

lemma fs_append_dirs [simp]: "d_dirs (snd (fs_append i bs d)) = d_dirs d"
  by (simp add: fs_append_def)

lemma ch_close_eq: "ch_close crc h d = (Inr (crc (ch_hashed h)), d)"
  by (simp add: ch_close_def io_bind_def fs_sync_def)

lemma write_file_with_checksum_Inr:
  assumes "disk_ok d" and w: "write_file_with_checksum crc p data d = (Inr c, d')"
  shows "disk_ok d'" and "file_contents d' = (file_contents d)(p \<mapsto> data)" and "c = crc data"
    and "file_contents d p = None" and "d_dirs d' = d_dirs d"
proof -
  from w obtain h d1 where h: "ch_create p d = (Inr h, d1)"
    and d': "d' = snd (fs_append (ch_file h) data d1)" and c: "c = crc (ch_hashed h @ data)"
    by (auto simp: write_file_with_checksum_def io_bind_eq_Inr ch_write_all_eq ch_close_eq)
  note cr = ch_create_tracks [OF assms(1) h]
  show "disk_ok d'" using cr(1) by (simp add: d')
  show "file_contents d' = (file_contents d)(p \<mapsto> data)"
    using ch_write_all_tracks(2) [OF cr(2), of data] cr(3,5) by (simp add: d')
  show "c = crc data" using c cr(5) by simp
  show "file_contents d p = None" by (rule cr(4))
  show "d_dirs d' = d_dirs d" using cr(6) by (simp add: d')
qed

text \<open>Writing a sequence of buffers through one handle.\<close>

fun ch_write_many :: "checksum_handle \<Rightarrow> byte list list \<Rightarrow> (disk, checksum_handle) io" where
  "ch_write_many h [] = io_return h"
| "ch_write_many h (b # bs) = io_bind (ch_write_all h b) (\<lambda>h'. ch_write_many h' bs)"

lemma ch_write_many_tracks:
  "tracks d h p \<Longrightarrow>
   \<exists>h' d'. ch_write_many h bs d = (Inr h', d') \<and> tracks d' h' p
     \<and> ch_hashed h' = ch_hashed h @ concat bs"
proof (induction bs arbitrary: h d)
  case (Cons b bs)
  from Cons.IH [OF ch_write_all_tracks(1) [OF Cons.prems, of b]] show ?case
    by (auto simp: io_bind_def ch_write_all_eq)
qed simp

text \<open>
  Checksums computed while writing agree with checksums computed from the file: after
  \<open>ChecksumHandle::create\<close>, any sequence of \<open>write_all\<close> calls and \<open>close\<close>, the returned value
  is accepted by \<open>check_crc\<close> on the finished file, whose content is the concatenation of the
  buffers.
\<close>

lemma checksum_handle_check_crc:
  assumes "disk_ok d" and "ch_create p d = (Inr h, d1)"
  shows "\<exists>h' d2 c d3. ch_write_many h bufs d1 = (Inr h', d2) \<and> ch_close crc h' d2 = (Inr c, d3)
    \<and> file_contents d3 p = Some (concat bufs) \<and> check_crc crc p c d3 = Inr ()"
proof -
  note cr = ch_create_tracks [OF assms]
  from ch_write_many_tracks [OF cr(2), of bufs] obtain h' d2 where
    w: "ch_write_many h bufs d1 = (Inr h', d2)" "tracks d2 h' p" "ch_hashed h' = concat bufs"
    using cr(5) by auto
  then show ?thesis by (auto simp: ch_close_eq check_crc_iff tracks_def)
qed

definition sample_disk :: disk where
  "sample_disk = \<lparr>d_names = [], d_dirs = [[''active''], []], d_data = (\<lambda>_. []), d_next = 0\<rparr>"

lemma disk_ok_sample [simp]: "disk_ok sample_disk"
  by (simp add: disk_ok_def sample_disk_def)

lemma dirs_sample [simp]: "d_dirs sample_disk = [[''active''], []]"
  by (simp add: sample_disk_def)

lemma contents_sample [simp]: "file_contents sample_disk p = None"
  by (simp add: file_contents_def sample_disk_def)

end
