(* ===== verification/LsmTypes.thy ===== *)
theory LsmTypes
  imports Prelude
begin

text \<open>
  The crate's core types (\<open>src/lib.rs\<close>, "Core Types" and "Configuration"): keys and values
  are byte vectors, keys are ordered as \<open>Vec<u8>\<close> is, lexicographically; the configuration
  record with its defaults, and the compaction strategies. Floating-point fields are kept as
  their IEEE bit patterns: no modelled operation computes with them.
\<close>

section \<open>Keys and values\<close>

datatype key = Key (key_bytes: "byte list")

datatype lsm_value = Value (value_bytes: "byte list")

instantiation key :: linorder
begin

definition less_eq_key :: "key \<Rightarrow> key \<Rightarrow> bool" where
  "less_eq_key a b \<longleftrightarrow> key_bytes a \<le> key_bytes b"

definition less_key :: "key \<Rightarrow> key \<Rightarrow> bool" where
  "less_key a b \<longleftrightarrow> key_bytes a < key_bytes b"

instance
proof
  fix a b c :: key
  show "a < b \<longleftrightarrow> a \<le> b \<and> \<not> b \<le> a"
    by (auto simp: less_eq_key_def less_key_def)
  show "a \<le> a" by (simp add: less_eq_key_def)
  show "a \<le> b \<Longrightarrow> b \<le> c \<Longrightarrow> a \<le> c" by (auto simp: less_eq_key_def)
  show "a \<le> b \<Longrightarrow> b \<le> a \<Longrightarrow> a = b" by (auto simp: less_eq_key_def key.expand)
  show "a \<le> b \<or> b \<le> a" by (auto simp: less_eq_key_def)
qed

end

lemma Key_le [simp]: "Key a \<le> Key b \<longleftrightarrow> a \<le> b"
  by (simp add: less_eq_key_def)

lemma Key_less [simp]: "Key a < Key b \<longleftrightarrow> a < b"
  by (simp add: less_key_def)

definition key_size :: "key \<Rightarrow> nat" where
  "key_size k = length (key_bytes k)"

definition value_size :: "lsm_value \<Rightarrow> nat" where
  "value_size v = length (value_bytes v)"

text \<open>
  The bounds of a full scan: \<open>Key::from(b"")\<close> and \<open>Key::from([0xFF; 256])\<close>. The upper one
  is not the greatest key: a key longer than 256 bytes that starts with 256 times \<open>0xFF\<close>
  lies above it.
\<close>

definition min_scan_key :: key where
  "min_scan_key = Key []"

definition max_scan_key :: key where
  "max_scan_key = Key (replicate 256 0xFF)"

definition scannable :: "key \<Rightarrow> bool" where
  "scannable k \<longleftrightarrow> k \<le> max_scan_key"

lemma min_scan_key_le [simp]: "min_scan_key \<le> k"
  by (simp add: min_scan_key_def less_eq_key_def)

lemma byte_le_max: "(b :: byte) \<le> 0xFF"
proof -
  have "unat b < 2 ^ LENGTH(8)" by (rule unsigned_less)
  then show ?thesis by (simp add: word_le_nat_alt)
qed

lemma le_replicate_max: "length bs \<le> n \<Longrightarrow> (bs :: byte list) \<le> replicate n 0xFF"
proof (induction n arbitrary: bs)
  case 0
  then show ?case by simp
next
  case (Suc n)
  show ?case
  proof (cases bs)
    case Nil
    then show ?thesis by simp
  next
    case (Cons b bs')
    with Suc have "bs' \<le> replicate n 0xFF" by simp
    with Cons byte_le_max [of b] show ?thesis by (auto simp: less_le)
  qed
qed

lemma scannable_short: "key_size k \<le> 256 \<Longrightarrow> scannable k"
  by (simp add: scannable_def max_scan_key_def less_eq_key_def key_size_def le_replicate_max)

section \<open>Configuration\<close>

type_synonym f64 = "64 word"

datatype compaction_strategy =
    Tiered (tiered_size_ratio: f64) (min_merge_width: nat) (max_merge_width: nat)
  | Leveled (leveled_size_ratio: f64) (strategy_max_level: nat)
  | Hybrid (l0_strategy: compaction_strategy) (ln_strategy: compaction_strategy)
      (transition_level: nat)

datatype io_backend = Sync

record lsm_config =
  memtable_size :: u64
  max_immutable_memtables :: nat
  block_cache_size :: nat
  strategy :: compaction_strategy
  compaction_threads :: nat
  level0_compaction_trigger :: nat
  bloom_filter_bits_per_key :: nat
  bloom_filter_fp_rate :: f64
  max_snapshots_per_wallet :: nat
  snapshot_interval :: nat
  sstable_size :: nat
  sstable_block_size :: nat
  backend :: io_backend
  merge_batch_size :: nat

definition default_config :: lsm_config where
  "default_config = \<lparr>
     memtable_size = 64 * 1024 * 1024,
     max_immutable_memtables = 2,
     block_cache_size = 256 * 1024 * 1024,
     strategy = Hybrid (Tiered 0x4010000000000000 4 10) (Leveled 0x4024000000000000 7) 2,
     compaction_threads = 2,
     level0_compaction_trigger = 4,
     bloom_filter_bits_per_key = 10,
     bloom_filter_fp_rate = 0x3F847AE147AE147B,
     max_snapshots_per_wallet = 10,
     snapshot_interval = 600,
     sstable_size = 64 * 1024 * 1024,
     sstable_block_size = 4096,
     backend = Sync,
     merge_batch_size = 20000 \<rparr>"

end
