(* ===== verification/IoBackend.thy ===== *)
theory IoBackend
  imports Disk LsmTypes
begin

text \<open>
  \<open>src/io_backend.rs\<close>: whole-file, positioned and batched reads. A build has the synchronous
  backend, and the backend type has the one constructor \<^term>\<open>Sync\<close>. The branches for
  \<open>IoBackend::IoUring\<close>, which a cargo feature adds, are definitions of their own, since every
  read of the tree asks for the default backend; the read of the crate \<open>tokio-uring\<close> is their
  parameter, which may fail and may give fewer bytes than asked for.
\<close>

fun read_file :: "path \<Rightarrow> io_backend \<Rightarrow> disk \<Rightarrow> byte list res" where
  "read_file p Sync d = fs_read p d"

text \<open>\<open>read_exact_at\<close>: a range that passes the end of the file is an error.\<close>

fun read_range :: "path \<Rightarrow> nat \<Rightarrow> nat \<Rightarrow> io_backend \<Rightarrow> disk \<Rightarrow> byte list res" where
  "read_range p offset len Sync d =
     res_bind (fs_read p d)
       (\<lambda>bs. case take_exact len (drop offset bs) of
                Some (buf, _) \<Rightarrow> Inr buf
              | None \<Rightarrow> Inl (Io UnexpectedEof))"

fun read_batch :: "(path \<times> nat \<times> nat) list \<Rightarrow> io_backend \<Rightarrow> disk \<Rightarrow> byte list list res" where
  "read_batch [] Sync d = Inr []"
| "read_batch ((p, offset, len) # rs) Sync d =
     res_bind (read_range p offset len Sync d)
       (\<lambda>buf. res_bind (read_batch rs Sync d) (\<lambda>bufs. Inr (buf # bufs)))"

lemma read_range_middle:
  assumes "file_contents d p = Some (xs @ ys @ zs)" and "length xs = offset" and "length ys = len"
  shows "read_range p offset len Sync d = Inr ys"
proof -
  have "drop offset (xs @ ys @ zs) = ys @ zs" using assms(2) by simp
  then show ?thesis using assms(1,3) by (simp add: fs_read_def)
qed

lemma read_batch_all:
  assumes "\<And>p off len. (p, off, len) \<in> set rs \<Longrightarrow> read_range p off len Sync d = Inr (f off len)"
  shows "read_batch rs Sync d = Inr (map (\<lambda>(p, off, len). f off len) rs)"
  using assms
proof (induction rs)
  case (Cons r rs)
  obtain p off len where r: "r = (p, off, len)" by (cases r)
  have "read_range p off len Sync d = Inr (f off len)" using Cons.prems r by simp
  moreover have "read_batch rs Sync d = Inr (map (\<lambda>(p, off, len). f off len) rs)"
    using Cons by simp
  ultimately show ?case by (simp add: r del: read_range.simps)
qed simp

section \<open>The ring\<close>

text \<open>
  \<open>read_at\<close> of the crate gives the bytes it read from an open file, from an offset and at most
  as many as the buffer can hold; it puts them at the front of the buffer, whose length grows
  to their number and does not shrink.
\<close>

type_synonym ring_read = "byte list \<Rightarrow> nat \<Rightarrow> nat \<Rightarrow> byte list res"

definition filled :: "byte list \<Rightarrow> byte list \<Rightarrow> byte list" where
  "filled buf bs = bs @ drop (length bs) buf"

text \<open>The buffer of \<open>read_file\<close> is \<open>Vec::with_capacity(4096)\<close>, empty and of room for 4096 bytes.\<close>

definition uring_read_file :: "ring_read \<Rightarrow> path \<Rightarrow> disk \<Rightarrow> byte list res" where
  "uring_read_file rd p d =
     res_bind (fs_read p d) (\<lambda>file. res_bind (rd file 0 4096) (\<lambda>bs. Inr (filled [] bs)))"

definition uring_read_range :: "ring_read \<Rightarrow> path \<Rightarrow> nat \<Rightarrow> nat \<Rightarrow> disk \<Rightarrow> byte list res" where
  "uring_read_range rd p offset len d =
     res_bind (fs_read p d) (\<lambda>file. res_bind (rd file offset len) (\<lambda>bs. Inr (filled (replicate len 0) bs)))"

text \<open>The futures run when they are awaited, one after the other.\<close>

fun uring_read_batch :: "ring_read \<Rightarrow> (path \<times> nat \<times> nat) list \<Rightarrow> disk \<Rightarrow> byte list list res" where
  "uring_read_batch rd [] d = Inr []"
| "uring_read_batch rd ((p, offset, len) # rs) d =
     res_bind (uring_read_range rd p offset len d)
       (\<lambda>buf. res_bind (uring_read_batch rd rs d) (\<lambda>bufs. Inr (buf # bufs)))"

text \<open>
  What a read of the crate promises: an error, or some of the bytes at the offset, in order and
  from the first one on. It may be fewer than there is room for, and fewer than the file has.
\<close>

definition ring_reads :: "ring_read \<Rightarrow> bool" where
  "ring_reads rd \<longleftrightarrow> (\<forall>file offset len bs. rd file offset len = Inr bs \<longrightarrow> (\<exists>n \<le> len. bs = take n (drop offset file)))"

lemma ring_reads_length:
  assumes "ring_reads rd" and "rd file offset len = Inr bs"
  shows "length bs \<le> len \<and> length bs \<le> length file - offset"
proof -
  obtain n where "n \<le> len" "bs = take n (drop offset file)" using assms unfolding ring_reads_def by blast
  then show ?thesis by simp
qed

lemma ring_reads_all:
  assumes "ring_reads rd" and "rd file offset len = Inr bs" and "length bs = len"
  shows "take_exact len (drop offset file) = Some (bs, drop len (drop offset file))"
proof -
  obtain n where n: "n \<le> len" "bs = take n (drop offset file)" using assms(1,2) unfolding ring_reads_def by blast
  with assms(3) have "n = len" "len \<le> length (drop offset file)" by auto
  with n(2) show ?thesis by (simp add: take_exact_def)
qed

text \<open>A range that is read to its end, of a file that exists.\<close>

definition range_complete :: "ring_read \<Rightarrow> disk \<Rightarrow> path \<Rightarrow> nat \<Rightarrow> nat \<Rightarrow> bool" where
  "range_complete rd d p offset len \<longleftrightarrow>
     (\<forall>file. file_contents d p = Some file \<longrightarrow> (\<exists>bs. rd file offset len = Inr bs \<and> length bs = len))"

lemma uring_range_complete:
  assumes "ring_reads rd" and "range_complete rd d p offset len"
  shows "uring_read_range rd p offset len d = read_range p offset len Sync d"
proof (cases "file_contents d p")
  case (Some c)
  then obtain bs where "rd c offset len = Inr bs" "length bs = len" using assms(2) by (auto simp: range_complete_def)
  then show ?thesis
    using ring_reads_all [OF assms(1)] Some by (simp add: uring_read_range_def filled_def fs_read_def)
qed (simp add: uring_read_range_def fs_read_def)

lemma uring_batch_complete:
  assumes "ring_reads rd" and "\<forall>(q, offset, len) \<in> set rs. range_complete rd d q offset len"
  shows "uring_read_batch rd rs d = read_batch rs Sync d"
  using assms(2)
proof (induction rs)
  case (Cons r rs)
  obtain q o' n where r: "r = (q, o', n)" by (cases r)
  then have "uring_read_range rd q o' n d = read_range q o' n Sync d"
    using Cons.prems by (intro uring_range_complete [OF assms(1)]) simp
  with Cons show ?case by (simp add: r del: read_range.simps)
qed simp



end
