(* ===== verification/BTreeMap.thy ===== *)
theory BTreeMap
  imports Prelude
begin

text \<open>
  \<open>std::collections::BTreeMap\<close>, as far as the crate uses it: a list of bindings in strictly
  ascending key order, which is the order every iteration visits. \<open>bt_insert\<close> replaces the
  value of a key that is present. The operations a client may rely on, with the map they
  denote, are the locale \<open>ordered_map\<close>; its client lemmas (inserting a whole table) are what
  the memtable, the range queries and the compactions use.
\<close>

type_synonym ('k, 'v) btree_map = "('k \<times> 'v) list"

section \<open>The operations\<close>

fun bt_insert :: "'k :: linorder \<Rightarrow> 'v \<Rightarrow> ('k, 'v) btree_map \<Rightarrow> ('k, 'v) btree_map" where
  "bt_insert k v [] = [(k, v)]"
| "bt_insert k v ((k', v') # m) =
     (if k < k' then (k, v) # (k', v') # m
      else if k = k' then (k, v) # m
      else (k', v') # bt_insert k v m)"

definition bt_get :: "('k, 'v) btree_map \<Rightarrow> 'k \<Rightarrow> 'v option" where
  "bt_get m k = map_of m k"

text \<open>\<open>range(from..=to)\<close> visits the bindings between the bounds, in order.\<close>

definition bt_range :: "'k :: linorder \<Rightarrow> 'k \<Rightarrow> ('k, 'v) btree_map \<Rightarrow> ('k, 'v) btree_map" where
  "bt_range lo hi m = filter (\<lambda>(k, v). lo \<le> k \<and> k \<le> hi) m"

text \<open>\<open>entry(k).or_insert(v)\<close>\<close>

definition bt_or_insert :: "'k :: linorder \<Rightarrow> 'v \<Rightarrow> ('k, 'v) btree_map \<Rightarrow> ('k, 'v) btree_map" where
  "bt_or_insert k v m = (case bt_get m k of None \<Rightarrow> bt_insert k v m | Some _ \<Rightarrow> m)"

definition bt_wf :: "('k :: linorder, 'v) btree_map \<Rightarrow> bool" where
  "bt_wf m \<longleftrightarrow> sorted_wrt (<) (map fst m)"

text \<open>The loop \<open>for (k, v) in es { m.insert(k, v); }\<close>, and its \<open>or_insert\<close> variant.\<close>

definition bt_extend :: "('k :: linorder \<times> 'v) list \<Rightarrow> ('k, 'v) btree_map \<Rightarrow> ('k, 'v) btree_map" where
  "bt_extend es m = fold (\<lambda>(k, v). bt_insert k v) es m"

definition bt_extend_absent ::
    "('k :: linorder \<times> 'v) list \<Rightarrow> ('k, 'v) btree_map \<Rightarrow> ('k, 'v) btree_map" where
  "bt_extend_absent es m = fold (\<lambda>(k, v). bt_or_insert k v) es m"

lemma map_of_rev_distinct:
  assumes "distinct (map fst es)"
  shows "map_of (rev es) = map_of es"
proof
  fix k
  have "map_of (rev es) k = Some v \<longleftrightarrow> map_of es k = Some v" for v
    using assms by (simp add: rev_map [symmetric])
  then show "map_of (rev es) k = map_of es k"
    by (cases "map_of es k"; cases "map_of (rev es) k") auto
qed

section \<open>The interface\<close>

locale ordered_map =
  fixes empty :: "'m"
    and insert :: "'k :: linorder \<Rightarrow> 'v \<Rightarrow> 'm \<Rightarrow> 'm"
    and get :: "'m \<Rightarrow> 'k \<Rightarrow> 'v option"
    and bindings :: "'m \<Rightarrow> ('k \<times> 'v) list"
    and invar :: "'m \<Rightarrow> bool"
  assumes invar_empty: "invar empty"
    and invar_insert: "invar m \<Longrightarrow> invar (insert k v m)"
    and get_empty: "get empty k = None"
    and get_insert: "invar m \<Longrightarrow> get (insert k v m) = (get m)(k \<mapsto> v)"
    and get_bindings: "invar m \<Longrightarrow> map_of (bindings m) = get m"
    and sorted_bindings: "invar m \<Longrightarrow> sorted_wrt (<) (map fst (bindings m))"
begin

lemma invar_fold: "invar m \<Longrightarrow> invar (fold (\<lambda>(k, v). insert k v) es m)"
  by (induction es arbitrary: m) (auto simp: invar_insert)

lemma get_fold:
  "invar m \<Longrightarrow> get (fold (\<lambda>(k, v). insert k v) es m) = get m ++ map_of (rev es)"
proof (induction es arbitrary: m)
  case (Cons e es)
  obtain k v where e: "e = (k, v)" by (cases e)
  have "(get m)(k \<mapsto> v) ++ map_of (rev es) = get m ++ map_of (rev es @ [(k, v)])"
    by (auto simp: fun_eq_iff map_add_def split: option.split)
  with Cons e show ?case by (simp add: invar_insert get_insert del: fun_upd_apply)
qed simp

lemma get_fold_distinct:
  "invar m \<Longrightarrow> distinct (map fst es) \<Longrightarrow>
   get (fold (\<lambda>(k, v). insert k v) es m) = get m ++ map_of es"
  by (simp add: get_fold map_of_rev_distinct)

lemma invar_fold_absent:
  "invar m \<Longrightarrow>
   invar (fold (\<lambda>(k, v) m. case get m k of None \<Rightarrow> insert k v m | Some _ \<Rightarrow> m) es m)"
proof (induction es arbitrary: m)
  case (Cons e es)
  then show ?case by (cases e) (auto simp: invar_insert split: option.split)
qed simp

lemma get_fold_absent:
  "invar m \<Longrightarrow>
   get (fold (\<lambda>(k, v) m. case get m k of None \<Rightarrow> insert k v m | Some _ \<Rightarrow> m) es m)
     = map_of es ++ get m"
proof (induction es arbitrary: m)
  case Nil
  then show ?case by simp
next
  case (Cons e es)
  obtain k v where e: "e = (k, v)" by (cases e)
  show ?case
  proof (cases "get m k")
    case None
    have "map_of es ++ (get m)(k \<mapsto> v) = (map_of es)(k \<mapsto> v) ++ get m"
      using None by (auto simp: map_add_def fun_eq_iff split: option.split)
    with None Cons e show ?thesis
      by (simp add: invar_insert get_insert del: fun_upd_apply map_add_upd)
  next
    case (Some v')
    then have "(map_of es)(k \<mapsto> v) ++ get m = map_of es ++ get m"
      by (auto simp: map_add_def fun_eq_iff split: option.split)
    with Some Cons e show ?thesis by (simp del: fun_upd_apply map_add_upd)
  qed
qed

lemma bindings_determined:
  assumes "invar m" and "invar m'" and "get m = get m'"
  shows "bindings m = bindings m'"
proof -
  let ?b = "bindings m" and ?b' = "bindings m'"
  have maps: "map_of ?b = map_of ?b'"
    using assms by (simp add: get_bindings)
  have s: "sorted (map fst ?b)" "distinct (map fst ?b)"
      "sorted (map fst ?b')" "distinct (map fst ?b')"
    using sorted_bindings [OF assms(1)] sorted_bindings [OF assms(2)]
    by (auto simp: strict_sorted_iff)
  have "(k, v) \<in> set ?b \<longleftrightarrow> (k, v) \<in> set ?b'" for k v
    using s maps by (metis map_of_eq_Some_iff)
  then have sets: "set ?b = set ?b'" by auto
  have "inj_on fst (set ?b \<union> set ?b')"
    using s(2) by (simp add: sets [symmetric] distinct_map)
  with s sets show ?thesis by (blast intro: map_sorted_distinct_set_unique)
qed

end

section \<open>The sorted association list implements it\<close>

lemma bt_get_eq: "bt_get m = map_of m"
  by (simp add: fun_eq_iff bt_get_def)

lemma bt_get_Nil [simp]: "bt_get [] k = None"
  by (simp add: bt_get_def)

lemma fst_bt_insert: "fst ` set (bt_insert k v m) = Set.insert k (fst ` set m)"
  by (induction k v m rule: bt_insert.induct) auto

lemma bt_wf_Nil [simp]: "bt_wf []"
  by (simp add: bt_wf_def)

lemma bt_wf_Cons [simp]: "bt_wf ((k, v) # m) \<longleftrightarrow> (\<forall>x \<in> fst ` set m. k < x) \<and> bt_wf m"
  by (auto simp: bt_wf_def)

lemma bt_wf_insert [simp, intro]: "bt_wf m \<Longrightarrow> bt_wf (bt_insert k v m)"
proof (induction k v m rule: bt_insert.induct)
  case (2 k v k' v' m)
  then show ?case by (auto simp: fst_bt_insert)
qed simp

lemma bt_get_insert [simp]: "bt_wf m \<Longrightarrow> bt_get (bt_insert k v m) = (bt_get m)(k \<mapsto> v)"
proof (induction k v m rule: bt_insert.induct)
  case (2 k v k' v' m)
  then show ?case by (auto simp: bt_get_def fun_eq_iff)
qed (simp add: bt_get_def fun_eq_iff)

lemma bt_wf_distinct: "bt_wf m \<Longrightarrow> distinct (map fst m)"
  by (simp add: bt_wf_def sorted_wrt_less_distinct)

interpretation btree: ordered_map "[]" bt_insert bt_get "\<lambda>m. m" bt_wf
proof unfold_locales
  fix m :: "('a, 'b) btree_map"
  assume "bt_wf m"
  then show "sorted_wrt (<) (map fst m)" by (simp add: bt_wf_def)
qed (simp_all add: bt_get_eq [symmetric] bt_wf_insert bt_get_insert del: fun_upd_apply)

lemma bt_or_insert_fold:
  "(\<lambda>(k, v). bt_or_insert k v) =
   (\<lambda>(k, v) m. case bt_get m k of None \<Rightarrow> bt_insert k v m | Some _ \<Rightarrow> m)"
  by (auto simp: fun_eq_iff bt_or_insert_def)

lemma bt_wf_extend [simp, intro]: "bt_wf m \<Longrightarrow> bt_wf (bt_extend es m)"
  unfolding bt_extend_def by (rule btree.invar_fold)

lemma bt_get_extend: "bt_wf m \<Longrightarrow> bt_get (bt_extend es m) = bt_get m ++ map_of (rev es)"
  unfolding bt_extend_def by (rule btree.get_fold)

lemma bt_get_extend_wf [simp]:
  "bt_wf m \<Longrightarrow> bt_wf es \<Longrightarrow> bt_get (bt_extend es m) = bt_get m ++ bt_get es"
  by (simp add: bt_extend_def btree.get_fold_distinct bt_wf_distinct bt_get_eq [of es])

lemma bt_wf_extend_absent [simp, intro]: "bt_wf m \<Longrightarrow> bt_wf (bt_extend_absent es m)"
  unfolding bt_extend_absent_def bt_or_insert_fold by (rule btree.invar_fold_absent)

lemma bt_get_extend_absent [simp]:
  "bt_wf m \<Longrightarrow> bt_get (bt_extend_absent es m) = bt_get es ++ bt_get m"
  by (simp add: bt_extend_absent_def bt_or_insert_fold btree.get_fold_absent bt_get_eq [of es])

lemma bt_wf_filter [simp, intro]: "bt_wf m \<Longrightarrow> bt_wf (filter P m)"
  by (simp add: bt_wf_def sorted_wrt_filter_key)

lemma bt_wf_range [simp, intro]: "bt_wf m \<Longrightarrow> bt_wf (bt_range lo hi m)"
  by (simp add: bt_range_def)

lemma bt_get_range [simp]:
  "bt_get (bt_range lo hi m) k = (if lo \<le> k \<and> k \<le> hi then bt_get m k else None)"
  by (simp add: bt_get_def bt_range_def map_of_filter_key)

lemma bt_get_filter_value:
  "bt_wf m \<Longrightarrow> bt_get (filter (\<lambda>(k, v). P v) m) k =
     (case bt_get m k of None \<Rightarrow> None | Some v \<Rightarrow> if P v then Some v else None)"
proof (induction m)
  case (Cons e m)
  obtain k' v' where e: "e = (k', v')" by (cases e)
  have no: "k = k' \<Longrightarrow> bt_get (filter (\<lambda>(k, v). P v) m) k = None"
    using Cons.prems e by (force simp: bt_get_def map_of_eq_None_iff)
  show ?case using Cons e no by (auto simp: bt_get_def split: option.split)
qed simp

lemma bt_mem_get: "bt_wf m \<Longrightarrow> (k, v) \<in> set m \<longleftrightarrow> bt_get m k = Some v"
  by (simp add: bt_get_def bt_wf_distinct)

lemma bt_eqI: "bt_wf m \<Longrightarrow> bt_wf m' \<Longrightarrow> (\<And>k. bt_get m k = bt_get m' k) \<Longrightarrow> m = m'"
  using btree.bindings_determined [of m m'] by (simp add: fun_eq_iff)

end
