(* ===== verification/SsTable.thy ===== *)
theory SsTable
  imports Bloom ChecksumHandle IoBackend BTreeMap LsmTypes
begin

text \<open>
  \<open>src/sstable.rs\<close>: the five files of a run, the writer that produces them, the handle that
  reads them, hard links and the reference count that decides when files are deleted.

  The state is a \<open>world\<close>: the disk and the reference counters (\<open>Arc<AtomicUsize>\<close>), each
  identified by a number. \<open>bincode\<close>, which serialises the filter and the index, and
  \<open>crc32fast\<close> are parameters, the fields of \<open>codecs\<close>; what the code relies on is that a value
  that was serialised deserialises to itself (\<open>codecs_ok\<close>).

  \<open>table_ok\<close> is the representation relation between a handle on a disk and the sorted
  entries it stores. Under it, \<open>get\<close> and \<open>range\<close> are lookups in those entries, and a
  successful \<open>finish\<close> establishes it; both are proved in the next theories.
\<close>

section \<open>Files of a run\<close>

record run_paths =
  rp_run_number :: nat
  rp_keyops :: path
  rp_blobs :: path
  rp_filter :: path
  rp_index :: path
  rp_checksums :: path

definition run_file :: "path \<Rightarrow> nat \<Rightarrow> string \<Rightarrow> path" where
  "run_file dir n ext = dir @ [fmt_05 n @ ''.'' @ ext]"

definition run_paths_new :: "path \<Rightarrow> nat \<Rightarrow> run_paths" where
  "run_paths_new active_dir run_number = \<lparr>
     rp_run_number = run_number,
     rp_keyops = run_file active_dir run_number ''keyops'',
     rp_blobs = run_file active_dir run_number ''blobs'',
     rp_filter = run_file active_dir run_number ''filter'',
     rp_index = run_file active_dir run_number ''index'',
     rp_checksums = run_file active_dir run_number ''checksums''\<rparr>"

definition all_exist :: "run_paths \<Rightarrow> disk \<Rightarrow> bool" where
  "all_exist p d \<longleftrightarrow> path_exists d (rp_keyops p) \<and> path_exists d (rp_blobs p)
     \<and> path_exists d (rp_filter p) \<and> path_exists d (rp_index p) \<and> path_exists d (rp_checksums p)"

definition run_files :: "run_paths \<Rightarrow> path list" where
  "run_files p = [rp_keyops p, rp_blobs p, rp_filter p, rp_index p, rp_checksums p]"

section \<open>State, index and codecs\<close>

record sst_index =
  ix_keys :: "byte list list"
  ix_offsets :: "nat list"

record codecs =
  cd_crc :: crc_fun
  cd_ser_bloom :: "bloom \<Rightarrow> string + byte list"
  cd_de_bloom :: "byte list \<Rightarrow> string + bloom"
  cd_ser_index :: "sst_index \<Rightarrow> string + byte list"
  cd_de_index :: "byte list \<Rightarrow> string + sst_index"

definition codecs_ok :: "codecs \<Rightarrow> bool" where
  "codecs_ok x \<longleftrightarrow>
     (\<forall>b bs. cd_ser_bloom x b = Inr bs \<longrightarrow> cd_de_bloom x bs = Inr b)
     \<and> (\<forall>i bs. cd_ser_index x i = Inr bs \<longrightarrow> cd_de_index x bs = Inr i)"

record world =
  w_disk :: disk
  w_refs :: "nat \<Rightarrow> nat"
  w_next_arc :: nat

definition on_disk :: "(disk, 'a) io \<Rightarrow> (world, 'a) io" where
  "on_disk m w = (case m (w_disk w) of (r, d) \<Rightarrow> (r, w\<lparr>w_disk := d\<rparr>))"

text \<open>\<open>Arc::new(AtomicUsize::new(1))\<close>\<close>

definition new_arc :: "(world, nat) io" where
  "new_arc w =
     (Inr (w_next_arc w),
      w\<lparr>w_refs := (w_refs w)(w_next_arc w := 1), w_next_arc := Suc (w_next_arc w)\<rparr>)"

record sst_handle =
  h_paths :: run_paths
  h_min_key :: key
  h_max_key :: key
  h_num_entries :: nat
  h_level :: nat
  h_bloom :: bloom
  h_index :: sst_index
  h_arc :: nat

definition h_run_number :: "sst_handle \<Rightarrow> nat" where
  "h_run_number h = rp_run_number (h_paths h)"

section \<open>The writer\<close>

record sst_writer =
  sw_run_number :: nat
  sw_paths :: run_paths
  sw_keyops :: checksum_handle
  sw_blobs :: checksum_handle
  sw_entries :: "(key \<times> lsm_value option) list"
  sw_blob_offset :: nat

definition sw_new :: "path \<Rightarrow> nat \<Rightarrow> (disk, sst_writer) io" where
  "sw_new active_dir run_number =
     (let paths = run_paths_new active_dir run_number in
      io_bind (ch_create (rp_keyops paths)) (\<lambda>keyops_writer.
      io_bind (ch_create (rp_blobs paths)) (\<lambda>blobs_writer.
      io_return \<lparr>sw_run_number = run_number, sw_paths = paths, sw_keyops = keyops_writer,
                 sw_blobs = blobs_writer, sw_entries = [], sw_blob_offset = 0\<rparr>)))"

definition sw_add :: "key \<times> lsm_value option \<Rightarrow> sst_writer \<Rightarrow> sst_writer" where
  "sw_add e w = w\<lparr>sw_entries := sw_entries w @ [e]\<rparr>"

text \<open>
  The loop over the sorted entries: the two checksum handles, the blob offset, the current
  offset in the keyops file and the offsets collected so far.
\<close>

type_synonym write_state = "checksum_handle \<times> checksum_handle \<times> nat \<times> nat \<times> nat list"

fun sw_write_entries :: "(key \<times> lsm_value option) list \<Rightarrow> write_state \<Rightarrow> (disk, write_state) io" where
  "sw_write_entries [] st = io_return st"
| "sw_write_entries ((key, value_opt) # es) (kw, bw, blob_offset, cur, offsets) =
     (let kb = key_bytes key in
      io_bind (ch_write_all kw (u32_le (length kb))) (\<lambda>kw.
      io_bind (ch_write_all kw kb) (\<lambda>kw.
      case value_opt of
        Some v \<Rightarrow>
          (let vb = value_bytes v; value_len = length vb in
           io_bind (ch_write_all kw [1]) (\<lambda>kw.
           io_bind (ch_write_all kw (u64_le blob_offset)) (\<lambda>kw.
           io_bind (ch_write_all kw (u64_le value_len)) (\<lambda>kw.
           io_bind (ch_write_all bw vb) (\<lambda>bw.
           sw_write_entries es
             (kw, bw, blob_offset + value_len, cur + (4 + length kb + 17), offsets @ [cur]))))))
      | None \<Rightarrow>
          io_bind (ch_write_all kw [0]) (\<lambda>kw.
          sw_write_entries es
            (kw, bw, blob_offset, cur + (4 + length kb + 1), offsets @ [cur])))))"

definition ser_err :: "string + 'a \<Rightarrow> 'a res" where
  "ser_err r = map_err Serialization r"

definition sw_checksums :: "u32 \<Rightarrow> u32 \<Rightarrow> u32 \<Rightarrow> u32 \<Rightarrow> checksums_file" where
  "sw_checksums k b f i =
     AList.update ''index'' i (AList.update ''filter'' f
       (AList.update ''blobs'' b (AList.update ''keyops'' k [])))"

definition sw_finish :: "codecs \<Rightarrow> sst_writer \<Rightarrow> nat \<Rightarrow> (world, sst_handle) io" where
  "sw_finish x self level =
     (if sw_entries self = [] then io_fail (InvalidOperation ''Cannot create empty SSTable'')
      else
        let entries = sort_key fst (sw_entries self);
            min_key = fst (hd entries);
            max_key = fst (last entries);
            num_entries = length entries;
            paths = sw_paths self in
        io_bind (on_disk (sw_write_entries entries
                   (sw_keyops self, sw_blobs self, sw_blob_offset self, 0, [])))
          (\<lambda>(kw, bw, _, _, keyops_offsets).
        io_bind (on_disk (ch_close (cd_crc x) kw)) (\<lambda>keyops_crc.
        io_bind (on_disk (ch_close (cd_crc x) bw)) (\<lambda>blobs_crc.
        io_bind (io_lift (bloom_from_keys (cd_crc x) (map (\<lambda>(k, _). key_bytes k) entries) 10))
          (\<lambda>bloom_filter.
        io_bind (io_lift (ser_err (cd_ser_bloom x bloom_filter))) (\<lambda>filter_bytes.
        io_bind (on_disk (write_file_with_checksum (cd_crc x) (rp_filter paths) filter_bytes))
          (\<lambda>filter_crc.
        let index = \<lparr>ix_keys = map (\<lambda>(k, _). key_bytes k) entries, ix_offsets = keyops_offsets\<rparr> in
        io_bind (io_lift (ser_err (cd_ser_index x index))) (\<lambda>index_bytes.
        io_bind (on_disk (write_file_with_checksum (cd_crc x) (rp_index paths) index_bytes))
          (\<lambda>index_crc.
        io_bind (on_disk (write_checksums_file (rp_checksums paths)
                   (sw_checksums keyops_crc blobs_crc filter_crc index_crc))) (\<lambda>_.
        io_bind (on_disk (fs_sync_path (butlast (rp_keyops paths)))) (\<lambda>_.
        io_bind new_arc (\<lambda>arc.
        io_return \<lparr>h_paths = paths, h_min_key = min_key, h_max_key = max_key,
          h_num_entries = num_entries, h_level = level, h_bloom = bloom_filter,
          h_index = index, h_arc = arc\<rparr>))))))))))))"

section \<open>Opening a run\<close>

definition verify_component ::
    "codecs \<Rightarrow> checksums_file \<Rightarrow> string \<Rightarrow> path \<Rightarrow> disk \<Rightarrow> unit res" where
  "verify_component x checksums name p d =
     res_bind (map_err Corruption (get_checksum checksums name))
       (\<lambda>expected. check_crc (cd_crc x) p expected d)"

definition sst_open :: "codecs \<Rightarrow> path \<Rightarrow> nat \<Rightarrow> (world, sst_handle) io" where
  "sst_open x active_dir n =
     (let paths = run_paths_new active_dir n in
      io_bind (io_get (\<lambda>w. if all_exist paths (w_disk w) then Inr () else Inl (Io NotFound)))
        (\<lambda>_.
      io_bind (io_get (\<lambda>w. read_checksums_file (rp_checksums paths) (w_disk w))) (\<lambda>checksums.
      io_bind (io_get (\<lambda>w. verify_component x checksums ''keyops'' (rp_keyops paths) (w_disk w)))
        (\<lambda>_.
      io_bind (io_get (\<lambda>w. verify_component x checksums ''blobs'' (rp_blobs paths) (w_disk w)))
        (\<lambda>_.
      io_bind (io_get (\<lambda>w. verify_component x checksums ''filter'' (rp_filter paths) (w_disk w)))
        (\<lambda>_.
      io_bind (io_get (\<lambda>w. verify_component x checksums ''index'' (rp_index paths) (w_disk w)))
        (\<lambda>_.
      io_bind (io_get (\<lambda>w. read_file (rp_filter paths) Sync (w_disk w))) (\<lambda>filter_bytes.
      io_bind (io_lift (ser_err (cd_de_bloom x filter_bytes))) (\<lambda>bloom_filter.
      io_bind (io_get (\<lambda>w. read_file (rp_index paths) Sync (w_disk w))) (\<lambda>index_bytes.
      io_bind (io_lift (ser_err (cd_de_index x index_bytes))) (\<lambda>index.
      if ix_keys index = [] then io_fail (Panic ''unwrap on None'')
      else
        io_bind new_arc (\<lambda>arc.
        io_return \<lparr>h_paths = paths, h_min_key = Key (hd (ix_keys index)),
          h_max_key = Key (last (ix_keys index)), h_num_entries = length (ix_keys index),
          h_level = 0, h_bloom = bloom_filter, h_index = index, h_arc = arc\<rparr>))))))))))))"

section \<open>Point lookup\<close>

text \<open>\<open>binary_search_by\<close> on the keys of the index, between \<open>lo\<close> and \<open>hi\<close>.\<close>

function bsearch :: "'a :: linorder list \<Rightarrow> 'a \<Rightarrow> nat \<Rightarrow> nat \<Rightarrow> nat option" where
  "bsearch xs x lo hi =
     (if hi \<le> lo then None
      else
        let mid = (lo + hi) div 2 in
        if xs ! mid = x then Some mid
        else if xs ! mid < x then bsearch xs x (Suc mid) hi
        else bsearch xs x lo mid)"
  by pat_completeness auto
termination
  by (relation "measure (\<lambda>(xs, x, lo, hi). hi - lo)") auto

declare bsearch.simps [simp del]

text \<open>The cursor loop over the keyops file: results so far, and the blob reads still to do.\<close>

type_synonym scan_state = "(key \<times> lsm_value option) list \<times> (nat \<times> nat \<times> nat) list"

definition read_exact :: "nat \<Rightarrow> byte list \<Rightarrow> (byte list \<times> byte list) res" where
  "read_exact n bs = (case take_exact n bs of None \<Rightarrow> Inl (Io UnexpectedEof) | Some r \<Rightarrow> Inr r)"

function scan_keyops :: "key \<Rightarrow> key \<Rightarrow> byte list \<Rightarrow> scan_state \<Rightarrow> scan_state res" where
  "scan_keyops from to data (results, requests) =
     (if data = [] then Inr (results, requests)
      else
        (case take_exact 4 data of
           None \<Rightarrow> Inr (results, requests)
         | Some (len_bytes, data1) \<Rightarrow>
             res_bind (read_exact (le_nat len_bytes) data1) (\<lambda>(kb, data2).
             let key = Key kb in
             if key < from \<or> to < key then
               res_bind (read_exact 1 data2) (\<lambda>(op, data3).
               if op = [1] then
                 res_bind (read_exact 8 data3) (\<lambda>(_, data4).
                 res_bind (read_exact 8 data4) (\<lambda>(_, data5).
                 scan_keyops from to data5 (results, requests)))
               else scan_keyops from to data3 (results, requests))
             else
               res_bind (read_exact 1 data2) (\<lambda>(op, data3).
               if op = [1] then
                 res_bind (read_exact 8 data3) (\<lambda>(ob, data4).
                 res_bind (read_exact 8 data4) (\<lambda>(lb, data5).
                 scan_keyops from to data5
                   (results @ [(key, None)],
                    requests @ [(length results, le_nat ob, le_nat lb)])))
               else scan_keyops from to data3 (results @ [(key, None)], requests)))))"
  by pat_completeness auto

lemma read_exact_length: "read_exact n bs = Inr (xs, ys) \<Longrightarrow> length bs = n + length ys"
  by (auto simp: read_exact_def dest: take_exact_Some_length split: option.splits)

termination scan_keyops
  by (relation "measure (\<lambda>(from, to, data, st). length data)")
    (auto dest!: read_exact_length take_exact_Some_length)

declare scan_keyops.simps [simp del]

text \<open>Filling the values that were read into their places.\<close>

fun fill_values :: "(key \<times> lsm_value option) list \<Rightarrow> (nat \<times> nat \<times> nat) list \<Rightarrow> byte list list
    \<Rightarrow> (key \<times> lsm_value option) list" where
  "fill_values results ((i, _, _) # rs) (v # vs) =
     fill_values (results[i := (fst (results ! i), Some (Value v))]) rs vs"
| "fill_values results _ _ = results"

definition range_with_tombstones ::
    "sst_handle \<Rightarrow> key \<Rightarrow> key \<Rightarrow> io_backend \<Rightarrow> disk \<Rightarrow> (key \<times> lsm_value option) list res" where
  "range_with_tombstones self from to be d =
     res_bind (read_file (rp_keyops (h_paths self)) be d) (\<lambda>keyops_data.
     res_bind (scan_keyops from to keyops_data ([], [])) (\<lambda>(results, blob_requests).
     if blob_requests = [] then Inr results
     else
       res_bind (read_batch (map (\<lambda>(_, offset, len). (rp_blobs (h_paths self), offset, len))
                    blob_requests) be d) (\<lambda>blob_values.
       Inr (fill_values results blob_requests blob_values))))"

definition sst_range ::
    "sst_handle \<Rightarrow> key \<Rightarrow> key \<Rightarrow> io_backend \<Rightarrow> disk \<Rightarrow> (key \<times> lsm_value option) list res" where
  "sst_range self from to be d =
     res_bind (range_with_tombstones self from to be d)
       (\<lambda>all_entries. Inr (filter (\<lambda>(_, v). v \<noteq> None) all_entries))"

definition sst_get_backend ::
    "codecs \<Rightarrow> sst_handle \<Rightarrow> key \<Rightarrow> io_backend \<Rightarrow> disk \<Rightarrow> lsm_value option res" where
  "sst_get_backend x self key be d =
     res_bind (might_contain (cd_crc x) (h_bloom self) (key_bytes key)) (\<lambda>maybe.
     if \<not> maybe then Inr None
     else
       let kb = key_bytes key in
       (case bsearch (ix_keys (h_index self)) kb 0 (length (ix_keys (h_index self))) of
          None \<Rightarrow> Inr None
        | Some pos \<Rightarrow>
            if pos < length (ix_offsets (h_index self)) then
              let keyops_offset = ix_offsets (h_index self) ! pos;
                  prefix_len = 4 + length kb + 1 in
              res_bind (read_range (rp_keyops (h_paths self)) keyops_offset prefix_len be d)
                (\<lambda>prefix.
              let op = prefix ! (prefix_len - 1) in
              if op = 0 then Inr None
              else
                res_bind (read_range (rp_keyops (h_paths self)) (keyops_offset + prefix_len) 16 be d)
                  (\<lambda>meta.
                let blob_offset = le_nat (take 8 meta);
                    value_len = le_nat (drop 8 (take 16 meta)) in
                res_bind (read_range (rp_blobs (h_paths self)) blob_offset value_len be d) (\<lambda>blob.
                Inr (Some (Value blob)))))
            else
              res_bind (range_with_tombstones self key key be d) (\<lambda>range_results.
              Inr (case range_results of [] \<Rightarrow> None | (_, value_opt) # _ \<Rightarrow> value_opt))))"

definition sst_get :: "codecs \<Rightarrow> sst_handle \<Rightarrow> key \<Rightarrow> disk \<Rightarrow> lsm_value option res" where
  "sst_get x self key d = sst_get_backend x self key Sync d"

section \<open>Reference counts, hard links and deletion\<close>

fun delete_paths :: "path list \<Rightarrow> disk \<Rightarrow> bool \<times> disk" where
  "delete_paths [] d = (True, d)"
| "delete_paths (p # ps) d =
     (case fs_remove p d of (r, d1) \<Rightarrow>
        (case delete_paths ps d1 of (ok, d2) \<Rightarrow> (r = Inr () \<and> ok, d2)))"

definition delete_files :: "sst_handle \<Rightarrow> (disk, unit) io" where
  "delete_files h d =
     (case delete_paths (run_files (h_paths h)) d of
        (ok, d') \<Rightarrow> (if ok then Inr () else Inl (Io OtherIo), d'))"

definition clone_handle :: "sst_handle \<Rightarrow> world \<Rightarrow> world" where
  "clone_handle h w = w\<lparr>w_refs := (w_refs w)(h_arc h := w_refs w (h_arc h) + 1)\<rparr>"

definition drop_handle :: "sst_handle \<Rightarrow> world \<Rightarrow> world" where
  "drop_handle h w =
     (let prev = w_refs w (h_arc h);
          w1 = w\<lparr>w_refs := (w_refs w)(h_arc h := prev - 1)\<rparr>
      in if prev = 1 then w1\<lparr>w_disk := snd (delete_files h (w_disk w1))\<rparr> else w1)"

fun link_components :: "run_paths \<Rightarrow> path \<Rightarrow> nat \<Rightarrow> string list \<Rightarrow> (disk, unit) io" where
  "link_components paths target_dir n [] = io_return ()"
| "link_components paths target_dir n (c # cs) =
     (let source =
            (if c = ''keyops'' then rp_keyops paths
             else if c = ''blobs'' then rp_blobs paths
             else if c = ''filter'' then rp_filter paths
             else if c = ''index'' then rp_index paths
             else rp_checksums paths)
      in io_bind (fs_hard_link source (run_file target_dir n c))
           (\<lambda>_. link_components paths target_dir n cs))"

definition components :: "string list" where
  "components = [''keyops'', ''blobs'', ''filter'', ''index'', ''checksums'']"

definition hard_link_to :: "sst_handle \<Rightarrow> path \<Rightarrow> nat \<Rightarrow> (world, sst_handle) io" where
  "hard_link_to self target_dir new_run_number =
     io_bind (on_disk (fs_create_dir_all target_dir)) (\<lambda>_.
     io_bind (on_disk (link_components (h_paths self) target_dir new_run_number components)) (\<lambda>_.
     io_bind (on_disk (fs_sync_path target_dir)) (\<lambda>_.
     io_bind (\<lambda>w. (Inr (), clone_handle self w)) (\<lambda>_.
     io_return (self\<lparr>h_paths := run_paths_new target_dir new_run_number\<rparr>)))))"

end
