(* ===== verification/SsTable_Correct.thy ===== *)
theory SsTable_Correct
  imports SsTable
begin

text \<open>
  Correctness of the run files: what the writer's loop leaves in the keyops and blobs files,
  that scanning them gives the entries back, that the point lookup agrees with the entries,
  and that a run that \<open>finish\<close> returned is represented by the sorted entries given to the
  writer.
\<close>

section \<open>The file format\<close>

definition in_range :: "key \<Rightarrow> key \<Rightarrow> (key \<times> lsm_value option) list \<Rightarrow> (key \<times> lsm_value option) list" where
  "in_range from to es = filter (\<lambda>(k, v). from \<le> k \<and> k \<le> to) es"

definition opt_size :: "lsm_value option \<Rightarrow> nat" where
  "opt_size v = (case v of None \<Rightarrow> 0 | Some w \<Rightarrow> value_size w)"

definition opt_bytes :: "lsm_value option \<Rightarrow> byte list" where
  "opt_bytes v = (case v of None \<Rightarrow> [] | Some w \<Rightarrow> value_bytes w)"

definition enc_op :: "nat \<Rightarrow> lsm_value option \<Rightarrow> byte list" where
  "enc_op off v = (case v of None \<Rightarrow> [0] | Some w \<Rightarrow> [1] @ u64_le off @ u64_le (value_size w))"

definition enc_entry :: "nat \<Rightarrow> key \<Rightarrow> lsm_value option \<Rightarrow> byte list" where
  "enc_entry off k v = u32_le (key_size k) @ key_bytes k @ enc_op off v"

definition entry_len :: "key \<Rightarrow> lsm_value option \<Rightarrow> nat" where
  "entry_len k v = 4 + key_size k + (case v of None \<Rightarrow> 1 | Some w \<Rightarrow> 17)"

fun enc_keyops :: "nat \<Rightarrow> (key \<times> lsm_value option) list \<Rightarrow> byte list" where
  "enc_keyops off [] = []"
| "enc_keyops off ((k, v) # es) = enc_entry off k v @ enc_keyops (off + opt_size v) es"

fun enc_blobs :: "(key \<times> lsm_value option) list \<Rightarrow> byte list" where
  "enc_blobs [] = []"
| "enc_blobs ((k, v) # es) = opt_bytes v @ enc_blobs es"

fun enc_offsets :: "nat \<Rightarrow> (key \<times> lsm_value option) list \<Rightarrow> nat list" where
  "enc_offsets cur [] = []"
| "enc_offsets cur ((k, v) # es) = cur # enc_offsets (cur + entry_len k v) es"

lemma length_opt_bytes [simp]: "length (opt_bytes v) = opt_size v"
  by (simp add: opt_bytes_def opt_size_def value_size_def split: option.split)

lemma length_enc_op: "length (enc_op off v) = (case v of None \<Rightarrow> 1 | Some w \<Rightarrow> 17)"
  by (simp add: enc_op_def split: option.split)

lemma length_enc_entry [simp]: "length (enc_entry off k v) = entry_len k v"
  by (simp add: enc_entry_def length_enc_op key_size_def entry_len_def)

lemma length_enc_keyops:
  "length (enc_keyops off es) = sum_list (map (\<lambda>(k, v). entry_len k v) es)"
  by (induction off es rule: enc_keyops.induct) auto

lemma enc_keyops_append:
  "enc_keyops off (xs @ ys) = enc_keyops off xs @ enc_keyops (off + length (enc_blobs xs)) ys"
  by (induction off xs rule: enc_keyops.induct) (auto simp: add.assoc)

lemma enc_blobs_append: "enc_blobs (xs @ ys) = enc_blobs xs @ enc_blobs ys"
  by (induction xs rule: enc_blobs.induct) auto

lemma length_enc_offsets [simp]: "length (enc_offsets cur es) = length es"
  by (induction cur es rule: enc_offsets.induct) auto

lemma enc_offsets_nth:
  "i < length es \<Longrightarrow> enc_offsets cur es ! i = cur + length (enc_keyops off (take i es))"
proof (induction cur es arbitrary: i off rule: enc_offsets.induct)
  case (2 cur k v es)
  show ?case
  proof (cases i)
    case (Suc j)
    with "2.prems" have "j < length es" by simp
    from "2.IH" [OF this, of "off + opt_size v"] show ?thesis by (simp add: Suc)
  qed simp
qed simp

section \<open>What the writer's loop writes\<close>

text \<open>
  From one pair of handles and disk to the next, the keyops file gained \<open>kb\<close>, the blobs file
  gained \<open>bb\<close>, and nothing else changed.
\<close>

definition grows :: "path \<Rightarrow> path \<Rightarrow> byte list \<Rightarrow> byte list
    \<Rightarrow> checksum_handle \<times> checksum_handle \<times> disk \<Rightarrow> checksum_handle \<times> checksum_handle \<times> disk \<Rightarrow> bool" where
  "grows kp bp kb bb = (\<lambda>(kw, bw, d) (kw', bw', d').
     tracks d' kw' kp \<and> tracks d' bw' bp
     \<and> ch_hashed kw' = ch_hashed kw @ kb \<and> ch_hashed bw' = ch_hashed bw @ bb
     \<and> disk_ok d' \<and> d_dirs d' = d_dirs d
     \<and> (\<forall>p. p \<noteq> kp \<longrightarrow> p \<noteq> bp \<longrightarrow> file_contents d' p = file_contents d p))"

lemma grows_refl:
  "tracks d kw kp \<Longrightarrow> tracks d bw bp \<Longrightarrow> disk_ok d \<Longrightarrow> grows kp bp [] [] (kw, bw, d) (kw, bw, d)"
  by (simp add: grows_def)

lemma grows_trans:
  "grows kp bp kb bb (kw, bw, d) (kw', bw', d') \<Longrightarrow>
   grows kp bp kb' bb' (kw', bw', d') (kw'', bw'', d'') \<Longrightarrow>
   grows kp bp (kb @ kb') (bb @ bb') (kw, bw, d) (kw'', bw'', d'')"
  by (auto simp: grows_def)

lemma grows_keyops:
  assumes "grows kp bp kb bb s (kw, bw, d)" and "kp \<noteq> bp"
  shows "\<exists>kw' d'. ch_write_all kw buf d = (Inr kw', d') \<and> grows kp bp (kb @ buf) bb s (kw', bw, d')"
proof -
  obtain kw0 bw0 d0 where s: "s = (kw0, bw0, d0)" by (cases s)
  from assms have t: "tracks d kw kp" "tracks d bw bp" by (auto simp: grows_def s)
  from ch_write_all_tracks [OF t(1), of buf] ch_write_all_keeps [OF t assms(2), of buf] assms
  show ?thesis by (simp add: ch_write_all_eq grows_def s)
qed

lemma grows_blobs:
  assumes "grows kp bp kb bb s (kw, bw, d)" and "kp \<noteq> bp"
  shows "\<exists>bw' d'. ch_write_all bw buf d = (Inr bw', d') \<and> grows kp bp kb (bb @ buf) s (kw, bw', d')"
proof -
  obtain kw0 bw0 d0 where s: "s = (kw0, bw0, d0)" by (cases s)
  from assms have t: "tracks d kw kp" "tracks d bw bp" by (auto simp: grows_def s)
  from ch_write_all_tracks [OF t(2), of buf] ch_write_all_keeps [OF t(2,1) assms(2) [symmetric], of buf]
    assms
  show ?thesis by (simp add: ch_write_all_eq grows_def s)
qed

lemma write_entry:
  assumes g: "grows kp bp kb bb s (kw, bw, d)" and ne: "kp \<noteq> bp"
  shows "\<exists>kw' bw' d'.
     sw_write_entries ((k, v) # es) (kw, bw, off, cur, offs) d =
       sw_write_entries es
         (kw', bw', off + opt_size v, cur + entry_len k v, offs @ [cur]) d'
     \<and> grows kp bp (kb @ enc_entry off k v) (bb @ opt_bytes v) s (kw', bw', d')"
proof -
  obtain kw1 d1 where 1: "ch_write_all kw (u32_le (length (key_bytes k))) d = (Inr kw1, d1)"
    "grows kp bp (kb @ u32_le (length (key_bytes k))) bb s (kw1, bw, d1)"
    using grows_keyops [OF g ne] by blast
  obtain kw2 d2 where 2: "ch_write_all kw1 (key_bytes k) d1 = (Inr kw2, d2)"
    "grows kp bp ((kb @ u32_le (length (key_bytes k))) @ key_bytes k) bb s (kw2, bw, d2)"
    using grows_keyops [OF 1(2) ne] by blast
  show ?thesis
  proof (cases v)
    case None
    obtain kw3 d3 where 3: "ch_write_all kw2 [0] d2 = (Inr kw3, d3)"
      "grows kp bp (((kb @ u32_le (length (key_bytes k))) @ key_bytes k) @ [0]) bb s (kw3, bw, d3)"
      using grows_keyops [OF 2(2) ne] by blast
    with 1 2 None show ?thesis
      by (intro exI [of _ kw3] exI [of _ bw] exI [of _ d3] conjI)
        (simp_all add: result_simps Let_def enc_entry_def enc_op_def opt_size_def opt_bytes_def
          key_size_def entry_len_def add.assoc)
  next
    case (Some w)
    obtain kw3 d3 where 3: "ch_write_all kw2 [1] d2 = (Inr kw3, d3)"
      "grows kp bp (((kb @ u32_le (length (key_bytes k))) @ key_bytes k) @ [1]) bb s (kw3, bw, d3)"
      using grows_keyops [OF 2(2) ne] by blast
    obtain kw4 d4 where 4: "ch_write_all kw3 (u64_le off) d3 = (Inr kw4, d4)"
      "grows kp bp ((((kb @ u32_le (length (key_bytes k))) @ key_bytes k) @ [1]) @ u64_le off) bb s
         (kw4, bw, d4)"
      using grows_keyops [OF 3(2) ne] by blast
    obtain kw5 d5 where 5: "ch_write_all kw4 (u64_le (length (value_bytes w))) d4 = (Inr kw5, d5)"
      "grows kp bp (((((kb @ u32_le (length (key_bytes k))) @ key_bytes k) @ [1]) @ u64_le off)
         @ u64_le (length (value_bytes w))) bb s (kw5, bw, d5)"
      using grows_keyops [OF 4(2) ne] by blast
    obtain bw6 d6 where 6: "ch_write_all bw (value_bytes w) d5 = (Inr bw6, d6)"
      "grows kp bp (((((kb @ u32_le (length (key_bytes k))) @ key_bytes k) @ [1]) @ u64_le off)
         @ u64_le (length (value_bytes w))) (bb @ value_bytes w) s (kw5, bw6, d6)"
      using grows_blobs [OF 5(2) ne] by blast
    from 1 2 3 4 5 6 Some show ?thesis
      by (intro exI [of _ kw5] exI [of _ bw6] exI [of _ d6] conjI)
        (simp_all add: result_simps Let_def enc_entry_def enc_op_def opt_size_def opt_bytes_def
          key_size_def value_size_def entry_len_def add.assoc)
  qed
qed

lemma write_entries:
  assumes "grows kp bp kb bb s (kw, bw, d)" and "kp \<noteq> bp"
  shows "\<exists>kw' bw' d'.
     sw_write_entries es (kw, bw, off, cur, offs) d =
       (Inr (kw', bw', off + length (enc_blobs es), cur + length (enc_keyops 0 es),
             offs @ enc_offsets cur es), d')
     \<and> grows kp bp (kb @ enc_keyops off es) (bb @ enc_blobs es) s (kw', bw', d')"
  using assms(1)
proof (induction es arbitrary: kb bb kw bw d off cur offs)
  case Nil
  then show ?case by auto
next
  case (Cons e es)
  obtain k v where e: "e = (k, v)" by (cases e)
  from write_entry [OF Cons.prems assms(2), of k v es off cur offs] obtain kw1 bw1 d1 where
    1: "sw_write_entries ((k, v) # es) (kw, bw, off, cur, offs) d =
       sw_write_entries es
         (kw1, bw1, off + opt_size v, cur + entry_len k v, offs @ [cur]) d1"
    "grows kp bp (kb @ enc_entry off k v) (bb @ opt_bytes v) s (kw1, bw1, d1)" by blast
  from Cons.IH [OF 1(2), of "off + opt_size v" "cur + entry_len k v" "offs @ [cur]"] 1(1)
  show ?case
    by (auto simp: e add.assoc length_enc_keyops)
qed

section \<open>Scanning a keyops file\<close>

definition fits :: "(key \<times> lsm_value option) list \<Rightarrow> bool" where
  "fits es \<longleftrightarrow> (\<forall>(k, v) \<in> set es. key_size k < 2 ^ 32) \<and> length (enc_blobs es) < 2 ^ 64"

text \<open>The blob reads that the scan asks for: position in the results, offset, length.\<close>

fun scan_reqs :: "key \<Rightarrow> key \<Rightarrow> nat \<Rightarrow> nat \<Rightarrow> (key \<times> lsm_value option) list \<Rightarrow> (nat \<times> nat \<times> nat) list" where
  "scan_reqs from to n off [] = []"
| "scan_reqs from to n off ((k, v) # es) =
     (if from \<le> k \<and> k \<le> to then
        (case v of None \<Rightarrow> [] | Some w \<Rightarrow> [(n, off, value_size w)])
          @ scan_reqs from to (Suc n) (off + opt_size v) es
      else scan_reqs from to n (off + opt_size v) es)"

lemma in_range_simps [simp]:
  "in_range from to [] = []"
  "in_range from to ((k, v) # es) =
     (if from \<le> k \<and> k \<le> to then (k, v) # in_range from to es else in_range from to es)"
  by (simp_all add: in_range_def)

lemma read_exact_append [simp]: "length xs = n \<Longrightarrow> read_exact n (xs @ ys) = Inr (xs, ys)"
  by (simp add: read_exact_def)

lemma read_exact_one [simp]: "read_exact (Suc 0) (b # ys) = Inr ([b], ys)"
  by (simp add: read_exact_def take_exact_def)

lemma scan_entry:
  assumes "key_size k < 2 ^ 32" and "off < 2 ^ 64" and "opt_size v < 2 ^ 64"
  shows "scan_keyops from to (enc_entry off k v @ rest) (results, requests) =
    (if from \<le> k \<and> k \<le> to then
       scan_keyops from to rest
         (results @ [(k, None)],
          requests @ (case v of None \<Rightarrow> [] | Some w \<Rightarrow> [(length results, off, value_size w)]))
     else scan_keyops from to rest (results, requests))"
proof -
  have len: "le_nat (u32_le (key_size k)) = key_size k"
    using assms(1) by (rule le_nat_u32)
  have key: "length (key_bytes k) = key_size k" by (simp add: key_size_def)
  show ?thesis
  proof (cases v)
    case None
    then show ?thesis
      by (subst scan_keyops.simps)
        (auto simp add: enc_entry_def enc_op_def len key Let_def not_less simp del: le_nat_le_bytes)
  next
    case (Some w)
    have vals: "le_nat (u64_le off) = off" "le_nat (u64_le (value_size w)) = value_size w"
      using assms(2,3) Some by (auto simp: opt_size_def simp del: le_nat_le_bytes intro: le_nat_u64)
    from Some show ?thesis
      by (subst scan_keyops.simps)
        (auto simp add: enc_entry_def enc_op_def len key vals Let_def not_less simp del: le_nat_le_bytes)
  qed
qed

lemma scan_entries:
  assumes "\<forall>(k, v) \<in> set es. key_size k < 2 ^ 32" and "off + length (enc_blobs es) < 2 ^ 64"
  shows "scan_keyops from to (enc_keyops off es) (results, requests) =
    Inr (results @ map (\<lambda>(k, v). (k, None)) (in_range from to es),
         requests @ scan_reqs from to (length results) off es)"
  using assms
proof (induction off es arbitrary: results requests rule: enc_keyops.induct)
  case (1 off)
  then show ?case by (subst scan_keyops.simps) simp
next
  case (2 off k v es)
  have k: "key_size k < 2 ^ 32" and off: "off < 2 ^ 64" and v: "opt_size v < 2 ^ 64"
    using "2.prems" by auto
  have es: "\<forall>(k, v) \<in> set es. key_size k < 2 ^ 32"
    and bound: "off + opt_size v + length (enc_blobs es) < 2 ^ 64"
    using "2.prems" by (auto simp: add.assoc)
  show ?case
    using "2.IH" [OF es bound] by (simp add: scan_entry [OF k off v])
qed

lemma fill_scanned:
  assumes "drop off B = enc_blobs es"
  shows "fill_values (rs @ map (\<lambda>(k, v). (k, None)) (in_range from to es))
      (scan_reqs from to (length rs) off es)
      (map (\<lambda>(i, ofs, l). take l (drop ofs B)) (scan_reqs from to (length rs) off es))
    = rs @ in_range from to es"
  using assms
proof (induction es arbitrary: rs off)
  case (Cons e es)
  obtain k v where e: "e = (k, v)" by (cases e)
  have rest: "drop (off + opt_size v) B = enc_blobs es"
  proof -
    have "drop (opt_size v) (drop off B) = enc_blobs es" using Cons.prems e by simp
    then show ?thesis by (simp add: add.commute)
  qed
  show ?case
  proof (cases "from \<le> k \<and> k \<le> to")
    case False
    then have "\<not> (from \<le> k) \<or> \<not> (k \<le> to)" by blast
    then show ?thesis using Cons.IH [OF rest] e by (elim disjE) simp_all
  next
    case True
    show ?thesis
    proof (cases v)
      case None
      then show ?thesis
        using True Cons.IH [OF rest, of "rs @ [(k, None)]"] e by simp
    next
      case (Some w)
      have "take (value_size w) (drop off B) = value_bytes w"
        using Cons.prems e Some by (simp add: opt_bytes_def value_size_def)
      then show ?thesis
        using True Some Cons.IH [OF rest, of "rs @ [(k, Some w)]"] e
        by (simp add: list_update_append)
    qed
  qed
qed simp

lemma scan_reqs_bound:
  "(i, ofs, l) \<in> set (scan_reqs lo hi n off es) \<Longrightarrow> ofs + l \<le> off + length (enc_blobs es)"
proof (induction lo hi n off es rule: scan_reqs.induct)
  case (2 lo hi n off k v es)
  have bound: "off + opt_size v + length (enc_blobs es) = off + length (enc_blobs ((k, v) # es))"
    by simp
  show ?case
  proof (cases "lo \<le> k \<and> k \<le> hi")
    case True
    then have "(i, ofs, l) \<in> set (case v of None \<Rightarrow> [] | Some w \<Rightarrow> [(n, off, value_size w)])
        \<or> (i, ofs, l) \<in> set (scan_reqs lo hi (Suc n) (off + opt_size v) es)"
      using "2.prems" by auto
    then show ?thesis
      using "2.IH"(1) [OF True] bound by (auto simp: opt_size_def split: option.splits)
  next
    case False
    then have "(i, ofs, l) \<in> set (scan_reqs lo hi n (off + opt_size v) es)"
      using "2.prems" by auto
    then show ?thesis using "2.IH"(2) [OF False] bound by simp
  qed
qed simp

section \<open>Handles and the entries they stand for\<close>

text \<open>
  \<open>table_ok x d h es\<close>: on disk \<open>d\<close> the handle \<open>h\<close> reads the entries \<open>es\<close>, which are in
  strictly ascending key order.
\<close>

definition table_ok :: "codecs \<Rightarrow> disk \<Rightarrow> sst_handle \<Rightarrow> (key \<times> lsm_value option) list \<Rightarrow> bool" where
  "table_ok x d h es \<longleftrightarrow>
     es \<noteq> [] \<and> bt_wf es \<and> fits es
     \<and> file_contents d (rp_keyops (h_paths h)) = Some (enc_keyops 0 es)
     \<and> file_contents d (rp_blobs (h_paths h)) = Some (enc_blobs es)
     \<and> h_index h = \<lparr>ix_keys = map (\<lambda>(k, v). key_bytes k) es, ix_offsets = enc_offsets 0 es\<rparr>
     \<and> bloom_ok (cd_crc x) (map (\<lambda>(k, v). key_bytes k) es) (h_bloom h)
     \<and> h_min_key h = fst (hd es) \<and> h_max_key h = fst (last es) \<and> h_num_entries h = length es"

lemma range_ok:
  assumes "table_ok x d h es"
  shows "range_with_tombstones h from to Sync d = Inr (in_range from to es)"
proof -
  let ?reqs = "scan_reqs from to 0 0 es"
  let ?blobs = "rp_blobs (h_paths h)"
  from assms have files: "fs_read (rp_keyops (h_paths h)) d = Inr (enc_keyops 0 es)"
      "fs_read ?blobs d = Inr (enc_blobs es)"
    and fits: "fits es"
    by (auto simp: table_ok_def fs_read_def)
  have scan: "scan_keyops from to (enc_keyops 0 es) ([], []) =
      Inr (map (\<lambda>(k, v). (k, None)) (in_range from to es), ?reqs)"
    using scan_entries [of es 0 "from" to "[]" "[]"] fits by (simp add: fits_def)
  have "read_range ?blobs ofs l Sync d = Inr (take l (drop ofs (enc_blobs es)))"
    if "(i, ofs, l) \<in> set ?reqs" for i ofs l
    using scan_reqs_bound [OF that] by (simp add: files(2) take_exact_def)
  then have "read_batch (map (\<lambda>(i, ofs, l). (?blobs, ofs, l)) ?reqs) Sync d =
      Inr (map (\<lambda>(p, ofs, l). take l (drop ofs (enc_blobs es)))
             (map (\<lambda>(i, ofs, l). (?blobs, ofs, l)) ?reqs))"
    by (intro read_batch_all) auto
  then have batch: "read_batch (map (\<lambda>(_, ofs, l). (?blobs, ofs, l)) ?reqs) Sync d =
      Inr (map (\<lambda>(i, ofs, l). take l (drop ofs (enc_blobs es))) ?reqs)"
    by (simp add: comp_def case_prod_beta)
  have fill: "fill_values (map (\<lambda>(k, v). (k, None)) (in_range from to es)) ?reqs
      (map (\<lambda>(i, ofs, l). take l (drop ofs (enc_blobs es))) ?reqs) = in_range from to es"
    using fill_scanned [of 0 "enc_blobs es" es "[]" "from" to] by simp
  have none: "in_range from to es = map (\<lambda>(k, v). (k, None)) (in_range from to es)"
    if "?reqs = []"
    using fill that by simp
  show ?thesis
  proof (cases "?reqs = []")
    case True
    then show ?thesis
      using none [OF True] by (simp add: range_with_tombstones_def files scan)
  next
    case False
    then show ?thesis
      using fill by (simp only: range_with_tombstones_def read_file.simps files scan res_bind_Inr
          prod.case batch if_False)
  qed
qed

section \<open>The point lookup\<close>

lemma bsearch_sound: "bsearch xs x lo hi = Some m \<Longrightarrow> lo \<le> m \<and> m < hi \<and> xs ! m = x"
proof (induction xs x lo hi rule: bsearch.induct)
  case (1 xs x lo hi)
  let ?mid = "(lo + hi) div 2"
  have step: "lo < hi" using "1.prems" by (subst (asm) bsearch.simps) (auto split: if_splits)
  then have mid: "lo \<le> ?mid" "?mid < hi" by auto
  consider "xs ! ?mid = x" | "xs ! ?mid < x" | "x < xs ! ?mid" by force
  then show ?case
  proof cases
    case 1
    then show ?thesis
      using "1.prems" step mid by (subst (asm) bsearch.simps) (auto simp: Let_def)
  next
    case 2
    then have "xs ! ?mid \<noteq> x" by simp
    then have "bsearch xs x (Suc ?mid) hi = Some m"
      using 2 "1.prems" step by (subst (asm) bsearch.simps) (auto simp: Let_def)
    with "1.IH"(1) [OF _ refl] 2 step mid show ?thesis by force
  next
    case 3
    then have "xs ! ?mid \<noteq> x" "\<not> xs ! ?mid < x" by auto
    then have "bsearch xs x lo ?mid = Some m"
      using "1.prems" step by (subst (asm) bsearch.simps) (auto simp: Let_def)
    with "1.IH"(2) [OF _ refl] 3 step mid show ?thesis by force
  qed
qed

lemma bsearch_complete:
  "sorted_wrt (<) xs \<Longrightarrow> hi \<le> length xs \<Longrightarrow> lo \<le> i \<Longrightarrow> i < hi \<Longrightarrow> xs ! i = x \<Longrightarrow>
   bsearch xs x lo hi = Some i"
proof (induction xs x lo hi rule: bsearch.induct)
  case (1 xs x lo hi)
  let ?mid = "(lo + hi) div 2"
  have step: "\<not> hi \<le> lo" using "1.prems" by simp
  have mid: "lo \<le> ?mid" "?mid < hi" using step by auto
  have order: "a < b \<Longrightarrow> b < hi \<Longrightarrow> xs ! a < xs ! b" for a b
    using "1.prems"(1,2) by (simp add: sorted_wrt_nth_less)
  consider "i = ?mid" | "?mid < i" | "i < ?mid" by force
  then show ?case
  proof cases
    case 1
    then show ?thesis using "1.prems" step by (subst bsearch.simps) (simp add: Let_def)
  next
    case 2
    then have less: "xs ! ?mid < x" using order [of ?mid i] "1.prems" by simp
    then have "bsearch xs x (Suc ?mid) hi = Some i"
      using "1.IH"(1) [OF step refl] "1.prems" 2 by simp
    moreover have "xs ! ?mid \<noteq> x" using less by simp
    ultimately show ?thesis using step less by (subst bsearch.simps) (simp add: Let_def)
  next
    case 3
    then have less: "x < xs ! ?mid" using order [of i ?mid] "1.prems" mid by simp
    then have "bsearch xs x lo ?mid = Some i"
      using "1.IH"(2) [OF step refl] "1.prems" 3 mid by simp
    moreover have "xs ! ?mid \<noteq> x" "\<not> xs ! ?mid < x" using less by auto
    ultimately show ?thesis using step less by (subst bsearch.simps) (simp add: Let_def)
  qed
qed

text \<open>The keyops file around the entry at position \<open>i\<close>.\<close>

lemma keyops_at:
  assumes "i < length es" and "es ! i = (k, v)"
  shows "enc_keyops 0 es =
      enc_keyops 0 (take i es) @ enc_entry (length (enc_blobs (take i es))) k v
        @ enc_keyops (length (enc_blobs (take i es)) + opt_size v) (drop (Suc i) es)"
    and "enc_blobs es = enc_blobs (take i es) @ opt_bytes v @ enc_blobs (drop (Suc i) es)"
proof -
  have es: "es = take i es @ (k, v) # drop (Suc i) es"
    using assms by (metis id_take_nth_drop)
  show "enc_keyops 0 es =
      enc_keyops 0 (take i es) @ enc_entry (length (enc_blobs (take i es))) k v
        @ enc_keyops (length (enc_blobs (take i es)) + opt_size v) (drop (Suc i) es)"
    by (subst es) (simp add: enc_keyops_append)
  show "enc_blobs es = enc_blobs (take i es) @ opt_bytes v @ enc_blobs (drop (Suc i) es)"
    by (subst es) (simp add: enc_blobs_append)
qed

lemma last_prefix_op:
  "(u32_le n @ kb @ [op]) ! (4 + length kb + 1 - 1) = op"
  by (simp add: nth_append)

text \<open>Reading one entry back through its offset, as the point lookup does.\<close>

lemma sst_get_at:
  assumes t: "table_ok x d h es" and i: "i < length es" "es ! i = (k, v)"
  shows "sst_get x h k d = Inr v"
proof -
  let ?kp = "rp_keyops (h_paths h)" and ?bp = "rp_blobs (h_paths h)"
  let ?pre = "enc_keyops 0 (take i es)" and ?off = "length (enc_blobs (take i es))"
  let ?kb = "key_bytes k" and ?n = "4 + length (key_bytes k) + 1"
  from t have wf: "bt_wf es" and fits: "fits es" and bl: "bloom_ok (cd_crc x) (map (\<lambda>(k, v). key_bytes k) es) (h_bloom h)"
    and files: "file_contents d ?kp = Some (enc_keyops 0 es)" "file_contents d ?bp = Some (enc_blobs es)"
    and ix: "h_index h = \<lparr>ix_keys = map (\<lambda>(k, v). key_bytes k) es, ix_offsets = enc_offsets 0 es\<rparr>"
    by (auto simp: table_ok_def)
  have keys: "map (\<lambda>(k, v). key_bytes k) es = map key_bytes (map fst es)" by auto
  have sorted: "sorted_wrt (<) (map (\<lambda>(k, v). key_bytes k) es)"
    using wf unfolding bt_wf_def keys by (simp add: sorted_wrt_map less_key_def)
  have "key_bytes k \<in> set (map (\<lambda>(k, v). key_bytes k) es)"
    using i nth_mem by force
  then have maybe: "might_contain (cd_crc x) (h_bloom h) ?kb = Inr True"
    using bl unfolding bloom_ok_def by blast
  have pos: "bsearch (map (\<lambda>(k, v). key_bytes k) es) ?kb 0 (length es) = Some i"
    using i by (intro bsearch_complete [OF sorted]) auto
  have off: "enc_offsets 0 es ! i = length ?pre"
    using enc_offsets_nth [OF i(1), of 0 0] by simp
  have size: "key_size k < 2 ^ 32" "?off + opt_size v < 2 ^ 64"
  proof -
    show "key_size k < 2 ^ 32" using fits i nth_mem [OF i(1)] by (auto simp: fits_def)
    have "length (enc_blobs es) < 2 ^ 64" using fits by (simp add: fits_def)
    then show "?off + opt_size v < 2 ^ 64" by (simp add: keyops_at(2) [OF i])
  qed
  note at_i = files [unfolded keyops_at [OF i]]
  show ?thesis
  proof (cases v)
    case None
    have "read_range ?kp (length ?pre) ?n Sync d = Inr (u32_le (key_size k) @ ?kb @ [0])"
      using at_i(1) None
      by (intro read_range_middle [where xs = ?pre and zs = "enc_keyops (?off + opt_size v) (drop (Suc i) es)"])
        (simp_all add: enc_entry_def enc_op_def)
    then show ?thesis
      using None i pos maybe last_prefix_op [of "key_size k" ?kb 0]
      by (simp add: sst_get_def sst_get_backend_def ix Let_def off del: read_range.simps)
  next
    case (Some w)
    let ?rest = "enc_keyops (?off + opt_size v) (drop (Suc i) es)"
    have 1: "read_range ?kp (length ?pre) ?n Sync d = Inr (u32_le (key_size k) @ ?kb @ [1])"
      using at_i(1) Some
      by (intro read_range_middle [where xs = ?pre
            and zs = "u64_le ?off @ u64_le (value_size w) @ ?rest"])
        (simp_all add: enc_entry_def enc_op_def)
    have 2: "read_range ?kp (length ?pre + ?n) 16 Sync d =
        Inr (u64_le ?off @ u64_le (value_size w))"
      using at_i(1) Some
      by (intro read_range_middle [where xs = "?pre @ u32_le (key_size k) @ ?kb @ [1]" and zs = ?rest])
        (simp_all add: enc_entry_def enc_op_def)
    have 3: "read_range ?bp ?off (value_size w) Sync d = Inr (value_bytes w)"
      using at_i(2) Some
      by (intro read_range_middle [where xs = "enc_blobs (take i es)"
            and zs = "enc_blobs (drop (Suc i) es)"])
        (simp_all add: opt_bytes_def value_size_def)
    have 4: "le_nat (u64_le ?off) = ?off" "le_nat (u64_le (value_size w)) = value_size w"
      using size(2) Some by (auto simp: opt_size_def simp del: le_nat_le_bytes intro: le_nat_u64)
    from 1 2 3 4 show ?thesis
      using Some i pos maybe last_prefix_op [of "key_size k" ?kb 1]
      by (simp add: sst_get_def sst_get_backend_def ix Let_def off
          del: read_range.simps le_nat_le_bytes)
  qed
qed

lemma get_ok:
  assumes t: "table_ok x d h es"
  shows "sst_get x h k d = Inr (Option.bind (bt_get es k) id)"
proof (cases "bt_get es k")
  case (Some v)
  then have "(k, v) \<in> set es" by (simp add: bt_get_def map_of_SomeD)
  then obtain i where "i < length es" "es ! i = (k, v)" by (auto simp: in_set_conv_nth)
  from sst_get_at [OF t this] Some show ?thesis by simp
next
  case None
  have ix: "ix_keys (h_index h) = map (\<lambda>(k, v). key_bytes k) es" using t by (simp add: table_ok_def)
  have "k \<notin> fst ` set es" using None by (simp add: bt_get_def map_of_eq_None_iff)
  then have other: "key_bytes k \<noteq> ix_keys (h_index h) ! m" if "m < length es" for m
  proof -
    obtain k' v' where e: "es ! m = (k', v')" by (cases "es ! m")
    then have "k' \<in> fst ` set es" using nth_mem [OF that] by force
    with \<open>k \<notin> fst ` set es\<close> have "k \<noteq> k'" by blast
    then show ?thesis using that e by (auto simp: ix dest: key.expand)
  qed
  have "bsearch (ix_keys (h_index h)) (key_bytes k) 0 (length es) = None"
  proof (cases "bsearch (ix_keys (h_index h)) (key_bytes k) 0 (length es)")
    case (Some m)
    with bsearch_sound [OF this] other [of m] show ?thesis by simp
  qed
  then have "bsearch (ix_keys (h_index h)) (key_bytes k) 0 (length (ix_keys (h_index h))) = None"
    by (simp add: ix)
  moreover obtain r where "might_contain (cd_crc x) (h_bloom h) (key_bytes k) = Inr r"
    using t by (auto simp: table_ok_def bloom_ok_def)
  ultimately show ?thesis using None by (simp add: sst_get_def sst_get_backend_def Let_def)
qed

end
