(* ===== verification/SsTable_Life.thy ===== *)
theory SsTable_Life
  imports SsTable_Correct
begin

text \<open>
  The life of a run on disk: writing it, opening it again, linking it elsewhere. \<open>stored_run\<close>
  says that the five files of a run describe given entries; \<open>finish\<close> establishes it together
  with \<open>table_ok\<close>, \<open>open\<close> turns it back into a handle, and hard links carry it to another
  directory.
\<close>

section \<open>Paths of a run\<close>

lemma fmt_05_no_dot: "CHR ''.'' \<notin> set (fmt_05 n)"
proof
  assume "CHR ''.'' \<in> set (fmt_05 n)"
  then have "CHR ''.'' \<in> set (pad_zero 5 (fmt_radix 10 n))" by (simp add: fmt_05_def)
  from set_pad_zero_fmt [OF _ this] obtain d where "d < 10" and "CHR ''.'' = digit_char d" by auto
  then have "of_char (CHR ''.'') = (48 + d :: nat)" by (simp add: of_char_digit_char)
  then show False by simp
qed

lemma run_file_eq [simp]: "run_file dir n a = run_file dir n b \<longleftrightarrow> a = b"
  by (simp add: run_file_def)

lemma butlast_run_file [simp]: "butlast (run_file dir n e) = dir"
  by (simp add: run_file_def)

lemma with_extension_run_file:
  assumes "CHR ''.'' \<notin> set e"
  shows "with_extension (run_file dir n e) ext = run_file dir n ext"
proof -
  have "dropWhile (\<lambda>c. c \<noteq> CHR ''.'') (rev (fmt_05 n @ ''.'' @ e)) = CHR ''.'' # rev (fmt_05 n)"
    using assms by (auto simp: dropWhile_append)
  moreover have "fmt_05 n \<noteq> []" by (simp add: fmt_05_def pad_zero_def fmt_radix_def)
  ultimately have "file_stem (fmt_05 n @ ''.'' @ e) = fmt_05 n"
    by (simp add: file_stem_def)
  then show ?thesis by (simp add: with_extension_def run_file_def)
qed

lemma run_paths_new_simps [simp]:
  "rp_run_number (run_paths_new dir n) = n"
  "rp_keyops (run_paths_new dir n) = run_file dir n ''keyops''"
  "rp_blobs (run_paths_new dir n) = run_file dir n ''blobs''"
  "rp_filter (run_paths_new dir n) = run_file dir n ''filter''"
  "rp_index (run_paths_new dir n) = run_file dir n ''index''"
  "rp_checksums (run_paths_new dir n) = run_file dir n ''checksums''"
  by (simp_all add: run_paths_new_def)

definition run_exts :: "string list" where
  "run_exts = [''keyops'', ''blobs'', ''filter'', ''index'', ''checksums'', ''checksum.tmp'']"

definition run_fresh :: "disk \<Rightarrow> path \<Rightarrow> nat \<Rightarrow> bool" where
  "run_fresh d dir n \<longleftrightarrow>
     dir \<in> set (d_dirs d) \<and> (\<forall>e \<in> set run_exts. \<not> path_exists d (run_file dir n e))"

section \<open>Calls that succeed\<close>

lemma ch_create_total:
  assumes "disk_ok d" and "\<not> path_exists d p" and "butlast p \<in> set (d_dirs d)"
  obtains h d' where "ch_create p d = (Inr h, d')"
  using assms by (simp add: ch_create_def io_bind_def fs_create_new_def fs_fresh_def)

lemma write_file_total:
  assumes "disk_ok d" and "\<not> path_exists d p" and "butlast p \<in> set (d_dirs d)"
  obtains d' where "write_file_with_checksum crc p data d = (Inr (crc data), d')"
    and "disk_ok d'" and "file_contents d' = (file_contents d)(p \<mapsto> data)"
    and "d_dirs d' = d_dirs d"
proof -
  from assms obtain h d1 where "ch_create p d = (Inr h, d1)" by (rule ch_create_total)
  then obtain c d' where w: "write_file_with_checksum crc p data d = (Inr c, d')"
    by (simp add: write_file_with_checksum_def io_bind_def ch_write_all_eq ch_close_eq)
  from write_file_with_checksum_Inr [OF assms(1) w] w show thesis
    by (intro that [of d']) simp_all
qed

lemma write_checksums_total:
  assumes ok: "disk_ok d" and p: "p \<noteq> []" "butlast p \<in> set (d_dirs d)" "\<not> path_exists d p"
    and tmp: "\<not> path_exists d (with_extension p ''checksum.tmp'')"
      "with_extension p ''checksum.tmp'' \<noteq> p"
  obtains d' where "write_checksums_file p m d = (Inr (), d')" and "disk_ok d'"
    and "file_contents d' = (file_contents d)(p \<mapsto> string_bytes (format_checksums_file m))"
    and "d_dirs d' = d_dirs d"
proof -
  let ?t = "with_extension p ''checksum.tmp''" and ?bs = "string_bytes (format_checksums_file m)"
  have "butlast ?t \<in> set (d_dirs d)" using p by (simp add: with_extension_def)
  with tmp obtain i d1 where c: "fs_create_new ?t d = (Inr i, d1)"
    by (simp add: fs_create_new_def fs_fresh_def)
  define d2 where "d2 = snd (fs_append i ?bs d1)"
  have ok2: "disk_ok d2" using disk_ok_create_new [OF ok c] by (simp add: d2_def)
  have v2: "file_contents d2 = (file_contents d)(?t \<mapsto> ?bs)"
    using disk_store.write_fresh [OF ok c, of "[?bs]"] by (simp add: d2_def)
  have dirs: "d_dirs d2 = d_dirs d" "d_dirs d1 = d_dirs d" using c by (auto simp: d2_def fs_create_new_Inr)
  have new: "\<not> path_exists d2 p" using p(3) tmp(2) by (simp add: path_exists_contents v2 dirs)
  have src: "file_contents d2 ?t = Some ?bs" by (simp add: v2)
  obtain d3 where r: "fs_rename ?t p d2 = (Inr (), d3)" "disk_ok d3"
      "file_contents d3 = (file_contents d2)(?t := None, p \<mapsto> ?bs)" "d_dirs d3 = d_dirs d2"
    using p(2) by (auto simp: dirs intro: rename_fresh [OF ok2 src new])
  have "file_contents d ?t = None" using tmp(1) by (simp add: path_exists_contents)
  then have v3: "file_contents d3 = (file_contents d)(p \<mapsto> ?bs)"
    using tmp(2) by (simp add: r(3) v2 fun_eq_iff)
  have create: "fs_create ?t d = (Inr i, d1)" by (simp add: fs_create_fresh [OF tmp(1)] c)
  have append: "fs_append i ?bs d1 = (Inr (), d2)" by (simp add: d2_def fs_append_def)
  have sync: "fs_sync_path (butlast p) d3 = (Inr (), d3)"
    using p(2) r(4) dirs by (simp add: fs_sync_path_def path_exists_def)
  have "write_checksums_file p m d = (Inr (), d3)"
    using create append r(1) sync by (simp add: write_checksums_file_def Let_def io_bind_def fs_sync_def)
  with r v3 dirs show thesis by (intro that [of d3]) simp_all
qed

section \<open>Writing a run\<close>

text \<open>What \<open>SsTableWriter::new\<close> leaves behind, entries added or not.\<close>

definition writer_at :: "disk \<Rightarrow> path \<Rightarrow> nat \<Rightarrow> disk \<Rightarrow> sst_writer \<Rightarrow> bool" where
  "writer_at d0 dir n d sw \<longleftrightarrow>
     disk_ok d \<and> d_dirs d = d_dirs d0
     \<and> file_contents d =
         (file_contents d0)(run_file dir n ''keyops'' \<mapsto> [], run_file dir n ''blobs'' \<mapsto> [])
     \<and> sw_paths sw = run_paths_new dir n \<and> sw_blob_offset sw = 0
     \<and> tracks d (sw_keyops sw) (run_file dir n ''keyops'')
     \<and> tracks d (sw_blobs sw) (run_file dir n ''blobs'')"

lemma sw_new_total:
  assumes ok: "disk_ok d0" and fresh: "run_fresh d0 dir n"
  obtains sw d where "sw_new dir n d0 = (Inr sw, d)" and "writer_at d0 dir n d sw"
    and "sw_entries sw = []"
proof -
  let ?k = "run_file dir n ''keyops''" and ?b = "run_file dir n ''blobs''"
  have new: "\<not> path_exists d0 ?k" "\<not> path_exists d0 ?b" "dir \<in> set (d_dirs d0)"
    using fresh by (auto simp: run_fresh_def run_exts_def)
  obtain kw d1 where k: "ch_create ?k d0 = (Inr kw, d1)"
    using ch_create_total [OF ok new(1)] new(3) by auto
  note k' = ch_create_tracks [OF ok k]
  have new1: "\<not> path_exists d1 ?b" using new(2) by (simp add: path_exists_contents k')
  obtain bw d2 where b: "ch_create ?b d1 = (Inr bw, d2)"
    using ch_create_total [OF k'(1) new1] new(3) k'(6) by auto
  note b' = ch_create_tracks [OF k'(1) b]
  let ?sw = "\<lparr>sw_run_number = n, sw_paths = run_paths_new dir n, sw_keyops = kw,
                 sw_blobs = bw, sw_entries = [], sw_blob_offset = 0\<rparr>"
  have "sw_new dir n d0 = (Inr ?sw, d2)"
    using k b by (simp add: sw_new_def Let_def io_bind_def)
  moreover have "writer_at d0 dir n d2 ?sw"
    using b' k' ch_create_keeps [OF k'(1) b k'(2)] by (simp add: writer_at_def)
  ultimately show thesis by (rule that) simp
qed

lemma sw_add_writer [simp]:
  "writer_at d0 dir n d (sw_add e sw) = writer_at d0 dir n d sw"
  "sw_entries (sw_add e sw) = sw_entries sw @ [e]"
  by (simp_all add: sw_add_def writer_at_def)

lemma sw_adds_writer [simp]:
  "writer_at d0 dir n d (fold sw_add es sw) = writer_at d0 dir n d sw"
  "sw_entries (fold sw_add es sw) = sw_entries sw @ es"
  by (induction es arbitrary: sw) auto

definition table_index :: "(key \<times> lsm_value option) list \<Rightarrow> sst_index" where
  "table_index es = \<lparr>ix_keys = map (\<lambda>(k, _). key_bytes k) es, ix_offsets = enc_offsets 0 es\<rparr>"

text \<open>The serialisers do not fail on the values the writer gives them.\<close>

definition codecs_total :: "codecs \<Rightarrow> bool" where
  "codecs_total x \<longleftrightarrow>
     (\<forall>b. \<exists>bs. cd_ser_bloom x b = Inr bs) \<and> (\<forall>i. \<exists>bs. cd_ser_index x i = Inr bs)"

text \<open>
  The five files of a run, from what each path reads as: the encoded entries, the serialised
  filter and index, and the checksums of these four.
\<close>

definition stored_run ::
    "codecs \<Rightarrow> (path \<rightharpoonup> byte list) \<Rightarrow> run_paths \<Rightarrow> (key \<times> lsm_value option) list \<Rightarrow> bool" where
  "stored_run x view p es \<longleftrightarrow>
     es \<noteq> [] \<and> bt_wf es \<and> fits es
     \<and> view (rp_keyops p) = Some (enc_keyops 0 es) \<and> view (rp_blobs p) = Some (enc_blobs es)
     \<and> (\<exists>b fb ib. bloom_ok (cd_crc x) (map (\<lambda>(k, _). key_bytes k) es) b
          \<and> cd_ser_bloom x b = Inr fb \<and> cd_ser_index x (table_index es) = Inr ib
          \<and> view (rp_filter p) = Some fb \<and> view (rp_index p) = Some ib
          \<and> view (rp_checksums p) = Some (string_bytes (format_checksums_file
               (sw_checksums (cd_crc x (enc_keyops 0 es)) (cd_crc x (enc_blobs es))
                  (cd_crc x fb) (cd_crc x ib)))))"

lemma bt_wf_sort_key: "distinct (map fst es) \<Longrightarrow> bt_wf (sort_key fst es)"
  by (simp add: bt_wf_def strict_sorted_iff)

lemma sort_key_wf: "bt_wf es \<Longrightarrow> sort_key fst es = es"
  by (intro bt_eqI) (simp_all add: bt_wf_sort_key bt_wf_distinct bt_get_eq map_of_sort_key)

text \<open>The loop over the entries, started from a fresh writer.\<close>

lemma writer_entries:
  assumes "writer_at d0 dir n d sw"
  obtains kw bw d' where
    "sw_write_entries es (sw_keyops sw, sw_blobs sw, sw_blob_offset sw, 0, []) d =
       (Inr (kw, bw, length (enc_blobs es), length (enc_keyops 0 es), enc_offsets 0 es), d')"
    and "ch_hashed kw = enc_keyops 0 es" and "ch_hashed bw = enc_blobs es"
    and "disk_ok d'" and "d_dirs d' = d_dirs d0"
    and "file_contents d' = (file_contents d0)
           (run_file dir n ''keyops'' \<mapsto> enc_keyops 0 es, run_file dir n ''blobs'' \<mapsto> enc_blobs es)"
proof -
  let ?k = "run_file dir n ''keyops''" and ?b = "run_file dir n ''blobs''"
  let ?s = "(sw_keyops sw, sw_blobs sw, d)"
  from assms have w: "grows ?k ?b [] [] ?s ?s" and off: "sw_blob_offset sw = 0"
    and h: "ch_hashed (sw_keyops sw) = []" "ch_hashed (sw_blobs sw) = []"
    by (auto simp: writer_at_def tracks_def intro!: grows_refl)
  have "?k \<noteq> ?b" by simp
  from write_entries [OF w this, of es 0 0 "[]"] obtain kw bw d' where
    r: "sw_write_entries es (sw_keyops sw, sw_blobs sw, 0, 0, []) d =
       (Inr (kw, bw, length (enc_blobs es), length (enc_keyops 0 es), enc_offsets 0 es), d')"
    and g: "grows ?k ?b (enc_keyops 0 es) (enc_blobs es) ?s (kw, bw, d')"
    by auto
  from g h have t: "tracks d' kw ?k" "tracks d' bw ?b" "ch_hashed kw = enc_keyops 0 es"
      "ch_hashed bw = enc_blobs es" "disk_ok d'" "d_dirs d' = d_dirs d"
    and frame: "\<And>p. p \<noteq> ?k \<Longrightarrow> p \<noteq> ?b \<Longrightarrow> file_contents d' p = file_contents d p"
    by (auto simp: grows_def)
  have "file_contents d' = (file_contents d0)(?k \<mapsto> enc_keyops 0 es, ?b \<mapsto> enc_blobs es)"
    using t frame assms by (auto simp: fun_eq_iff tracks_def writer_at_def)
  with r t off assms show thesis by (intro that [of kw bw d']) (simp_all add: writer_at_def)
qed

lemma on_disk_Inr [result_simps]:
  "m (w_disk w) = (r, d) \<Longrightarrow> on_disk m w = (r, w\<lparr>w_disk := d\<rparr>)"
  by (simp add: on_disk_def)

text \<open>The world after a run was written: what changed, and what did not.\<close>

definition run_written ::
    "codecs \<Rightarrow> disk \<Rightarrow> world \<Rightarrow> path \<Rightarrow> nat \<Rightarrow> (key \<times> lsm_value option) list \<Rightarrow> nat \<Rightarrow> sst_handle \<Rightarrow> world \<Rightarrow> bool"
  where
  "run_written x d0 w dir n es level h w' \<longleftrightarrow>
     table_ok x (w_disk w') h es
     \<and> stored_run x (file_contents (w_disk w')) (run_paths_new dir n) es
     \<and> h_paths h = run_paths_new dir n \<and> h_level h = level
     \<and> h_arc h = w_next_arc w \<and> w_refs w' = (w_refs w)(w_next_arc w := 1)
     \<and> w_next_arc w' = Suc (w_next_arc w)
     \<and> disk_ok (w_disk w') \<and> d_dirs (w_disk w') = d_dirs d0
     \<and> (\<forall>p. p \<notin> set (run_files (run_paths_new dir n)) \<longrightarrow>
            file_contents (w_disk w') p = file_contents d0 p)"

lemma sw_finish_total:
  assumes fresh: "run_fresh d0 dir n" and wr: "writer_at d0 dir n (w_disk w) sw"
    and es: "sw_entries sw = es" "es \<noteq> []" "distinct (map fst es)"
    and fits: "fits (sort_key fst es)" and total: "codecs_total x"
  obtains h w' where "sw_finish x sw level w = (Inr h, w')"
    and "run_written x d0 w dir n (sort_key fst es) level h w'"
proof -
  let ?s = "sort_key fst es" and ?crc = "cd_crc x"
  let ?f = "\<lambda>e. run_file dir n e"
  have new: "\<not> path_exists d0 (?f e)" if "e \<in> set run_exts" for e
    using fresh that by (simp add: run_fresh_def)
  have dir: "dir \<in> set (d_dirs d0)" using fresh by (simp add: run_fresh_def)
  from writer_entries [OF wr, of ?s] obtain kw bw d1 where
    1: "sw_write_entries ?s (sw_keyops sw, sw_blobs sw, sw_blob_offset sw, 0, []) (w_disk w) =
       (Inr (kw, bw, length (enc_blobs ?s), length (enc_keyops 0 ?s), enc_offsets 0 ?s), d1)"
      "ch_hashed kw = enc_keyops 0 ?s" "ch_hashed bw = enc_blobs ?s" "disk_ok d1" "d_dirs d1 = d_dirs d0"
      "file_contents d1 = (file_contents d0)
           (?f ''keyops'' \<mapsto> enc_keyops 0 ?s, ?f ''blobs'' \<mapsto> enc_blobs ?s)" .
  obtain b where b: "bloom_from_keys ?crc (map (\<lambda>(k, _). key_bytes k) ?s) 10 = Inr b"
    using bloom_from_keys_total [of 10] by auto
  have "map (\<lambda>(k, _). key_bytes k) ?s \<noteq> []" using es by (metis Nil_is_map_conv length_0_conv length_sort)
  then have bok: "bloom_ok ?crc (map (\<lambda>(k, _). key_bytes k) ?s) b"
    by (rule bloom_ok_from_keys [OF _ _ b]) simp
  obtain fb ib where fb: "cd_ser_bloom x b = Inr fb" and ib: "cd_ser_index x (table_index ?s) = Inr ib"
    using total by (meson codecs_total_def)
  have new1: "\<not> path_exists d1 (?f ''filter'')"
    using new by (simp add: path_exists_contents 1 run_exts_def)
  obtain d2 where
    2: "write_file_with_checksum ?crc (?f ''filter'') fb d1 = (Inr (?crc fb), d2)" "disk_ok d2"
      "file_contents d2 = (file_contents d1)(?f ''filter'' \<mapsto> fb)" "d_dirs d2 = d_dirs d1"
    using write_file_total [OF 1(4) new1] dir 1(5) by auto
  have new2: "\<not> path_exists d2 (?f ''index'')"
    using new by (simp add: path_exists_contents 1 2 run_exts_def)
  obtain d3 where
    3: "write_file_with_checksum ?crc (?f ''index'') ib d2 = (Inr (?crc ib), d3)" "disk_ok d3"
      "file_contents d3 = (file_contents d2)(?f ''index'' \<mapsto> ib)" "d_dirs d3 = d_dirs d2"
    using write_file_total [OF 2(2) new2] dir 1(5) 2(4) by auto
  let ?cs = "sw_checksums (?crc (enc_keyops 0 ?s)) (?crc (enc_blobs ?s)) (?crc fb) (?crc ib)"
  have new3: "\<not> path_exists d3 (?f ''checksums'')" "\<not> path_exists d3 (?f ''checksum.tmp'')"
    using new by (simp_all add: path_exists_contents 1 2 3 run_exts_def)
  have tmp: "with_extension (?f ''checksums'') ''checksum.tmp'' = ?f ''checksum.tmp''"
    by (simp add: with_extension_run_file)
  have nonempty: "?f ''checksums'' \<noteq> []" by (simp add: run_file_def)
  obtain d4 where
    4: "write_checksums_file (?f ''checksums'') ?cs d3 = (Inr (), d4)" "disk_ok d4"
      "file_contents d4 = (file_contents d3)
         (?f ''checksums'' \<mapsto> string_bytes (format_checksums_file ?cs))" "d_dirs d4 = d_dirs d3"
    using write_checksums_total [OF 3(2) nonempty _ new3(1), of ?cs] new3(2) dir 1(5) 2(4) 3(4)
    by (auto simp: tmp)
  have dirs: "d_dirs d4 = d_dirs d0" using 1(5) 2(4) 3(4) 4(4) by simp
  have 5: "fs_sync_path dir d4 = (Inr (), d4)"
    using dir dirs by (simp add: fs_sync_path_def path_exists_def)
  let ?h = "\<lparr>h_paths = run_paths_new dir n, h_min_key = fst (hd ?s), h_max_key = fst (last ?s),
          h_num_entries = length ?s, h_level = level, h_bloom = b,
          h_index = table_index ?s, h_arc = w_next_arc w\<rparr>"
  let ?w = "\<lparr>w_disk = d4, w_refs = (w_refs w)(w_next_arc w := 1), w_next_arc = Suc (w_next_arc w)\<rparr>"
  have paths: "sw_paths sw = run_paths_new dir n" using wr by (simp add: writer_at_def)
  have run: "sw_finish x sw level w = (Inr ?h, ?w)"
    using es 1(1-3) b fb ib 2(1) 3(1) 4(1) 5 paths
    by (simp add: sw_finish_def Let_def result_simps ch_close_eq table_index_def ser_err_def new_arc_def)
  have wf: "bt_wf ?s" "?s \<noteq> []"
    using es by (simp_all add: bt_wf_sort_key) (metis length_0_conv length_sort)
  have contents: "file_contents d4 = (file_contents d0)
       (?f ''keyops'' \<mapsto> enc_keyops 0 ?s, ?f ''blobs'' \<mapsto> enc_blobs ?s, ?f ''filter'' \<mapsto> fb,
        ?f ''index'' \<mapsto> ib, ?f ''checksums'' \<mapsto> string_bytes (format_checksums_file ?cs))"
    by (simp add: 1 2 3 4)
  have "stored_run x (file_contents d4) (run_paths_new dir n) ?s"
    using wf fits bok fb ib by (auto simp: stored_run_def contents)
  moreover have "table_ok x d4 ?h ?s"
    using wf fits bok by (simp add: table_ok_def contents table_index_def)
  moreover have "file_contents d4 p = file_contents d0 p"
    if "p \<notin> set (run_files (run_paths_new dir n))" for p
    using that by (simp add: contents run_files_def)
  ultimately have "run_written x d0 w dir n ?s level ?h ?w"
    using 4(2) dirs by (simp add: run_written_def)
  with run show thesis by (rule that)
qed

section \<open>Opening a run\<close>

lemma stored_run_view:
  assumes "stored_run x view p es" and "\<And>q. q \<in> set (run_files p) \<Longrightarrow> view' q = view q"
  shows "stored_run x view' p es"
  using assms by (simp add: stored_run_def run_files_def)

lemma table_ok_view:
  assumes "table_ok x d h es" and "\<And>q. q \<in> set (run_files (h_paths h)) \<Longrightarrow> file_contents d' q = file_contents d q"
  shows "table_ok x d' h es"
  using assms by (simp add: table_ok_def run_files_def)

lemma sw_checksums_props:
  "distinct (map fst (sw_checksums a b c e))"
  "\<forall>(name, v) \<in> set (sw_checksums a b c e). checksum_name_ok name \<and> is_ascii name"
  "map_of (sw_checksums a b c e) =
     [''keyops'' \<mapsto> a, ''blobs'' \<mapsto> b, ''filter'' \<mapsto> c, ''index'' \<mapsto> e]"
  by (simp_all add: sw_checksums_def checksum_name_ok_def is_ascii_def newline_def fun_eq_iff)

lemma verify_component_iff:
  "verify_component x cs name p d = Inr () \<longleftrightarrow>
     (\<exists>bs. file_contents d p = Some bs \<and> map_of cs name = Some (cd_crc x bs))"
  by (auto simp: verify_component_def get_checksum_def result_simps check_crc_iff split: option.splits)

lemma sst_open_total:
  assumes codecs: "codecs_ok x"
    and st: "stored_run x (file_contents (w_disk w)) (run_paths_new dir n) es"
  obtains h where "sst_open x dir n w = (Inr h, snd (new_arc w))"
    and "table_ok x (w_disk w) h es" and "h_paths h = run_paths_new dir n"
    and "h_level h = 0" and "h_arc h = w_next_arc w"
proof -
  let ?p = "run_paths_new dir n" and ?d = "w_disk w"
  obtain b fb ib where es: "es \<noteq> []" "bt_wf es" "fits es"
    and files: "file_contents ?d (rp_keyops ?p) = Some (enc_keyops 0 es)"
      "file_contents ?d (rp_blobs ?p) = Some (enc_blobs es)"
      "file_contents ?d (rp_filter ?p) = Some fb" "file_contents ?d (rp_index ?p) = Some ib"
      "file_contents ?d (rp_checksums ?p) = Some (string_bytes (format_checksums_file
         (sw_checksums (cd_crc x (enc_keyops 0 es)) (cd_crc x (enc_blobs es))
            (cd_crc x fb) (cd_crc x ib))))"
    and b: "bloom_ok (cd_crc x) (map (\<lambda>(k, _). key_bytes k) es) b"
      "cd_ser_bloom x b = Inr fb" "cd_ser_index x (table_index es) = Inr ib"
    using st unfolding stored_run_def by blast
  from read_formatted [OF files(5) sw_checksums_props(1,2)] obtain cs where
    cs: "read_checksums_file (rp_checksums ?p) ?d = Inr cs"
      "map_of cs = [''keyops'' \<mapsto> cd_crc x (enc_keyops 0 es), ''blobs'' \<mapsto> cd_crc x (enc_blobs es),
         ''filter'' \<mapsto> cd_crc x fb, ''index'' \<mapsto> cd_crc x ib]"
    unfolding sw_checksums_props(3) by blast
  have exist: "all_exist ?p ?d" using files by (simp add: all_exist_def path_exists_contents)
  have verify: "verify_component x cs ''keyops'' (rp_keyops ?p) ?d = Inr ()"
      "verify_component x cs ''blobs'' (rp_blobs ?p) ?d = Inr ()"
      "verify_component x cs ''filter'' (rp_filter ?p) ?d = Inr ()"
      "verify_component x cs ''index'' (rp_index ?p) ?d = Inr ()"
    by (simp_all only: verify_component_iff files cs(2)) simp_all
  have de: "cd_de_bloom x fb = Inr b" "cd_de_index x ib = Inr (table_index es)"
    using codecs b by (auto simp: codecs_ok_def)
  have ne: "ix_keys (table_index es) \<noteq> []" using es by (simp add: table_index_def)
  let ?h = "\<lparr>h_paths = ?p, h_min_key = Key (hd (ix_keys (table_index es))),
          h_max_key = Key (last (ix_keys (table_index es))),
          h_num_entries = length (ix_keys (table_index es)),
          h_level = 0, h_bloom = b, h_index = table_index es, h_arc = w_next_arc w\<rparr>"
  have run: "sst_open x dir n w = (Inr ?h, snd (new_arc w))"
    using exist cs(1) verify files(3,4) de ne
    by (simp add: sst_open_def Let_def result_simps fs_read_def ser_err_def new_arc_def
        del: run_paths_new_simps)
  have "Key (hd (ix_keys (table_index es))) = fst (hd es)" "Key (last (ix_keys (table_index es))) = fst (last es)"
    using es(1) by (simp_all add: table_index_def hd_map last_map split: prod.split)
  then have "table_ok x ?d ?h es"
    using es files b(1) by (simp add: table_ok_def table_index_def)
  with run show thesis by (rule that) simp_all
qed

text \<open>
  Whatever the disk holds: a run that opens passed its checks, that is, its four components
  have the checksums its checksums file states.
\<close>

lemma sst_open_verified:
  assumes "sst_open x dir n w = (Inr h, w')"
  shows "\<exists>cs. read_checksums_file (run_file dir n ''checksums'') (w_disk w) = Inr cs
    \<and> (\<forall>name \<in> {''keyops'', ''blobs'', ''filter'', ''index''}. \<exists>bs.
          file_contents (w_disk w) (run_file dir n name) = Some bs
          \<and> map_of cs name = Some (cd_crc x bs))"
  using assms
  by (auto simp: sst_open_def Let_def io_bind_eq_Inr verify_component_iff split: if_splits)

end
