(* ===== verification/Ownership.thy ===== *)
theory Ownership
  imports SsTable_Life
begin

text \<open>
  Who owns the files of a run. Every handle shares a counter with its clones, and the last one
  to be dropped deletes the five files it names. \<open>owned\<close> says that each counter is the number
  of live handles that share it and that handles with different counters name different files;
  cloning, dropping and creating handles keep it, and under it no drop ever takes a file away
  from a handle that is still alive.
\<close>

section \<open>Deleting files\<close>

lemma delete_paths_contents:
  "file_contents (snd (delete_paths ps d)) =
     (\<lambda>p. if p \<in> set ps then None else file_contents d p)"
proof (induction ps arbitrary: d)
  case (Cons p ps)
  obtain r d1 where r: "fs_remove p d = (r, d1)" by (cases "fs_remove p d")
  from Cons [of d1] contents_remove [OF r] r show ?case
    by (auto simp: fun_eq_iff split: prod.splits)
qed simp

lemma delete_paths_ok:
  assumes "disk_ok d"
  shows "disk_ok (snd (delete_paths ps d))" and "d_dirs (snd (delete_paths ps d)) = d_dirs d"
proof -
  have "disk_ok (snd (delete_paths ps d)) \<and> d_dirs (snd (delete_paths ps d)) = d_dirs d"
    using assms
  proof (induction ps arbitrary: d)
    case (Cons p ps)
    obtain r d1 where r: "fs_remove p d = (r, d1)" by (cases "fs_remove p d")
    have "d_dirs d1 = d_dirs d" using fs_remove_dirs [of p d] r by simp
    with Cons.IH [OF disk_ok_remove [OF Cons.prems r]] r show ?case
      by (auto split: prod.splits)
  qed simp
  then show "disk_ok (snd (delete_paths ps d))" "d_dirs (snd (delete_paths ps d)) = d_dirs d"
    by simp_all
qed

lemma snd_delete_files:
  "snd (delete_files h d) = snd (delete_paths (run_files (h_paths h)) d)"
  by (simp add: delete_files_def split: prod.split)

lemma delete_files_contents:
  "file_contents (snd (delete_files h d)) =
     (\<lambda>p. if p \<in> set (run_files (h_paths h)) then None else file_contents d p)"
  by (simp add: snd_delete_files delete_paths_contents)

lemma delete_files_ok:
  "disk_ok d \<Longrightarrow> disk_ok (snd (delete_files h d))"
  "disk_ok d \<Longrightarrow> d_dirs (snd (delete_files h d)) = d_dirs d"
  by (simp_all add: snd_delete_files delete_paths_ok)

section \<open>Counting handles\<close>

definition sharing :: "nat \<Rightarrow> sst_handle multiset \<Rightarrow> nat" where
  "sharing a M = size (filter_mset (\<lambda>g. h_arc g = a) M)"

definition files_of :: "sst_handle \<Rightarrow> path set" where
  "files_of h = set (run_files (h_paths h))"

definition owned :: "world \<Rightarrow> sst_handle multiset \<Rightarrow> bool" where
  "owned w M \<longleftrightarrow>
     (\<forall>h \<in># M. w_refs w (h_arc h) = sharing (h_arc h) M \<and> h_arc h < w_next_arc w)
     \<and> (\<forall>h \<in># M. \<forall>g \<in># M. h_arc h \<noteq> h_arc g \<longrightarrow> files_of h \<inter> files_of g = {})"

lemma sharing_add [simp]:
  "sharing a (add_mset h M) = (if h_arc h = a then Suc (sharing a M) else sharing a M)"
  by (simp add: sharing_def)

lemma sharing_empty [simp]: "sharing a {#} = 0"
  by (simp add: sharing_def)

lemma sharing_pos: "h \<in># M \<Longrightarrow> 0 < sharing (h_arc h) M"
  by (auto simp: sharing_def filter_mset_eq_conv nonempty_has_size [symmetric])

lemma sharing_zero: "sharing a M = 0 \<longleftrightarrow> (\<forall>g \<in># M. h_arc g \<noteq> a)"
  by (induction M) auto

lemma owned_empty [simp]: "owned w {#}"
  by (simp add: owned_def)

lemma owned_clone:
  assumes "owned w M" and "h \<in># M"
  shows "owned (clone_handle h w) (add_mset h M)"
  using assms by (auto simp: owned_def clone_handle_def)

lemma clone_handle_simps [simp]:
  "w_disk (clone_handle h w) = w_disk w"
  "w_next_arc (clone_handle h w) = w_next_arc w"
  by (simp_all add: clone_handle_def)

lemma owned_drop:
  assumes own: "owned w (add_mset h M)" and ok: "disk_ok (w_disk w)"
  shows "owned (drop_handle h w) M"
    and "disk_ok (w_disk (drop_handle h w))"
    and "d_dirs (w_disk (drop_handle h w)) = d_dirs (w_disk w)"
    and "w_next_arc (drop_handle h w) = w_next_arc w"
    and "\<And>g p. g \<in># M \<Longrightarrow> p \<in> files_of g \<Longrightarrow>
           file_contents (w_disk (drop_handle h w)) p = file_contents (w_disk w) p"
    and "\<And>p. p \<notin> files_of h \<Longrightarrow>
           file_contents (w_disk (drop_handle h w)) p = file_contents (w_disk w) p"
    and "(\<forall>g \<in># M. h_arc g \<noteq> h_arc h) \<Longrightarrow> p \<in> files_of h \<Longrightarrow>
           file_contents (w_disk (drop_handle h w)) p = None"
proof -
  have count: "w_refs w (h_arc h) = Suc (sharing (h_arc h) M)"
    using own by (simp add: owned_def)
  have disk: "w_disk (drop_handle h w) =
      (if sharing (h_arc h) M = 0 then snd (delete_files h (w_disk w)) else w_disk w)"
    by (simp add: drop_handle_def Let_def count)
  show "disk_ok (w_disk (drop_handle h w))"
    and "d_dirs (w_disk (drop_handle h w)) = d_dirs (w_disk w)"
    using ok by (simp_all add: disk delete_files_ok)
  show next_arc: "w_next_arc (drop_handle h w) = w_next_arc w"
    by (simp add: drop_handle_def Let_def)
  have refs: "w_refs (drop_handle h w) = (w_refs w)(h_arc h := sharing (h_arc h) M)"
    by (simp add: drop_handle_def Let_def count)
  show "owned (drop_handle h w) M"
    using own by (auto simp: owned_def next_arc refs)
  show keep: "file_contents (w_disk (drop_handle h w)) p = file_contents (w_disk w) p"
    if "p \<notin> files_of h" for p
    using that by (simp add: disk delete_files_contents files_of_def)
  show "file_contents (w_disk (drop_handle h w)) p = file_contents (w_disk w) p"
    if "g \<in># M" "p \<in> files_of g" for g p
  proof (cases "h_arc g = h_arc h")
    case True
    then have "sharing (h_arc h) M \<noteq> 0" using sharing_pos [OF that(1)] by simp
    then show ?thesis by (simp add: disk)
  next
    case False
    then have "p \<notin> files_of h" using own that by (auto simp: owned_def)
    then show ?thesis by (rule keep)
  qed
  show "file_contents (w_disk (drop_handle h w)) p = None"
    if "\<forall>g \<in># M. h_arc g \<noteq> h_arc h" "p \<in> files_of h"
    using that sharing_zero [of "h_arc h" M] by (simp add: disk delete_files_contents files_of_def)
qed

section \<open>Lists of handles\<close>

definition clone_handles :: "sst_handle list \<Rightarrow> world \<Rightarrow> world" where
  "clone_handles hs w = fold clone_handle hs w"

definition drop_handles :: "sst_handle list \<Rightarrow> world \<Rightarrow> world" where
  "drop_handles hs w = fold drop_handle hs w"

lemma clone_handles_disk [simp]:
  "w_disk (clone_handles hs w) = w_disk w" "w_next_arc (clone_handles hs w) = w_next_arc w"
  by (induction hs arbitrary: w) (simp_all add: clone_handles_def)

lemma owned_clones:
  "owned w M \<Longrightarrow> set hs \<subseteq> set_mset M \<Longrightarrow> owned (clone_handles hs w) (mset hs + M)"
proof (induction hs arbitrary: w M)
  case (Cons h hs)
  then have "owned (clone_handle h w) (add_mset h M)" by (auto intro: owned_clone)
  from Cons.IH [OF this] Cons.prems show ?case by (auto simp: clone_handles_def)
qed (simp add: clone_handles_def)

text \<open>What a sequence of drops keeps for the handles that remain.\<close>

definition keeps_files :: "disk \<Rightarrow> disk \<Rightarrow> sst_handle multiset \<Rightarrow> bool" where
  "keeps_files d d' M \<longleftrightarrow>
     disk_ok d' \<and> d_dirs d' = d_dirs d
     \<and> (\<forall>g \<in># M. \<forall>p \<in> files_of g. file_contents d' p = file_contents d p)
     \<and> (\<forall>p. file_contents d p = None \<longrightarrow> file_contents d' p = None)"

lemma keeps_files_refl [simp]: "disk_ok d \<Longrightarrow> keeps_files d d M"
  by (simp add: keeps_files_def)

lemma keeps_files_trans:
  "keeps_files d d' M \<Longrightarrow> keeps_files d' d'' M \<Longrightarrow> keeps_files d d'' M"
  by (simp add: keeps_files_def)

lemma keeps_files_mono: "keeps_files d d' M \<Longrightarrow> N \<subseteq># M \<Longrightarrow> keeps_files d d' N"
  by (auto simp: keeps_files_def dest: mset_subset_eqD)

lemma drop_handle_keeps:
  assumes "owned w (add_mset h M)" and "disk_ok (w_disk w)"
  shows "keeps_files (w_disk w) (w_disk (drop_handle h w)) M"
  unfolding keeps_files_def
proof (intro conjI allI impI)
  fix p
  assume "file_contents (w_disk w) p = None"
  then show "file_contents (w_disk (drop_handle h w)) p = None"
    by (auto simp: drop_handle_def Let_def delete_files_contents)
qed (use owned_drop [OF assms] in auto)

lemma owned_drops:
  "owned w (mset hs + M) \<Longrightarrow> disk_ok (w_disk w) \<Longrightarrow>
   owned (drop_handles hs w) M \<and> keeps_files (w_disk w) (w_disk (drop_handles hs w)) M
     \<and> w_next_arc (drop_handles hs w) = w_next_arc w"
proof (induction hs arbitrary: w)
  case (Cons h hs)
  have own: "owned w (add_mset h (mset hs + M))" using Cons.prems by simp
  note d = owned_drop [OF own Cons.prems(2)]
  from drop_handle_keeps [OF own Cons.prems(2)]
  have k: "keeps_files (w_disk w) (w_disk (drop_handle h w)) M"
    by (rule keeps_files_mono) simp
  from Cons.IH [OF d(1,2)] k d(4) show ?case
    by (auto simp: drop_handles_def intro: keeps_files_trans)
qed (simp add: drop_handles_def)

end
