(* ===== verification/RunStore.thy ===== *)
theory RunStore
  imports Ownership
begin

text \<open>
  Reading many runs at once. \<open>search_runs\<close>, \<open>merge_newer\<close>, \<open>merge_absent\<close> and
  \<open>merge_skip\<close> are the loops that \<open>get\<close>, the range queries and the compactions run over a list of
  runs. The interface \<open>run_store\<close> is what they rely on: a run represents sorted entries, a
  point lookup and a scan agree with them, and the key bounds of a run cover its keys. Inside
  it the loops are shown to compute the overlay of the runs; \<open>sst\<close> interprets it for the run
  files. \<open>runs_ok\<close> is the invariant of all the handles that are alive.
\<close>

section \<open>The loops\<close>

text \<open>Newest run first; a run that answers \<open>None\<close> is skipped.\<close>

fun search_runs :: "('h \<Rightarrow> lsm_value option res) \<Rightarrow> ('h \<Rightarrow> bool) \<Rightarrow> 'h list \<Rightarrow> lsm_value option res" where
  "search_runs get covers [] = Inr None"
| "search_runs get covers (h # hs) =
     (if covers h then
        res_bind (get h)
          (\<lambda>r. case r of Some v \<Rightarrow> Inr (Some v) | None \<Rightarrow> search_runs get covers hs)
      else search_runs get covers hs)"

text \<open>Oldest run first, later entries overwrite; an error stops the merge.\<close>

fun merge_newer :: "('h \<Rightarrow> (key \<times> lsm_value option) list res) \<Rightarrow> 'h list
    \<Rightarrow> (key, lsm_value option) btree_map \<Rightarrow> (key, lsm_value option) btree_map res" where
  "merge_newer scan [] m = Inr m"
| "merge_newer scan (h # hs) m = res_bind (scan h) (\<lambda>es. merge_newer scan hs (bt_extend es m))"

text \<open>Entries already present stay.\<close>

fun merge_absent :: "('h \<Rightarrow> (key \<times> lsm_value option) list res) \<Rightarrow> 'h list
    \<Rightarrow> (key, lsm_value option) btree_map \<Rightarrow> (key, lsm_value option) btree_map res" where
  "merge_absent scan [] m = Inr m"
| "merge_absent scan (h # hs) m =
     res_bind (scan h) (\<lambda>es. merge_absent scan hs (bt_extend_absent es m))"

text \<open>As \<open>merge_newer\<close>, but a run that cannot be read is left out.\<close>

fun merge_skip :: "('h \<Rightarrow> (key \<times> lsm_value option) list res) \<Rightarrow> 'h list
    \<Rightarrow> (key, lsm_value option) btree_map \<Rightarrow> (key, lsm_value option) btree_map" where
  "merge_skip scan [] m = m"
| "merge_skip scan (h # hs) m =
     merge_skip scan hs (case scan h of Inl _ \<Rightarrow> m | Inr es \<Rightarrow> bt_extend es m)"

text \<open>What \<open>search_runs\<close> finds: the first stored value, tombstones passed over.\<close>

fun first_live :: "lsm_value option option list \<Rightarrow> lsm_value option" where
  "first_live [] = None"
| "first_live (Some (Some v) # xs) = Some v"
| "first_live (_ # xs) = first_live xs"

lemma first_live_overlay:
  assumes "\<forall>m \<in> set ms. m k \<noteq> Some None"
  shows "first_live (map (\<lambda>m. m k) ms) = Option.bind (overlay ms k) id"
  using assms
proof (induction ms)
  case (Cons m ms)
  show ?case
  proof (cases "m k")
    case None
    then show ?thesis using Cons by (simp add: map_add_def)
  next
    case (Some v)
    then show ?thesis using Cons.prems by (cases v) (auto simp: map_add_def)
  qed
qed simp

section \<open>The interface\<close>

locale run_store =
  fixes repr :: "'h \<Rightarrow> (key \<times> lsm_value option) list \<Rightarrow> bool"
    and get :: "key \<Rightarrow> 'h \<Rightarrow> lsm_value option res"
    and scan :: "key \<Rightarrow> key \<Rightarrow> 'h \<Rightarrow> (key \<times> lsm_value option) list res"
    and covers :: "key \<Rightarrow> 'h \<Rightarrow> bool"
  assumes repr_wf: "repr h es \<Longrightarrow> bt_wf es"
    and get_repr: "repr h es \<Longrightarrow> get k h = Inr (Option.bind (bt_get es k) id)"
    and scan_repr: "repr h es \<Longrightarrow> scan lo hi h = Inr (bt_range lo hi es)"
    and covers_repr: "repr h es \<Longrightarrow> bt_get es k \<noteq> None \<Longrightarrow> covers k h"
begin

lemma search:
  "list_all2 repr hs ess \<Longrightarrow>
   search_runs (get k) (covers k) hs = Inr (first_live (map (\<lambda>es. bt_get es k) ess))"
proof (induction hs ess rule: list_all2_induct)
  case (Cons h hs es ess)
  show ?case
  proof (cases "bt_get es k")
    case None
    then show ?thesis using Cons by (simp add: get_repr)
  next
    case (Some v)
    then have "covers k h" using covers_repr [OF Cons.hyps(1)] by simp
    then show ?thesis using Cons Some by (cases v) (simp_all add: get_repr)
  qed
qed simp

lemma get_range_map:
  "bt_get (bt_range lo hi es) = bt_get es |` {lo..hi}"
  by (auto simp: fun_eq_iff restrict_map_def)

lemma overlay_restrict: "overlay (map (\<lambda>m. m |` A) ms) = overlay ms |` A"
  by (induction ms) (auto simp: fun_eq_iff map_add_def restrict_map_def split: option.splits)

lemma newer:
  "list_all2 repr hs ess \<Longrightarrow> bt_wf m \<Longrightarrow>
   \<exists>m'. merge_newer (scan lo hi) hs m = Inr m' \<and> bt_wf m'
     \<and> bt_get m' = bt_get m ++ overlay (map bt_get (rev ess)) |` {lo..hi}"
proof (induction hs ess arbitrary: m rule: list_all2_induct)
  case (Cons h hs es ess)
  have wf: "bt_wf es" using Cons.hyps(1) by (rule repr_wf)
  let ?m = "bt_extend (bt_range lo hi es) m"
  have "bt_wf ?m" using Cons.prems by simp
  from Cons.IH [OF this] obtain m' where
    m': "merge_newer (scan lo hi) hs ?m = Inr m'" "bt_wf m'"
      "bt_get m' = bt_get ?m ++ overlay (map bt_get (rev ess)) |` {lo..hi}" by blast
  have "bt_get m' = bt_get m ++ overlay (map bt_get (rev (es # ess))) |` {lo..hi}"
    using Cons.prems wf
    by (simp add: m'(3) get_range_map overlay_append flip: map_add_assoc)
      (auto simp: fun_eq_iff map_add_def restrict_map_def split: option.split)
  with m' show ?case by (simp add: scan_repr [OF Cons.hyps(1)])
qed (simp add: fun_eq_iff restrict_map_def map_add_def)

lemma skip:
  "list_all2 repr hs ess \<Longrightarrow> merge_newer (scan lo hi) hs m = Inr (merge_skip (scan lo hi) hs m)"
  by (induction hs ess arbitrary: m rule: list_all2_induct) (auto simp: scan_repr)

lemma absent:
  "list_all2 repr hs ess \<Longrightarrow> bt_wf m \<Longrightarrow>
   \<exists>m'. merge_absent (scan lo hi) hs m = Inr m' \<and> bt_wf m'
     \<and> bt_get m' = overlay (map bt_get ess) |` {lo..hi} ++ bt_get m"
proof (induction hs ess arbitrary: m rule: list_all2_induct)
  case (Cons h hs es ess)
  let ?m = "bt_extend_absent (bt_range lo hi es) m"
  have "bt_wf ?m" using Cons.prems by simp
  from Cons.IH [OF this] obtain m' where
    m': "merge_absent (scan lo hi) hs ?m = Inr m'" "bt_wf m'"
      "bt_get m' = overlay (map bt_get ess) |` {lo..hi} ++ bt_get ?m" by blast
  have "bt_get m' = overlay (map bt_get (es # ess)) |` {lo..hi} ++ bt_get m"
    using Cons.prems
    by (auto simp: m'(3) get_range_map fun_eq_iff map_add_def restrict_map_def split: option.split)
  with m' show ?case by (simp add: scan_repr [OF Cons.hyps(1)])
qed (simp add: fun_eq_iff restrict_map_def map_add_def)

end

section \<open>The run files implement it\<close>

definition covers_key :: "key \<Rightarrow> sst_handle \<Rightarrow> bool" where
  "covers_key k h \<longleftrightarrow> h_min_key h \<le> k \<and> k \<le> h_max_key h"

lemma bt_wf_bounds:
  assumes "bt_wf es" and "(k, v) \<in> set es"
  shows "fst (hd es) \<le> k \<and> k \<le> fst (last es)"
proof -
  have s: "sorted (map fst es)" and ne: "es \<noteq> []"
    using assms by (auto simp: bt_wf_def strict_sorted_iff)
  from assms(2) obtain i where i: "i < length es" "es ! i = (k, v)"
    by (auto simp: in_set_conv_nth)
  have "map fst es ! 0 \<le> map fst es ! i"
    by (rule sorted_nth_mono [OF s]) (use i in auto)
  moreover have "map fst es ! i \<le> map fst es ! (length es - 1)"
    by (rule sorted_nth_mono [OF s]) (use i in auto)
  ultimately show ?thesis using i ne by (simp add: hd_conv_nth last_conv_nth)
qed

interpretation sst: run_store "table_ok x d" "\<lambda>k h. sst_get x h k d"
  "\<lambda>lo hi h. range_with_tombstones h lo hi Sync d" covers_key
  for x d
proof unfold_locales
  fix h es k lo hi
  assume t: "table_ok x d h es"
  then show "bt_wf es" by (simp add: table_ok_def)
  show "sst_get x h k d = Inr (Option.bind (bt_get es k) id)" by (rule get_ok [OF t])
  show "range_with_tombstones h lo hi Sync d = Inr (bt_range lo hi es)"
    using range_ok [OF t] by (simp add: in_range_def bt_range_def)
  assume "bt_get es k \<noteq> None"
  then obtain v where "(k, v) \<in> set es" by (auto simp: bt_get_def dest: map_of_SomeD)
  with bt_wf_bounds [of es k v] t show "covers_key k h"
    by (simp add: table_ok_def covers_key_def)
qed

section \<open>All live handles\<close>

definition run_ok :: "codecs \<Rightarrow> disk \<Rightarrow> sst_handle \<Rightarrow> (key \<times> lsm_value option) list \<Rightarrow> bool" where
  "run_ok x d h es \<longleftrightarrow> table_ok x d h es \<and> stored_run x (file_contents d) (h_paths h) es"

definition runs_ok :: "codecs \<Rightarrow> path \<Rightarrow> nat \<Rightarrow> world \<Rightarrow> sst_handle multiset \<Rightarrow> bool" where
  "runs_ok x dir next w M \<longleftrightarrow>
     owned w M \<and> disk_ok (w_disk w)
     \<and> (\<forall>h \<in># M. h_paths h = run_paths_new dir (h_run_number h) \<and> h_run_number h < next
          \<and> (\<exists>es. run_ok x (w_disk w) h es))
     \<and> (\<forall>n \<ge> next. run_fresh (w_disk w) dir n)"

text \<open>Every run in \<open>M\<close> still represents the entries it represented before.\<close>

definition same_runs :: "codecs \<Rightarrow> world \<Rightarrow> world \<Rightarrow> sst_handle multiset \<Rightarrow> bool" where
  "same_runs x w w' M \<longleftrightarrow>
     (\<forall>h \<in># M. \<forall>es. run_ok x (w_disk w) h es \<longrightarrow> run_ok x (w_disk w') h es)"

lemma same_runs_refl [simp]: "same_runs x w w M"
  by (simp add: same_runs_def)

lemma same_runs_trans: "same_runs x w w' M \<Longrightarrow> same_runs x w' w'' M \<Longrightarrow> same_runs x w w'' M"
  by (simp add: same_runs_def)

lemma same_runs_mono: "same_runs x w w' M \<Longrightarrow> set_mset N \<subseteq> set_mset M \<Longrightarrow> same_runs x w w' N"
  by (auto simp: same_runs_def)

lemma run_ok_view:
  "run_ok x d h es \<Longrightarrow> (\<And>p. p \<in> files_of h \<Longrightarrow> file_contents d' p = file_contents d p) \<Longrightarrow>
   run_ok x d' h es"
  unfolding run_ok_def files_of_def by (blast intro: table_ok_view stored_run_view)

lemma keeps_files_same: "keeps_files (w_disk w) (w_disk w') M \<Longrightarrow> same_runs x w w' M"
  unfolding same_runs_def keeps_files_def by (blast intro: run_ok_view)

lemma run_ok_table: "run_ok x d h es \<Longrightarrow> table_ok x d h es"
  by (simp add: run_ok_def)

lemma run_ok_wf: "run_ok x d h es \<Longrightarrow> bt_wf es"
  by (simp add: run_ok_def table_ok_def)

lemma run_ok_fits: "run_ok x d h es \<Longrightarrow> fits es"
  by (simp add: run_ok_def table_ok_def)

lemma run_ok_nonempty: "run_ok x d h es \<Longrightarrow> es \<noteq> []"
  by (simp add: run_ok_def table_ok_def)

lemma runs_ok_clone:
  assumes "runs_ok x dir next w M" and "set hs \<subseteq> set_mset M"
  shows "runs_ok x dir next (clone_handles hs w) (mset hs + M)"
  using assms by (auto simp: runs_ok_def owned_clones)

lemma run_fresh_keeps:
  assumes "run_fresh d dir n" and "keeps_files d d' M"
  shows "run_fresh d' dir n"
  using assms by (auto simp: run_fresh_def keeps_files_def path_exists_contents)

lemma runs_ok_drop:
  assumes r: "runs_ok x dir next w (mset hs + M)"
  shows "runs_ok x dir next (drop_handles hs w) M" and "same_runs x w (drop_handles hs w) M"
proof -
  have own: "owned (drop_handles hs w) M" and k: "keeps_files (w_disk w) (w_disk (drop_handles hs w)) M"
    using r owned_drops [of w hs M] by (auto simp: runs_ok_def)
  from k show same: "same_runs x w (drop_handles hs w) M" by (rule keeps_files_same)
  have "\<forall>h \<in># M. \<exists>es. run_ok x (w_disk (drop_handles hs w)) h es"
    using r same unfolding runs_ok_def same_runs_def by (metis union_iff)
  then show "runs_ok x dir next (drop_handles hs w) M"
    using r own k run_fresh_keeps [OF _ k] by (auto simp: runs_ok_def keeps_files_def)
qed

section \<open>Writing a new run\<close>

text \<open>
  What the flush and both compactions do with entries: create a writer, add every entry, finish.
\<close>

definition write_run ::
    "codecs \<Rightarrow> path \<Rightarrow> nat \<Rightarrow> (key \<times> lsm_value option) list \<Rightarrow> nat \<Rightarrow> (world, sst_handle) io" where
  "write_run x dir n es level =
     io_bind (on_disk (sw_new dir n)) (\<lambda>writer. sw_finish x (fold sw_add es writer) level)"

lemma run_file_inject:
  assumes "run_file dir n a = run_file dir m b" and "CHR ''.'' \<notin> set a" and "CHR ''.'' \<notin> set b"
  shows "n = m \<and> a = b"
proof -
  have eq: "fmt_05 n @ CHR ''.'' # a = fmt_05 m @ CHR ''.'' # b"
    using assms(1) by (simp add: run_file_def)
  have "takeWhile (\<lambda>c. c \<noteq> CHR ''.'') (fmt_05 n @ CHR ''.'' # a) = fmt_05 n"
    "takeWhile (\<lambda>c. c \<noteq> CHR ''.'') (fmt_05 m @ CHR ''.'' # b) = fmt_05 m"
    using fmt_05_no_dot by (subst takeWhile_append2; auto)+
  with eq have "fmt_05 n = fmt_05 m" by simp
  with eq show ?thesis using fmt_05_inj by auto
qed

lemma run_files_new:
  "set (run_files (run_paths_new dir n)) = (\<lambda>e. run_file dir n e) ` set components"
  by (auto simp: run_files_def components_def)

lemma components_no_dot: "e \<in> set components \<Longrightarrow> CHR ''.'' \<notin> set e"
  by (auto simp: components_def)

lemma run_files_disjoint:
  "n \<noteq> m \<Longrightarrow> set (run_files (run_paths_new dir n)) \<inter> set (run_files (run_paths_new dir m)) = {}"
  unfolding run_files_new using run_file_inject components_no_dot by blast

lemma run_exts_eq: "run_exts = components @ [''checksum.tmp'']"
  by (simp add: run_exts_def components_def)

lemma run_file_ext_other:
  assumes "n \<noteq> m" and "e \<in> set run_exts" and "c \<in> set components"
  shows "run_file dir n e \<noteq> run_file dir m c"
proof
  assume eq: "run_file dir n e = run_file dir m c"
  show False
  proof (cases "e \<in> set components")
    case True
    then show ?thesis using run_file_inject [OF eq] assms components_no_dot by auto
  next
    case False
    with assms have e: "e = ''checksum.tmp''" by (auto simp: run_exts_eq)
    have "CHR ''.'' \<notin> set c" using assms(3) by (rule components_no_dot)
    then have 1: "length (filter (\<lambda>c. c = CHR ''.'') (fmt_05 m @ ''.'' @ c)) = 1"
      using fmt_05_no_dot [of m] by (auto simp: filter_empty_conv)
    have 2: "length (filter (\<lambda>c. c = CHR ''.'') (fmt_05 n @ ''.'' @ e)) = 2"
      using fmt_05_no_dot [of n] by (auto simp: filter_empty_conv e)
    have "fmt_05 n @ ''.'' @ e = fmt_05 m @ ''.'' @ c" using eq by (simp add: run_file_def)
    then have "length (filter (\<lambda>c. c = CHR ''.'') (fmt_05 n @ ''.'' @ e)) =
        length (filter (\<lambda>c. c = CHR ''.'') (fmt_05 m @ ''.'' @ c))"
      by (simp only:)
    with 1 2 show False by linarith
  qed
qed

lemma run_fresh_after:
  assumes "run_fresh d dir n" and "n \<noteq> m" and "d_dirs d' = d_dirs d"
    and "\<forall>p. p \<notin> set (run_files (run_paths_new dir m)) \<longrightarrow> file_contents d' p = file_contents d p"
  shows "run_fresh d' dir n"
proof -
  have "file_contents d' (run_file dir n e) = file_contents d (run_file dir n e)"
    if "e \<in> set run_exts" for e
    using assms(4) run_file_ext_other [OF assms(2) that] by (auto simp: run_files_new)
  then show ?thesis using assms(1,3) by (simp add: run_fresh_def path_exists_contents)
qed

text \<open>Nothing changed but files directly in the directory.\<close>

definition outside :: "path \<Rightarrow> disk \<Rightarrow> disk \<Rightarrow> bool" where
  "outside dir d d' \<longleftrightarrow> d_dirs d' = d_dirs d \<and> (\<forall>p. butlast p \<noteq> dir \<longrightarrow> file_contents d' p = file_contents d p)"

lemma outside_refl [simp]: "outside dir d d"
  by (simp add: outside_def)

lemma outside_trans: "outside dir d d' \<Longrightarrow> outside dir d' d'' \<Longrightarrow> outside dir d d''"
  by (simp add: outside_def)

lemma write_run_total:
  assumes r: "runs_ok x dir next w M" and total: "codecs_total x"
    and es: "es \<noteq> []" "bt_wf es" "fits es"
  obtains h w' where "write_run x dir next es level w = (Inr h, w')"
    and "runs_ok x dir (Suc next) w' (add_mset h M)" and "same_runs x w w' M"
    and "run_ok x (w_disk w') h es" and "h_run_number h = next" and "h_level h = level"
    and "outside dir (w_disk w) (w_disk w')"
proof -
  have ok: "disk_ok (w_disk w)" and own: "owned w M"
    and M: "\<And>h. h \<in># M \<Longrightarrow> h_paths h = run_paths_new dir (h_run_number h)"
      "\<And>h. h \<in># M \<Longrightarrow> h_run_number h < next" "\<And>h. h \<in># M \<Longrightarrow> \<exists>es. run_ok x (w_disk w) h es"
    and fresh: "\<And>n. next \<le> n \<Longrightarrow> run_fresh (w_disk w) dir n"
    using r by (auto simp: runs_ok_def)
  obtain sw d where new: "sw_new dir next (w_disk w) = (Inr sw, d)"
      "writer_at (w_disk w) dir next d sw" "sw_entries sw = []"
    using sw_new_total [OF ok fresh] by blast
  let ?sw = "fold sw_add es sw" and ?w = "w\<lparr>w_disk := d\<rparr>"
  have sort: "sort_key fst es = es" by (rule sort_key_wf [OF es(2)])
  obtain h w' where fin: "sw_finish x ?sw level ?w = (Inr h, w')"
      "run_written x (w_disk w) ?w dir next es level h w'"
    using sw_finish_total [OF fresh, of "next" ?w ?sw es x level] new es total sort
    by (auto simp: bt_wf_distinct)
  from fin(2) have h: "h_paths h = run_paths_new dir next" "h_level h = level" "run_ok x (w_disk w') h es"
      "h_arc h = w_next_arc w" "w_refs w' = (w_refs w)(w_next_arc w := 1)"
      "w_next_arc w' = Suc (w_next_arc w)" "disk_ok (w_disk w')" "d_dirs (w_disk w') = d_dirs (w_disk w)"
    and frame: "\<forall>p. p \<notin> set (run_files (run_paths_new dir next)) \<longrightarrow>
        file_contents (w_disk w') p = file_contents (w_disk w) p"
    by (auto simp: run_written_def run_ok_def)
  have run: "write_run x dir next es level w = (Inr h, w')"
    using new(1) fin(1) by (simp add: write_run_def result_simps)
  have disj: "files_of h \<inter> files_of g = {}" if "g \<in># M" for g
    using run_files_disjoint [of "next" "h_run_number g" dir] M(1,2) [OF that] h(1)
    by (simp add: files_of_def)
  have same: "same_runs x w w' M"
    unfolding same_runs_def
  proof (intro ballI allI impI)
    fix g es'
    assume g: "g \<in># M" and "run_ok x (w_disk w) g es'"
    then show "run_ok x (w_disk w') g es'"
      using frame disj [OF g] h(1) by (auto simp: files_of_def intro!: run_ok_view [of x "w_disk w"])
  qed
  have arcs: "h_arc g < w_next_arc w" if "g \<in># M" for g using own that by (simp add: owned_def)
  have "owned w' (add_mset h M)"
  proof -
    have "sharing (w_next_arc w) M = 0" using arcs by (fastforce simp: sharing_zero)
    then show ?thesis
      using own h disj arcs by (auto simp: owned_def less_Suc_eq)
  qed
  moreover have "run_fresh (w_disk w') dir n" if "Suc next \<le> n" for n
  proof (rule run_fresh_after [of "w_disk w" dir n "next"])
    show "run_fresh (w_disk w) dir n" using fresh that by simp
  qed (use that frame h(8) in simp_all)
  moreover have "\<exists>es. run_ok x (w_disk w') g es" if "g \<in># M" for g
    using M(3) [OF that] same that by (auto simp: same_runs_def)
  ultimately have "runs_ok x dir (Suc next) w' (add_mset h M)"
    using h M by (auto simp: runs_ok_def h_run_number_def less_SucI)
  moreover have "p \<notin> set (run_files (run_paths_new dir next))" if "butlast p \<noteq> dir" for p
    using that by (auto simp: run_files_new)
  then have "outside dir (w_disk w) (w_disk w')" using frame h(8) by (simp add: outside_def)
  ultimately show thesis using run same h by (intro that [of h w']) (auto simp: h_run_number_def)
qed

end
