(* ===== verification/Compaction.thy ===== *)
theory Compaction
  imports RunStore
begin

text \<open>
  \<open>src/compaction.rs\<close>: choosing a level to compact, merging its runs, and writing the result
  back into the shared levels.

  The shared state is a \<open>store\<close>: the world, the levels (\<open>Arc<RwLock<Vec<Vec<SsTableHandle>>>>\<close>),
  the next run number and the generation counter. \<open>run_compaction\<close> releases the lock on the
  levels while it merges, so it is three definitions that the background thread's steps also
  use: \<open>compaction_begin\<close> clones the levels and picks a job, \<open>compaction_merge\<close> writes the
  output, \<open>compaction_commit\<close> removes the inputs and installs the output unless the
  generation changed in between.
\<close>

record store =
  st_world :: world
  st_levels :: "sst_handle list list"
  st_next_run :: nat
  st_generation :: nat

definition on_world :: "(world, 'a) io \<Rightarrow> (store, 'a) io" where
  "on_world m s = (case m (st_world s) of (r, w) \<Rightarrow> (r, s\<lparr>st_world := w\<rparr>))"

definition clone_in :: "sst_handle list \<Rightarrow> store \<Rightarrow> store" where
  "clone_in hs s = s\<lparr>st_world := clone_handles hs (st_world s)\<rparr>"

definition drop_in :: "sst_handle list \<Rightarrow> store \<Rightarrow> store" where
  "drop_in hs s = s\<lparr>st_world := drop_handles hs (st_world s)\<rparr>"

text \<open>\<open>let current = *run_num; *run_num += 1; current\<close>\<close>

definition alloc_run :: "(store, nat) io" where
  "alloc_run s = (Inr (st_next_run s), s\<lparr>st_next_run := st_next_run s + 1\<rparr>)"

section \<open>Jobs and results\<close>

record compaction_job =
  cj_inputs :: "nat list"
  cj_strategy :: compaction_strategy

record level_job =
  lj_source_level :: nat
  lj_target_level :: nat
  lj_source_runs :: "nat list"
  lj_target_level_runs :: "sst_handle list"

record compaction_result =
  cr_output :: "sst_handle option"
  cr_inputs_to_remove :: "nat list"
  cr_bytes_read :: u64
  cr_bytes_written :: u64

section \<open>Selecting a level\<close>

definition level_target_size :: "nat \<Rightarrow> nat \<Rightarrow> u64" where
  "level_target_size level size_ratio = 10000 * of_nat size_ratio ^ level"

definition level_size :: "sst_handle list \<Rightarrow> u64" where
  "level_size level = sum_list (map (\<lambda>r. of_nat (h_num_entries r)) level)"

definition level_job_for :: "sst_handle list list \<Rightarrow> nat \<Rightarrow> level_job" where
  "level_job_for levels level_idx = \<lparr>
     lj_source_level = level_idx,
     lj_target_level = level_idx + 1,
     lj_source_runs = [0..<length (levels ! level_idx)],
     lj_target_level_runs =
       (if level_idx + 1 < length levels then levels ! (level_idx + 1) else [])\<rparr>"

fun select_among :: "sst_handle list list \<Rightarrow> nat \<Rightarrow> nat list \<Rightarrow> level_job option res" where
  "select_among levels size_ratio [] = Inr None"
| "select_among levels size_ratio (level_idx # is) =
     (if length levels \<le> level_idx then Inl (Panic ''index out of bounds'')
      else if level_target_size level_idx size_ratio < level_size (levels ! level_idx)
      then Inr (Some (level_job_for levels level_idx))
      else select_among levels size_ratio is)"

definition select_level_compaction ::
    "sst_handle list list \<Rightarrow> nat \<Rightarrow> nat \<Rightarrow> level_job option res" where
  "select_level_compaction levels max_level size_ratio =
     select_among levels size_ratio [0..<max_level]"

section \<open>Merging\<close>

definition full_scan :: "disk \<Rightarrow> sst_handle \<Rightarrow> (key \<times> lsm_value option) list res" where
  "full_scan d sstable = range_with_tombstones sstable min_scan_key max_scan_key Sync d"

definition retain_live :: "(key, lsm_value option) btree_map \<Rightarrow> (key, lsm_value option) btree_map" where
  "retain_live m = filter (\<lambda>(k, v). v \<noteq> None) m"

definition entries_bytes :: "(key \<times> lsm_value option) list \<Rightarrow> u64" where
  "entries_bytes es =
     sum_list (map (\<lambda>(k, v). of_nat (key_size k) + (case v of None \<Rightarrow> 0 | Some w \<Rightarrow> of_nat (value_size w))) es)"

text \<open>The indexed runs, oldest first; an index out of range panics.\<close>

definition runs_by_number :: "sst_handle list \<Rightarrow> nat list \<Rightarrow> sst_handle list res" where
  "runs_by_number runs idxs =
     (if \<exists>i \<in> set idxs. length runs \<le> i then Inl (Panic ''index out of bounds'')
      else Inr (map (\<lambda>i. runs ! i) (sort_key (\<lambda>i. h_run_number (runs ! i)) idxs)))"

definition write_result ::
    "codecs \<Rightarrow> path \<Rightarrow> nat \<Rightarrow> (key, lsm_value option) btree_map \<Rightarrow> nat \<Rightarrow> nat list
     \<Rightarrow> (world, compaction_result) io" where
  "write_result x active_dir run_number all_entries level inputs =
     (if all_entries = [] then
        io_return \<lparr>cr_output = None, cr_inputs_to_remove = inputs,
                   cr_bytes_read = 0, cr_bytes_written = 0\<rparr>
      else
        io_bind (write_run x active_dir run_number all_entries level) (\<lambda>output.
        io_return \<lparr>cr_output = Some output, cr_inputs_to_remove = inputs,
                   cr_bytes_read = entries_bytes all_entries,
                   cr_bytes_written = entries_bytes all_entries\<rparr>))"

definition compact_levels ::
    "codecs \<Rightarrow> level_job \<Rightarrow> sst_handle list \<Rightarrow> path \<Rightarrow> nat \<Rightarrow> nat \<Rightarrow> (world, compaction_result) io" where
  "compact_levels x job source_level_runs active_dir run_number max_level =
     io_bind (io_lift (runs_by_number source_level_runs (lj_source_runs job))) (\<lambda>sources.
     io_bind (io_get (\<lambda>w. merge_newer (full_scan (w_disk w)) sources [])) (\<lambda>merged.
     io_bind
       (if lj_target_level job = max_level
        then io_bind (io_get (\<lambda>w. merge_absent (full_scan (w_disk w)) (lj_target_level_runs job) merged))
               (\<lambda>m. io_return (retain_live m))
        else io_return merged) (\<lambda>all_entries.
     write_result x active_dir run_number all_entries (lj_target_level job) (lj_source_runs job))))"

definition compact_job ::
    "codecs \<Rightarrow> compaction_job \<Rightarrow> sst_handle list \<Rightarrow> path \<Rightarrow> nat \<Rightarrow> (world, compaction_result) io" where
  "compact_job x job sstables active_dir run_number =
     io_bind (io_lift (runs_by_number sstables (cj_inputs job))) (\<lambda>sources.
     io_bind (io_get (\<lambda>w. merge_newer (full_scan (w_disk w)) sources [])) (\<lambda>merged.
     let compacting_all = (length (cj_inputs job) = length sstables);
         all_entries = (if compacting_all then retain_live merged else merged) in
     write_result x active_dir run_number all_entries 0 (cj_inputs job)))"

section \<open>One round of level compaction\<close>

text \<open>
  What the round holds while the lock is released: the generation it read, its clone of the
  levels, the job with the cloned target level, and the clone of the source level.
\<close>

record pending =
  pd_generation :: nat
  pd_levels :: "sst_handle list list"
  pd_job :: level_job
  pd_source :: "sst_handle list"

definition pending_handles :: "pending \<Rightarrow> sst_handle list" where
  "pending_handles p = concat (pd_levels p) @ lj_target_level_runs (pd_job p) @ pd_source p"

definition l0_len :: "sst_handle list list \<Rightarrow> nat" where
  "l0_len levels = (case levels of [] \<Rightarrow> 0 | l0 # _ \<Rightarrow> length l0)"

definition pick_job :: "sst_handle list list \<Rightarrow> nat \<Rightarrow> nat \<Rightarrow> level_job option res" where
  "pick_job levels max_level level0_file_trigger =
     res_bind (select_level_compaction levels max_level 4) (\<lambda>job.
     Inr (case job of
            Some j \<Rightarrow> Some j
          | None \<Rightarrow>
              if l0_len levels < level0_file_trigger \<or> l0_len levels = 0 then None
              else Some \<lparr>lj_source_level = 0, lj_target_level = 1,
                         lj_source_runs = [0..<l0_len levels],
                         lj_target_level_runs = (if 1 < length levels then levels ! 1 else [])\<rparr>))"

text \<open>
  The generation is read and the levels are cloned in one step; in the code a rollback between
  the two would make the generation stale, so that the result is discarded at the commit.
\<close>

definition compaction_begin :: "nat \<Rightarrow> nat \<Rightarrow> (store, pending option) io" where
  "compaction_begin max_level level0_file_trigger s =
     (let gen_before = st_generation s;
          levels_snapshot = st_levels s;
          s1 = clone_in (concat levels_snapshot) s in
      case pick_job levels_snapshot max_level level0_file_trigger of
        Inl e \<Rightarrow> (Inl e, drop_in (concat levels_snapshot) s1)
      | Inr None \<Rightarrow> (Inr None, drop_in (concat levels_snapshot) s1)
      | Inr (Some job) \<Rightarrow>
          (let p = \<lparr>pd_generation = gen_before, pd_levels = levels_snapshot, pd_job = job,
                    pd_source = levels_snapshot ! lj_source_level job\<rparr> in
           (Inr (Some p), clone_in (lj_target_level_runs job @ pd_source p) s1)))"

definition compaction_merge ::
    "codecs \<Rightarrow> path \<Rightarrow> nat \<Rightarrow> pending \<Rightarrow> (store, compaction_result) io" where
  "compaction_merge x active_dir max_level p =
     io_bind alloc_run (\<lambda>run_number.
     on_world (compact_levels x (pd_job p) (pd_source p) active_dir run_number max_level))"

text \<open>Removing positions, the highest first so that the others stay valid.\<close>

fun remove_all_at :: "nat list \<Rightarrow> 'a list \<Rightarrow> 'a list \<times> 'a list" where
  "remove_all_at [] xs = ([], xs)"
| "remove_all_at (i # is) xs =
     (if i < length xs then
        (case remove_all_at is (take i xs @ drop (Suc i) xs) of
           (removed, rest) \<Rightarrow> (xs ! i # removed, rest))
      else remove_all_at is xs)"

definition option_handles :: "sst_handle option \<Rightarrow> sst_handle list" where
  "option_handles h = (case h of None \<Rightarrow> [] | Some g \<Rightarrow> [g])"

definition install_output ::
    "nat \<Rightarrow> nat \<Rightarrow> sst_handle option \<Rightarrow> sst_handle list list \<Rightarrow> sst_handle list \<times> sst_handle list list" where
  "install_output target_level max_level output levels =
     (case output of
        None \<Rightarrow> ([], levels)
      | Some h \<Rightarrow>
          if target_level = max_level
          then (levels ! target_level, levels[target_level := [h]])
          else ([], levels[target_level := levels ! target_level @ [h]]))"

definition compaction_commit :: "nat \<Rightarrow> pending \<Rightarrow> compaction_result \<Rightarrow> (store, unit) io" where
  "compaction_commit max_level p result s =
     (let source_level = lj_source_level (pd_job p);
          target_level = lj_target_level (pd_job p);
          levels = st_levels s in
      if st_generation s \<noteq> pd_generation p
      then (Inr (), drop_in (option_handles (cr_output result) @ pending_handles p) s)
      else if length levels \<le> source_level \<or> length levels \<le> target_level
      then (Inl (Panic ''index out of bounds''), s)
      else
        (let to_remove = rev (sort (cr_inputs_to_remove result));
             (removed, source') = remove_all_at to_remove (levels ! source_level);
             (cleared, levels') =
               install_output target_level max_level (cr_output result)
                 (levels[source_level := source']) in
         (Inr (), drop_in (removed @ cleared @ pending_handles p) (s\<lparr>st_levels := levels'\<rparr>))))"

definition run_compaction :: "codecs \<Rightarrow> path \<Rightarrow> nat \<Rightarrow> nat \<Rightarrow> (store, unit) io" where
  "run_compaction x active_dir max_level level0_file_trigger =
     io_bind (compaction_begin max_level level0_file_trigger) (\<lambda>p_opt.
     case p_opt of
       None \<Rightarrow> io_return ()
     | Some p \<Rightarrow> (\<lambda>s.
         case compaction_merge x active_dir max_level p s of
           (Inl e, s') \<Rightarrow> (Inl e, drop_in (pending_handles p) s')
         | (Inr result, s') \<Rightarrow> compaction_commit max_level p result s'))"

end
