(* ===== verification/MemTable.thy ===== *)
theory MemTable
  imports LsmTypes BTreeMap
begin

text \<open>
  The in-memory write buffer (\<open>src/lib.rs\<close>, \<open>struct MemTable\<close>): a \<open>BTreeMap\<close> from keys to
  an optional value (\<open>None\<close> is a tombstone) with a running byte count. The byte count is a
  64-bit word, updated with the wrapping arithmetic of the code; \<open>mt_bytes\<close> is the size it
  is meant to track, and \<open>mt_ok\<close> the invariant that ties the two together.
\<close>

section \<open>State and operations\<close>

record memtable =
  mt_data :: "(key, lsm_value option) btree_map"
  mt_size_bytes :: u64
  mt_sequence :: nat

definition mt_new :: "nat \<Rightarrow> memtable" where
  "mt_new seq = \<lparr>mt_data = [], mt_size_bytes = 0, mt_sequence = seq\<rparr>"

definition mt_insert :: "key \<Rightarrow> lsm_value \<Rightarrow> memtable \<Rightarrow> memtable" where
  "mt_insert k v m =
     (let s = (case bt_get (mt_data m) k of
                 Some old \<Rightarrow>
                   (case old of
                      Some w \<Rightarrow> mt_size_bytes m - of_nat (value_size w)
                    | None \<Rightarrow> mt_size_bytes m)
               | None \<Rightarrow> mt_size_bytes m + of_nat (key_size k));
          s' = s + of_nat (value_size v)
      in m\<lparr>mt_size_bytes := s', mt_data := bt_insert k (Some v) (mt_data m)\<rparr>)"

definition mt_delete :: "key \<Rightarrow> memtable \<Rightarrow> memtable" where
  "mt_delete k m =
     (let s = (case bt_get (mt_data m) k of
                 Some old \<Rightarrow>
                   (case old of
                      Some w \<Rightarrow> mt_size_bytes m - of_nat (value_size w)
                    | None \<Rightarrow> mt_size_bytes m)
               | None \<Rightarrow> mt_size_bytes m + of_nat (key_size k))
      in m\<lparr>mt_size_bytes := s, mt_data := bt_insert k None (mt_data m)\<rparr>)"

definition mt_get :: "memtable \<Rightarrow> key \<Rightarrow> lsm_value option option" where
  "mt_get m k = bt_get (mt_data m) k"

definition mt_is_empty :: "memtable \<Rightarrow> bool" where
  "mt_is_empty m \<longleftrightarrow> mt_data m = []"

definition mt_iter :: "memtable \<Rightarrow> (key \<times> lsm_value option) list" where
  "mt_iter m = mt_data m"

definition mt_range :: "memtable \<Rightarrow> key \<Rightarrow> key \<Rightarrow> (key \<times> lsm_value option) list" where
  "mt_range m lo hi = (if hi < lo then [] else bt_range lo hi (mt_data m))"

section \<open>The invariant\<close>

definition entry_size :: "key \<Rightarrow> lsm_value option \<Rightarrow> nat" where
  "entry_size k v = key_size k + (case v of None \<Rightarrow> 0 | Some w \<Rightarrow> value_size w)"

definition mt_bytes :: "(key, lsm_value option) btree_map \<Rightarrow> nat" where
  "mt_bytes m = sum_list (map (\<lambda>(k, v). entry_size k v) m)"

definition mt_ok :: "memtable \<Rightarrow> bool" where
  "mt_ok m \<longleftrightarrow> bt_wf (mt_data m) \<and> mt_size_bytes m = of_nat (mt_bytes (mt_data m))"

lemma mt_bytes_insert:
  "bt_wf m \<Longrightarrow>
   mt_bytes (bt_insert k v m) + (case bt_get m k of None \<Rightarrow> 0 | Some old \<Rightarrow> entry_size k old)
     = mt_bytes m + entry_size k v"
proof (induction k v m rule: bt_insert.induct)
  case (1 k v)
  then show ?case by (simp add: mt_bytes_def)
next
  case (2 k v k' v' m)
  have "k < k' \<Longrightarrow> map_of m k = None"
    using 2 by (force simp: map_of_eq_None_iff)
  with 2 show ?case by (auto simp: mt_bytes_def bt_get_def)
qed

lemma mt_bytes_insert_word:
  assumes "bt_wf m"
  shows "(of_nat (mt_bytes (bt_insert k v m)) :: u64) =
    of_nat (mt_bytes m) + of_nat (entry_size k v)
      - (case bt_get m k of None \<Rightarrow> 0 | Some old \<Rightarrow> of_nat (entry_size k old))"
  using arg_cong [OF mt_bytes_insert [OF assms, of k v], of "of_nat :: nat \<Rightarrow> u64"]
  by (auto simp: algebra_simps split: option.splits)

lemma mt_ok_new [simp, intro]: "mt_ok (mt_new seq)"
  by (simp add: mt_ok_def mt_new_def mt_bytes_def)

lemma mt_ok_insert [simp, intro]: "mt_ok m \<Longrightarrow> mt_ok (mt_insert k v m)"
  by (auto simp: mt_ok_def mt_insert_def Let_def mt_bytes_insert_word entry_size_def
      split: option.splits)

lemma mt_ok_delete [simp, intro]: "mt_ok m \<Longrightarrow> mt_ok (mt_delete k m)"
  by (auto simp: mt_ok_def mt_delete_def Let_def mt_bytes_insert_word entry_size_def
      split: option.splits)

lemma mt_ok_wf [simp]: "mt_ok m \<Longrightarrow> bt_wf (mt_data m)"
  by (simp add: mt_ok_def)

lemma mt_get_new [simp]: "mt_get (mt_new seq) = Map.empty"
  by (simp add: mt_get_def mt_new_def fun_eq_iff)

lemma mt_get_insert [simp]: "mt_ok m \<Longrightarrow> mt_get (mt_insert k v m) = (mt_get m)(k \<mapsto> Some v)"
  by (simp add: mt_get_def mt_insert_def Let_def fun_eq_iff)

lemma mt_get_delete [simp]: "mt_ok m \<Longrightarrow> mt_get (mt_delete k m) = (mt_get m)(k \<mapsto> None)"
  by (simp add: mt_get_def mt_delete_def Let_def fun_eq_iff)

lemma bt_get_mt_data: "bt_get (mt_data m) = mt_get m"
  by (simp add: fun_eq_iff mt_get_def)

lemma mt_range_wf [simp]: "mt_ok m \<Longrightarrow> bt_wf (mt_range m lo hi)"
  by (simp add: mt_range_def)

lemma bt_get_mt_range:
  "bt_get (mt_range m lo hi) k = (if lo \<le> k \<and> k \<le> hi then mt_get m k else None)"
  by (auto simp: mt_range_def mt_get_def)

section \<open>Runs of operations\<close>

datatype mt_op = MtInsert key lsm_value | MtDelete key

fun mt_apply :: "mt_op \<Rightarrow> memtable \<Rightarrow> memtable" where
  "mt_apply (MtInsert k v) m = mt_insert k v m"
| "mt_apply (MtDelete k) m = mt_delete k m"

definition mt_run :: "mt_op list \<Rightarrow> nat \<Rightarrow> memtable" where
  "mt_run ops seq = fold mt_apply ops (mt_new seq)"

lemma mt_ok_fold: "mt_ok m \<Longrightarrow> mt_ok (fold mt_apply ops m)"
proof (induction ops arbitrary: m)
  case (Cons x ops)
  then show ?case by (cases x) auto
qed simp

text \<open>
  C9. The byte counter of a memtable is exact after any sequence of inserts and deletes: it
  equals, modulo \<open>2 ^ 64\<close>, the bytes of the keys and values held, so the unchecked
  \<open>size_bytes -= old.len()\<close> never takes away more than was added.
\<close>

theorem mt_run_size_exact:
  "mt_size_bytes (mt_run ops seq) = of_nat (mt_bytes (mt_data (mt_run ops seq)))"
proof -
  have "mt_ok (mt_run ops seq)" by (simp add: mt_run_def mt_ok_fold)
  then show ?thesis by (simp add: mt_ok_def)
qed

end
