(* ===== verification/LsmTree.thy ===== *)
theory LsmTree
  imports Compaction MemTable
begin

text \<open>
  \<open>src/lib.rs\<close>: the tree. Its state is one record with the fields of \<open>struct LsmTree\<close>; the
  parts the background thread shares are the \<open>store\<close>. An operation takes the tree and returns
  its result and the new tree. \<open>lt_waiting\<close> is set while \<open>flush_memtable\<close> spins in its
  back-pressure loop, waiting for the background thread to drain L0; the background steps and
  the end of the wait are in the theory on the background thread.
\<close>

record lsm_tree =
  lt_path :: path
  lt_active_dir :: path
  lt_snapshots_dir :: path
  lt_config :: lsm_config
  lt_memtable :: memtable
  lt_immutables :: "memtable list"
  lt_sequence :: nat
  lt_store :: store
  lt_max_level :: nat
  lt_credits :: u64
  lt_should_run :: bool
  lt_shutdown :: bool
  lt_waiting :: bool

definition on_store :: "(store, 'a) io \<Rightarrow> (lsm_tree, 'a) io" where
  "on_store m t = (case m (lt_store t) of (r, s) \<Rightarrow> (r, t\<lparr>lt_store := s\<rparr>))"

definition tree_levels :: "lsm_tree \<Rightarrow> sst_handle list list" where
  "tree_levels t = st_levels (lt_store t)"

definition tree_disk :: "lsm_tree \<Rightarrow> disk" where
  "tree_disk t = w_disk (st_world (lt_store t))"

section \<open>Flushing\<close>

text \<open>\<open>levels[0].push(handle)\<close>\<close>

definition push_l0 :: "sst_handle \<Rightarrow> (store, nat) io" where
  "push_l0 h s =
     (case st_levels s of
        [] \<Rightarrow> (Inl (Panic ''index out of bounds''), s)
      | l0 # ls \<Rightarrow> (Inr (length l0 + 1), s\<lparr>st_levels := (l0 @ [h]) # ls\<rparr>))"

definition flush_memtable :: "codecs \<Rightarrow> (lsm_tree, unit) io" where
  "flush_memtable x t =
     (let old_memtable = lt_memtable t;
          t1 = t\<lparr>lt_memtable := mt_new (lt_sequence t)\<rparr> in
      if mt_is_empty old_memtable then (Inr (), t1)
      else
        io_bind (on_store alloc_run) (\<lambda>run_number.
        io_bind (on_store (on_world
            (write_run x (lt_active_dir t) run_number (mt_iter old_memtable) 0))) (\<lambda>handle.
        io_bind (on_store (push_l0 handle)) (\<lambda>l0_len t2.
          (Inr (),
           t2\<lparr>lt_credits := lt_credits t2 + of_nat (length (mt_data old_memtable)),
              lt_should_run := True,
              lt_waiting := level0_compaction_trigger (lt_config t2) * 4 < l0_len\<rparr>)))) t1)"

definition flush_if_full :: "codecs \<Rightarrow> (lsm_tree, unit) io" where
  "flush_if_full x t =
     (if memtable_size (lt_config t) \<le> mt_size_bytes (lt_memtable t) then flush_memtable x t
      else (Inr (), t))"

section \<open>Writing\<close>

definition tree_insert :: "codecs \<Rightarrow> key \<Rightarrow> lsm_value \<Rightarrow> (lsm_tree, unit) io" where
  "tree_insert x key value t = flush_if_full x (t\<lparr>lt_memtable := mt_insert key value (lt_memtable t)\<rparr>)"

definition tree_delete :: "codecs \<Rightarrow> key \<Rightarrow> (lsm_tree, unit) io" where
  "tree_delete x key t = flush_if_full x (t\<lparr>lt_memtable := mt_delete key (lt_memtable t)\<rparr>)"

definition insert_batch :: "codecs \<Rightarrow> (key \<times> lsm_value) list \<Rightarrow> (lsm_tree, unit) io" where
  "insert_batch x entries t =
     (if entries = [] then (Inr (), t)
      else flush_if_full x
        (t\<lparr>lt_memtable := fold (\<lambda>(k, v). mt_insert k v) entries (lt_memtable t)\<rparr>))"

definition delete_batch :: "codecs \<Rightarrow> key list \<Rightarrow> (lsm_tree, unit) io" where
  "delete_batch x keys t =
     (if keys = [] then (Inr (), t)
      else flush_if_full x (t\<lparr>lt_memtable := fold mt_delete keys (lt_memtable t)\<rparr>))"

definition tree_flush :: "(lsm_tree, unit) io" where
  "tree_flush t = (Inr (), t)"

section \<open>Reading\<close>

fun search_memtables :: "memtable list \<Rightarrow> key \<Rightarrow> lsm_value option option" where
  "search_memtables [] k = None"
| "search_memtables (m # ms) k =
     (case mt_get m k of Some v \<Rightarrow> Some v | None \<Rightarrow> search_memtables ms k)"

definition search_levels ::
    "codecs \<Rightarrow> disk \<Rightarrow> sst_handle list list \<Rightarrow> key \<Rightarrow> lsm_value option res" where
  "search_levels x d levels k =
     search_runs (\<lambda>h. sst_get x h k d) (covers_key k) (concat (map rev levels))"

definition tree_get :: "codecs \<Rightarrow> lsm_tree \<Rightarrow> key \<Rightarrow> lsm_value option res" where
  "tree_get x t k =
     (case mt_get (lt_memtable t) k of
        Some v \<Rightarrow> Inr v
      | None \<Rightarrow>
          (case search_memtables (rev (lt_immutables t)) k of
             Some v \<Rightarrow> Inr v
           | None \<Rightarrow> search_levels x (tree_disk t) (tree_levels t) k))"

fun get_batch :: "codecs \<Rightarrow> lsm_tree \<Rightarrow> key list \<Rightarrow> lsm_value option list res" where
  "get_batch x t [] = Inr []"
| "get_batch x t (k # ks) =
     res_bind (tree_get x t k) (\<lambda>v. res_bind (get_batch x t ks) (\<lambda>vs. Inr (v # vs)))"

text \<open>\<open>RangeIter\<close>: the collected entries and the position of the next one.\<close>

record range_iter =
  ri_entries :: "(key \<times> lsm_value) list"
  ri_index :: nat

definition range_iter_next :: "range_iter \<Rightarrow> (key \<times> lsm_value) option \<times> range_iter" where
  "range_iter_next it =
     (if ri_index it < length (ri_entries it)
      then (Some (ri_entries it ! ri_index it), it\<lparr>ri_index := ri_index it + 1\<rparr>)
      else (None, it))"

definition live_entries :: "(key, lsm_value option) btree_map \<Rightarrow> (key \<times> lsm_value) list" where
  "live_entries m = List.map_filter (\<lambda>(k, v). map_option (\<lambda>w. (k, w)) v) m"

definition tree_range :: "lsm_tree \<Rightarrow> key \<Rightarrow> key \<Rightarrow> range_iter" where
  "tree_range t lo hi =
     (let runs = concat (map (sort_key h_run_number) (rev (tree_levels t)));
          m0 = merge_skip (\<lambda>h. range_with_tombstones h lo hi Sync (tree_disk t)) runs [];
          m1 = fold (\<lambda>imm m. bt_extend (mt_range imm lo hi) m) (lt_immutables t) m0;
          m2 = bt_extend (mt_range (lt_memtable t) lo hi) m1 in
      \<lparr>ri_entries = live_entries m2, ri_index = 0\<rparr>)"

definition prefix_end :: "byte list \<Rightarrow> byte list" where
  "prefix_end prefix =
     (if prefix = [] then replicate 20 0xFF
      else if last prefix = 0xFF then prefix @ [0]
      else butlast prefix @ [last prefix + 1])"

definition scan_prefix :: "lsm_tree \<Rightarrow> byte list \<Rightarrow> range_iter" where
  "scan_prefix t prefix = tree_range t (Key prefix) (Key (prefix_end prefix))"

definition tree_iter :: "lsm_tree \<Rightarrow> range_iter" where
  "tree_iter t = tree_range t min_scan_key max_scan_key"

section \<open>Compaction\<close>

definition tree_compact :: "codecs \<Rightarrow> (lsm_tree, unit) io" where
  "tree_compact x t =
     on_store (run_compaction x (lt_active_dir t) (lt_max_level t)
       (level0_compaction_trigger (lt_config t))) t"

definition clear_levels :: "nat \<Rightarrow> sst_handle option \<Rightarrow> sst_handle list list \<Rightarrow> sst_handle list list" where
  "clear_levels max_level output levels =
     (map (\<lambda>_. []) levels)[max_level := option_handles output]"

definition compact_all :: "codecs \<Rightarrow> (lsm_tree, unit) io" where
  "compact_all x t =
     (let all_sstables = concat (tree_levels t);
          t1 = t\<lparr>lt_store := clone_in all_sstables (lt_store t)\<rparr> in
      if all_sstables = [] then (Inr (), t)
      else
        (let job = \<lparr>cj_inputs = [0..<length all_sstables], cj_strategy = strategy (lt_config t)\<rparr> in
         case io_bind alloc_run (\<lambda>run_number.
                on_world (compact_job x job all_sstables (lt_active_dir t) run_number)) (lt_store t1) of
           (Inl e, s) \<Rightarrow> (Inl e, t1\<lparr>lt_store := drop_in all_sstables s\<rparr>)
         | (Inr result, s) \<Rightarrow>
             (let cleared = concat (st_levels s);
                  s1 = s\<lparr>st_levels := clear_levels (lt_max_level t) (cr_output result) (st_levels s)\<rparr> in
              (Inr (), t1\<lparr>lt_store := drop_in (cleared @ all_sstables) s1\<rparr>))))"

section \<open>Snapshots in memory\<close>

record lsm_snapshot =
  sn_memtable :: memtable
  sn_immutables :: "memtable list"
  sn_levels :: "sst_handle list list"
  sn_sequence :: nat

definition tree_snapshot :: "lsm_tree \<Rightarrow> lsm_snapshot \<times> lsm_tree" where
  "tree_snapshot t =
     (\<lparr>sn_memtable = lt_memtable t, sn_immutables = lt_immutables t, sn_levels = tree_levels t,
       sn_sequence = lt_sequence t\<rparr>,
      t\<lparr>lt_store := clone_in (concat (tree_levels t)) (lt_store t)\<rparr>)"

text \<open>
  A rollback consumes the snapshot: its levels move into the tree, the levels they replace are
  dropped, or the snapshot is dropped when it is refused.
\<close>

definition tree_rollback :: "lsm_snapshot \<Rightarrow> (lsm_tree, unit) io" where
  "tree_rollback snap t =
     (if lt_sequence t < sn_sequence snap
      then (Inl (InvalidOperation ''Cannot rollback to future snapshot''),
            t\<lparr>lt_store := drop_in (concat (sn_levels snap)) (lt_store t)\<rparr>)
      else
        (let s = lt_store t;
             s1 = s\<lparr>st_levels := sn_levels snap, st_generation := st_generation s + 1\<rparr> in
         (Inr (),
          t\<lparr>lt_memtable := sn_memtable snap, lt_immutables := sn_immutables snap,
            lt_store := drop_in (concat (st_levels s)) s1, lt_sequence := sn_sequence snap\<rparr>)))"

definition snapshot_get :: "codecs \<Rightarrow> disk \<Rightarrow> lsm_snapshot \<Rightarrow> key \<Rightarrow> lsm_value option res" where
  "snapshot_get x d snap k =
     (case mt_get (sn_memtable snap) k of
        Some v \<Rightarrow> Inr v
      | None \<Rightarrow>
          (case search_memtables (rev (sn_immutables snap)) k of
             Some v \<Rightarrow> Inr v
           | None \<Rightarrow> search_levels x d (sn_levels snap) k))"

fun merge_skip_absent :: "('h \<Rightarrow> (key \<times> lsm_value option) list res) \<Rightarrow> 'h list
    \<Rightarrow> (key, lsm_value option) btree_map \<Rightarrow> (key, lsm_value option) btree_map" where
  "merge_skip_absent scan [] m = m"
| "merge_skip_absent scan (h # hs) m =
     merge_skip_absent scan hs (case scan h of Inl _ \<Rightarrow> m | Inr es \<Rightarrow> bt_extend_absent es m)"

definition snapshot_iter :: "disk \<Rightarrow> lsm_snapshot \<Rightarrow> range_iter" where
  "snapshot_iter d snap =
     (let m0 = merge_skip_absent (\<lambda>h. sst_range h min_scan_key max_scan_key Sync d)
                 (concat (rev (sn_levels snap))) [];
          m1 = fold (\<lambda>imm m. bt_extend (mt_iter imm) m) (sn_immutables snap) m0;
          m2 = bt_extend (mt_iter (sn_memtable snap)) m1 in
      \<lparr>ri_entries = live_entries m2, ri_index = 0\<rparr>)"

definition drop_snapshot :: "lsm_snapshot \<Rightarrow> lsm_tree \<Rightarrow> lsm_tree" where
  "drop_snapshot snap t = t\<lparr>lt_store := drop_in (concat (sn_levels snap)) (lt_store t)\<rparr>"

section \<open>Statistics and the end of the tree\<close>

text \<open>The size of every keyops file that \<open>metadata\<close> finds.\<close>

definition disk_usage :: "lsm_tree \<Rightarrow> u64" where
  "disk_usage t =
     sum_list (map (\<lambda>h. case file_contents (tree_disk t) (rp_keyops (h_paths h)) of
                            None \<Rightarrow> 0
                          | Some bs \<Rightarrow> of_nat (length bs)) (concat (tree_levels t)))"

record lsm_stats =
  ls_memtable_size_bytes :: u64
  ls_immutable_memtables_count :: nat
  ls_l0_sstables_count :: nat
  ls_total_sstables_count :: nat
  ls_compactions_running :: nat
  ls_bloom_filter_false_positives :: nat

definition get_stats :: "lsm_tree \<Rightarrow> lsm_stats res" where
  "get_stats t =
     (case tree_levels t of
        [] \<Rightarrow> Inl (Panic ''index out of bounds'')
      | l0 # _ \<Rightarrow> Inr \<lparr>
          ls_memtable_size_bytes = mt_size_bytes (lt_memtable t),
          ls_immutable_memtables_count = length (lt_immutables t),
          ls_l0_sstables_count = length l0,
          ls_total_sstables_count = sum_list (map length (tree_levels t)),
          ls_compactions_running = 0,
          ls_bloom_filter_false_positives = 0\<rparr>)"

text \<open>
  Dropping the tree stops the thread and drops the handles in the levels. The session lock is a
  field of its own, which the model of the tree leaves to its caller (\<open>tree_open\<close> returns it
  beside the tree); the code drops it just before the handles, as \<open>session_lock_drop\<close> does.
\<close>

definition tree_drop :: "lsm_tree \<Rightarrow> lsm_tree" where
  "tree_drop t =
     t\<lparr>lt_shutdown := True,
       lt_store := drop_in (concat (tree_levels t)) ((lt_store t)\<lparr>st_levels := []\<rparr>)\<rparr>"

end
