(* ===== verification/LevelView.thy ===== *)
theory LevelView
  imports Compaction
begin

text \<open>
  The map a disk and the levels stand for: within a level the run with the higher number
  decides, between levels the lower level does. \<open>levels_map\<close> is the abstract value of the
  shared levels; the flush and the compactions are stated as what they do to it.
\<close>

section \<open>Maps of runs and levels\<close>

text \<open>The entries of a run, read back through the scan up to its own greatest key.\<close>

definition entries_of :: "disk \<Rightarrow> sst_handle \<Rightarrow> (key \<times> lsm_value option) list" where
  "entries_of d h =
     (case range_with_tombstones h min_scan_key (h_max_key h) Sync d of
        Inl _ \<Rightarrow> []
      | Inr es \<Rightarrow> es)"

definition run_map :: "disk \<Rightarrow> sst_handle \<Rightarrow> key \<rightharpoonup> lsm_value option" where
  "run_map d h = bt_get (entries_of d h)"

definition newest_first :: "sst_handle list \<Rightarrow> sst_handle list" where
  "newest_first level = rev (sort_key h_run_number level)"

definition level_map :: "disk \<Rightarrow> sst_handle list \<Rightarrow> key \<rightharpoonup> lsm_value option" where
  "level_map d level = overlay (map (run_map d) (newest_first level))"

definition levels_map :: "disk \<Rightarrow> sst_handle list list \<Rightarrow> key \<rightharpoonup> lsm_value option" where
  "levels_map d levels = overlay (map (level_map d) levels)"

text \<open>The values a reader sees, and a map without its tombstones.\<close>

definition live :: "(key \<rightharpoonup> lsm_value option) \<Rightarrow> key \<rightharpoonup> lsm_value" where
  "live m k = Option.bind (m k) id"

definition live_only :: "(key \<rightharpoonup> lsm_value option) \<Rightarrow> key \<rightharpoonup> lsm_value option" where
  "live_only m k = map_option Some (live m k)"

lemma entries_of_ok:
  assumes "table_ok x d h es"
  shows "entries_of d h = es"
proof -
  have wf: "bt_wf es" and max: "h_max_key h = fst (last es)"
    using assms by (auto simp: table_ok_def)
  have "bt_range min_scan_key (h_max_key h) es = es"
    using bt_wf_bounds [OF wf] by (auto simp: bt_range_def max filter_id_conv)
  then show ?thesis by (simp add: entries_of_def sst.scan_repr [OF assms])
qed

lemma entries_of_run: "run_ok x d h es \<Longrightarrow> entries_of d h = es"
  by (rule entries_of_ok [OF run_ok_table])

lemma run_ok_entries: "\<exists>es. run_ok x d h es \<Longrightarrow> run_ok x d h (entries_of d h)"
  using entries_of_run by auto

lemma same_runs_map:
  assumes "same_runs x w w' M" and "runs_ok x dir n w M" and "h \<in># M"
  shows "run_map (w_disk w') h = run_map (w_disk w) h"
proof -
  obtain es where "run_ok x (w_disk w) h es" using assms by (auto simp: runs_ok_def)
  moreover from this have "run_ok x (w_disk w') h es" using assms by (auto simp: same_runs_def)
  ultimately show ?thesis by (simp add: run_map_def entries_of_run)
qed

lemma set_newest_first [simp]: "set (newest_first level) = set level"
  by (simp add: newest_first_def)

lemma level_map_cong:
  "(\<And>h. h \<in> set level \<Longrightarrow> run_map d' h = run_map d h) \<Longrightarrow> level_map d' level = level_map d level"
  unfolding level_map_def by (intro arg_cong [of _ _ overlay] map_cong refl) simp

lemma levels_map_cong:
  "(\<And>h. h \<in> set (concat levels) \<Longrightarrow> run_map d' h = run_map d h) \<Longrightarrow>
   levels_map d' levels = levels_map d levels"
  unfolding levels_map_def
  by (intro arg_cong [of _ _ overlay] map_cong refl level_map_cong) auto

section \<open>Ordering by run number\<close>

lemma sort_key_append:
  assumes "\<forall>a \<in> set xs. \<forall>b \<in> set ys. f a \<le> f b"
  shows "sort_key f (xs @ ys) = sort_key f xs @ sort_key f ys"
proof (rule properties_for_sort_key)
  show "sorted (map f (sort_key f xs @ sort_key f ys))"
    using assms by (auto simp: sorted_append)
next
  fix k
  have "filter (\<lambda>x. f k = f x) (sort_key f zs) = filter (\<lambda>x. f k = f x) zs" for zs
    using sort_key_stable [of f "f k" zs] by (simp add: eq_commute)
  then show "filter (\<lambda>x. f k = f x) (sort_key f xs @ sort_key f ys) = filter (\<lambda>x. f k = f x) (xs @ ys)"
    by simp
qed simp

lemma level_map_Nil [simp]: "level_map d [] = Map.empty"
  by (simp add: level_map_def newest_first_def)

lemma level_map_single [simp]: "level_map d [h] = run_map d h"
  by (simp add: level_map_def newest_first_def)

lemma level_map_append:
  assumes "\<forall>a \<in> set xs. \<forall>b \<in> set ys. h_run_number a \<le> h_run_number b"
  shows "level_map d (xs @ ys) = level_map d xs ++ level_map d ys"
  by (simp add: level_map_def newest_first_def sort_key_append [OF assms] overlay_append)

lemma level_map_snoc:
  "\<forall>a \<in> set xs. h_run_number a \<le> h_run_number h \<Longrightarrow>
   level_map d (xs @ [h]) = level_map d xs ++ run_map d h"
  by (simp add: level_map_append)

lemma levels_map_Nil [simp]: "levels_map d [] = Map.empty"
  by (simp add: levels_map_def)

lemma levels_map_Cons [simp]: "levels_map d (l # ls) = levels_map d ls ++ level_map d l"
  by (simp add: levels_map_def)

lemma levels_map_append [simp]: "levels_map d (xs @ ys) = levels_map d ys ++ levels_map d xs"
  by (simp add: levels_map_def overlay_append)

text \<open>Levels around two neighbouring ones.\<close>

lemma split_levels:
  assumes "Suc i < length ls"
  shows "ls = take i ls @ ls ! i # ls ! Suc i # drop (Suc (Suc i)) ls"
  using assms by (simp add: Cons_nth_drop_Suc)

lemma levels_map_at:
  assumes "Suc i < length ls"
  shows "levels_map d (ls[i := a, Suc i := b]) =
    levels_map d (drop (Suc (Suc i)) ls) ++ level_map d b ++ level_map d a ++ levels_map d (take i ls)"
proof -
  have "ls[i := a, Suc i := b] = take i ls @ a # b # drop (Suc (Suc i)) ls"
    using assms by (simp add: upd_conv_take_nth_drop take_Suc_conv_app_nth list_update_append nth_append
        Cons_nth_drop_Suc [symmetric] flip: append.assoc)
  then show ?thesis by simp
qed

section \<open>Live values\<close>

lemma live_map_add: "live (a ++ b) k = (case b k of None \<Rightarrow> live a k | Some v \<Rightarrow> v)"
  by (auto simp: live_def map_add_def split: option.split)

lemma live_live_only [simp]: "live (live_only a) = live a"
proof
  fix k
  show "live (live_only a) k = live a k"
    by (cases "live a k") (simp_all add: live_def [of "live_only a"] live_only_def)
qed

lemma live_only_below: "live (live_only a ++ b) = live (a ++ b)"
  unfolding fun_eq_iff live_map_add live_live_only by simp

lemma live_empty [simp]: "live Map.empty = Map.empty"
  by (simp add: fun_eq_iff live_def)

lemma retain_live_wf [simp]: "bt_wf m \<Longrightarrow> bt_wf (retain_live m)"
  by (simp add: retain_live_def)

lemma bt_get_retain_live:
  assumes "bt_wf m"
  shows "bt_get (retain_live m) = live_only (bt_get m)"
  using bt_get_filter_value [OF assms, of "\<lambda>v. v \<noteq> None"]
  by (auto simp: fun_eq_iff retain_live_def live_only_def live_def split: option.split)

end
