(* ===== verification/Compaction_Correct.thy ===== *)
theory Compaction_Correct
  imports LevelView
begin

text \<open>
  What compaction does to the map the levels stand for. The merge of a level is the level's
  map; replacing the source runs by the merged run keeps the map of all levels, also when
  other runs were flushed into the source level in the meantime; at the bottom level it keeps
  what a reader sees. A result computed before a rollback is discarded.
\<close>

section \<open>Sizes\<close>

abbreviation blob_len :: "(key \<times> lsm_value option) list \<Rightarrow> nat" where
  "blob_len es \<equiv> length (enc_blobs es)"

definition run_bytes :: "disk \<Rightarrow> sst_handle \<Rightarrow> nat" where
  "run_bytes d h = blob_len (entries_of d h)"

text \<open>
  The runs can be merged into one: the full scan reaches all their keys, and their values
  together fit the 64-bit offsets of one blobs file.
\<close>

definition mergeable :: "disk \<Rightarrow> sst_handle list \<Rightarrow> bool" where
  "mergeable d hs \<longleftrightarrow>
     (\<forall>h \<in> set hs. \<forall>(k, v) \<in> set (entries_of d h). scannable k)
     \<and> sum_list (map (run_bytes d) hs) < 2 ^ 64"

lemma blob_len_insert: "blob_len (bt_insert k v m) \<le> blob_len m + opt_size v"
  by (induction k v m rule: bt_insert.induct) auto

lemma blob_len_extend: "blob_len (bt_extend es m) \<le> blob_len m + blob_len es"
proof (induction es arbitrary: m)
  case (Cons e es)
  obtain k v where e: "e = (k, v)" by (cases e)
  from Cons [of "bt_insert k v m"] blob_len_insert [of k v m] show ?case
    by (simp add: bt_extend_def e)
qed (simp add: bt_extend_def)

lemma blob_len_extend_absent: "blob_len (bt_extend_absent es m) \<le> blob_len m + blob_len es"
proof (induction es arbitrary: m)
  case (Cons e es)
  obtain k v where e: "e = (k, v)" by (cases e)
  from Cons [of "bt_or_insert k v m"] blob_len_insert [of k v m] show ?case
    by (auto simp: bt_extend_absent_def bt_or_insert_def e split: option.splits)
qed (simp add: bt_extend_absent_def)

lemma blob_len_filter: "blob_len (filter P m) \<le> blob_len m"
  by (induction m rule: enc_blobs.induct) auto

definition small_keys :: "(key \<times> lsm_value option) list \<Rightarrow> bool" where
  "small_keys es \<longleftrightarrow> (\<forall>(k, v) \<in> set es. key_size k < 2 ^ 32)"

lemma fits_iff: "fits es \<longleftrightarrow> small_keys es \<and> blob_len es < 2 ^ 64"
  by (simp add: fits_def small_keys_def)

lemma set_bt_insert: "set (bt_insert k v m) \<subseteq> insert (k, v) (set m)"
  by (induction k v m rule: bt_insert.induct) auto

lemma small_keys_insert: "small_keys m \<Longrightarrow> key_size k < 2 ^ 32 \<Longrightarrow> small_keys (bt_insert k v m)"
  using set_bt_insert [of k v m] by (fastforce simp: small_keys_def)

lemma small_keys_extend: "small_keys m \<Longrightarrow> small_keys es \<Longrightarrow> small_keys (bt_extend es m)"
proof (induction es arbitrary: m)
  case (Cons e es)
  then show ?case by (cases e) (auto simp: bt_extend_def small_keys_insert small_keys_def [of "_ # _"]
        small_keys_def [of es])
qed (simp add: bt_extend_def)

lemma small_keys_extend_absent: "small_keys m \<Longrightarrow> small_keys es \<Longrightarrow> small_keys (bt_extend_absent es m)"
proof (induction es arbitrary: m)
  case (Cons e es)
  obtain k v where e: "e = (k, v)" by (cases e)
  with Cons.prems have "small_keys (bt_or_insert k v m)" "small_keys es"
    by (auto simp: bt_or_insert_def small_keys_def [of "_ # _"] small_keys_def [of es]
        intro: small_keys_insert split: option.splits)
  from Cons.IH [OF this] show ?case by (simp add: bt_extend_absent_def e)
qed (simp add: bt_extend_absent_def)

lemma small_keys_filter: "small_keys m \<Longrightarrow> small_keys (filter P m)"
  by (auto simp: small_keys_def)

section \<open>Merging runs that are present\<close>

definition present :: "codecs \<Rightarrow> disk \<Rightarrow> sst_handle list \<Rightarrow> bool" where
  "present x d hs \<longleftrightarrow> (\<forall>h \<in> set hs. \<exists>es. run_ok x d h es)"

lemma present_runs_ok: "runs_ok x dir n w M \<Longrightarrow> set hs \<subseteq> set_mset M \<Longrightarrow> present x (w_disk w) hs"
  by (auto simp: present_def runs_ok_def)

lemma present_repr:
  "present x d hs \<Longrightarrow> list_all2 (table_ok x d) hs (map (entries_of d) hs)"
  by (auto simp: present_def list_all2_map2 list_all2_same entries_of_run run_ok_def
      dest: run_ok_entries)

lemma full_scan_eq: "full_scan d = (\<lambda>h. range_with_tombstones h min_scan_key max_scan_key Sync d)"
  by (simp add: fun_eq_iff full_scan_def)

lemma overlay_scannable:
  assumes "\<forall>h \<in> set hs. \<forall>(k, v) \<in> set (entries_of d h). scannable k"
  shows "overlay (map (run_map d) hs) |` {min_scan_key..max_scan_key} = overlay (map (run_map d) hs)"
  using assms
proof (induction hs)
  case (Cons h hs)
  have "k \<le> max_scan_key" if "run_map d h k = Some v" for k v
    using Cons.prems that
    by (auto simp: run_map_def bt_get_def scannable_def dest: map_of_SomeD)
  then have "run_map d h |` {min_scan_key..max_scan_key} = run_map d h"
    by (auto simp: fun_eq_iff restrict_map_def) (metis not_Some_eq)
  moreover have "(a ++ b) |` A = a |` A ++ b |` A" for a b :: "key \<rightharpoonup> lsm_value option" and A
    by (auto simp: fun_eq_iff restrict_map_def map_add_def)
  ultimately show ?case using Cons by simp
qed simp

lemma merge_newer_size:
  assumes "present x d hs" and "small_keys m"
    and "merge_newer (full_scan d) hs m = Inr m'"
  shows "blob_len m' \<le> blob_len m + sum_list (map (run_bytes d) hs) \<and> small_keys m'"
  using assms
proof (induction hs arbitrary: m)
  case (Cons h hs)
  obtain es where es: "run_ok x d h es" using Cons.prems by (auto simp: present_def)
  let ?r = "bt_range min_scan_key max_scan_key es"
  have scan: "full_scan d h = Inr ?r"
    by (simp add: full_scan_eq sst.scan_repr [OF run_ok_table [OF es]])
  have r: "blob_len ?r \<le> run_bytes d h" "small_keys ?r"
    using run_ok_fits [OF es]
    by (auto simp: bt_range_def run_bytes_def entries_of_run [OF es] blob_len_filter fits_iff
        small_keys_filter)
  have "present x d hs" using Cons.prems by (simp add: present_def)
  from Cons.IH [OF this small_keys_extend [OF Cons.prems(2) r(2)]] Cons.prems(3) scan r
    blob_len_extend [of ?r m]
  show ?case by auto
qed simp

lemma merge_absent_size:
  assumes "present x d hs" and "small_keys m"
    and "merge_absent (full_scan d) hs m = Inr m'"
  shows "blob_len m' \<le> blob_len m + sum_list (map (run_bytes d) hs) \<and> small_keys m'"
  using assms
proof (induction hs arbitrary: m)
  case (Cons h hs)
  obtain es where es: "run_ok x d h es" using Cons.prems by (auto simp: present_def)
  let ?r = "bt_range min_scan_key max_scan_key es"
  have scan: "full_scan d h = Inr ?r"
    by (simp add: full_scan_eq sst.scan_repr [OF run_ok_table [OF es]])
  have r: "blob_len ?r \<le> run_bytes d h" "small_keys ?r"
    using run_ok_fits [OF es]
    by (auto simp: bt_range_def run_bytes_def entries_of_run [OF es] blob_len_filter fits_iff
        small_keys_filter)
  have "present x d hs" using Cons.prems by (simp add: present_def)
  from Cons.IH [OF this small_keys_extend_absent [OF Cons.prems(2) r(2)]] Cons.prems(3) scan r
    blob_len_extend_absent [of ?r m]
  show ?case by auto
qed simp

text \<open>Oldest first, the merge of some runs is the map of these runs as a level.\<close>

lemma merge_sources:
  assumes p: "present x d hs" and "mergeable d hs"
  obtains m where "merge_newer (full_scan d) (sort_key h_run_number hs) [] = Inr m" and "bt_wf m"
    and "bt_get m = level_map d hs" and "small_keys m"
    and "blob_len m \<le> sum_list (map (run_bytes d) hs)"
proof -
  let ?hs = "sort_key h_run_number hs"
  have p': "present x d ?hs" using p by (simp add: present_def)
  from sst.newer [OF present_repr [OF p'], of "[]" min_scan_key max_scan_key] obtain m where
    m: "merge_newer (full_scan d) ?hs [] = Inr m" "bt_wf m"
      "bt_get m = overlay (map (run_map d) (newest_first hs)) |` {min_scan_key..max_scan_key}"
    by (auto simp: full_scan_eq newest_first_def rev_map run_map_def [abs_def] comp_def
        empty_def [symmetric] bt_get_def [of "[]", abs_def])
  have "bt_get m = level_map d hs"
    using assms(2) overlay_scannable [of "newest_first hs" d]
    by (simp add: m(3) level_map_def mergeable_def)
  moreover have "blob_len m \<le> sum_list (map (run_bytes d) ?hs) \<and> small_keys m"
    using merge_newer_size [OF p' _ m(1)] by (simp add: small_keys_def)
  moreover have "sum_list (map (run_bytes d) ?hs) = sum_list (map (run_bytes d) hs)"
    by (metis mset_map mset_sort sum_mset_sum_list)
  ultimately show thesis using m by (intro that) auto
qed

lemma merge_target:
  assumes p: "present x d hs" and scan: "\<forall>h \<in> set hs. \<forall>(k, v) \<in> set (entries_of d h). scannable k"
    and m: "bt_wf m" "small_keys m"
  obtains m' where "merge_absent (full_scan d) hs m = Inr m'" and "bt_wf m'"
    and "bt_get m' = overlay (map (run_map d) hs) ++ bt_get m" and "small_keys m'"
    and "blob_len m' \<le> blob_len m + sum_list (map (run_bytes d) hs)"
proof -
  from sst.absent [OF present_repr [OF p] m(1), of min_scan_key max_scan_key] obtain m' where
    m': "merge_absent (full_scan d) hs m = Inr m'" "bt_wf m'"
      "bt_get m' = overlay (map (run_map d) hs) |` {min_scan_key..max_scan_key} ++ bt_get m"
    by (auto simp: full_scan_eq run_map_def [abs_def] comp_def)
  with merge_absent_size [OF p m(2) m'(1)] overlay_scannable [OF scan] show thesis
    by (intro that [of m']) auto
qed

section \<open>Executing a job\<close>

text \<open>
  What is known after a job wrote its result, \<open>m\<close> being the map of the entries it merged.
\<close>

definition output_ok ::
    "codecs \<Rightarrow> path \<Rightarrow> nat \<Rightarrow> world \<Rightarrow> sst_handle multiset \<Rightarrow> (key \<rightharpoonup> lsm_value option) \<Rightarrow> compaction_result
     \<Rightarrow> world \<Rightarrow> bool" where
  "output_ok x dir n w M m r w' \<longleftrightarrow>
     same_runs x w w' M
     \<and> (case cr_output r of
          None \<Rightarrow> w' = w \<and> m = Map.empty
        | Some h \<Rightarrow> runs_ok x dir (Suc n) w' (add_mset h M) \<and> run_map (w_disk w') h = m
            \<and> m \<noteq> Map.empty \<and> h_run_number h = n)"

lemma bt_get_empty_iff: "bt_get m = Map.empty \<longleftrightarrow> m = []"
  by (cases m) (auto simp: bt_get_eq fun_eq_iff split: if_splits)

lemma write_result_total:
  assumes r: "runs_ok x dir n w M" and total: "codecs_total x" and m: "bt_wf m" "fits m"
  obtains r w' where "write_result x dir n m level inputs w = (Inr r, w')"
    and "output_ok x dir n w M (bt_get m) r w'" and "cr_inputs_to_remove r = inputs"
proof (cases "m = []")
  case True
  then show thesis
    by (intro that [of "\<lparr>cr_output = None, cr_inputs_to_remove = inputs, cr_bytes_read = 0,
          cr_bytes_written = 0\<rparr>" w])
      (simp_all add: write_result_def output_ok_def bt_get_empty_iff)
next
  case False
  from write_run_total [OF r total False m, of level] obtain h w' where
    h: "write_run x dir n m level w = (Inr h, w')" "runs_ok x dir (Suc n) w' (add_mset h M)"
      "same_runs x w w' M" "run_ok x (w_disk w') h m" "h_run_number h = n"
    by blast
  with False show thesis
    by (intro that [of "\<lparr>cr_output = Some h, cr_inputs_to_remove = inputs,
          cr_bytes_read = entries_bytes m, cr_bytes_written = entries_bytes m\<rparr>" w'])
      (simp_all add: write_result_def output_ok_def result_simps bt_get_empty_iff run_map_def
        entries_of_run)
qed

lemma map_insort_key: "map f (insort_key (\<lambda>a. g (f a)) x ys) = insort_key g (f x) (map f ys)"
  by (induction ys) auto

lemma map_sort_key: "map f (sort_key (\<lambda>a. g (f a)) xs) = sort_key g (map f xs)"
  by (induction xs) (simp_all add: map_insort_key)

lemma runs_by_number_all:
  "runs_by_number runs [0..<length runs] = Inr (sort_key h_run_number runs)"
proof -
  have "map (\<lambda>i. runs ! i) (sort_key (\<lambda>i. h_run_number (runs ! i)) [0..<length runs]) =
      sort_key h_run_number (map (\<lambda>i. runs ! i) [0..<length runs])"
    by (rule map_sort_key)
  then show ?thesis by (simp add: runs_by_number_def map_nth)
qed

definition merged_map :: "disk \<Rightarrow> level_job \<Rightarrow> sst_handle list \<Rightarrow> nat \<Rightarrow> key \<rightharpoonup> lsm_value option" where
  "merged_map d job source max_level =
     (if lj_target_level job = max_level
      then live_only (overlay (map (run_map d) (lj_target_level_runs job)) ++ level_map d source)
      else level_map d source)"

lemma mergeable_append:
  "mergeable d (xs @ ys) \<Longrightarrow> mergeable d xs" "mergeable d (xs @ ys) \<Longrightarrow> mergeable d ys"
  by (auto simp: mergeable_def)

lemma compact_levels_total:
  assumes r: "runs_ok x dir n w M" and total: "codecs_total x"
    and sub: "set source \<subseteq> set_mset M" "set (lj_target_level_runs job) \<subseteq> set_mset M"
    and all: "lj_source_runs job = [0..<length source]"
    and size: "mergeable (w_disk w) (source @ lj_target_level_runs job)"
  obtains r w' where "compact_levels x job source dir n max_level w = (Inr r, w')"
    and "output_ok x dir n w M (merged_map (w_disk w) job source max_level) r w'"
    and "cr_inputs_to_remove r = [0..<length source]"
proof -
  let ?d = "w_disk w" and ?t = "lj_target_level_runs job"
  have p: "present x ?d source" "present x ?d ?t" using r sub by (auto intro: present_runs_ok)
  obtain m where m: "merge_newer (full_scan ?d) (sort_key h_run_number source) [] = Inr m"
      "bt_wf m" "bt_get m = level_map ?d source" "small_keys m"
      "blob_len m \<le> sum_list (map (run_bytes ?d) source)"
    using merge_sources [OF p(1) mergeable_append(1) [OF size]] by blast
  have sum: "sum_list (map (run_bytes ?d) source) + sum_list (map (run_bytes ?d) ?t) < 2 ^ 64"
    using size by (simp add: mergeable_def)
  show thesis
  proof (cases "lj_target_level job = max_level")
    case True
    have "\<forall>h \<in> set ?t. \<forall>(k, v) \<in> set (entries_of ?d h). scannable k"
      using size by (auto simp: mergeable_def)
    from merge_target [OF p(2) this m(2,4)] obtain m' where
      m': "merge_absent (full_scan ?d) ?t m = Inr m'" "bt_wf m'" "small_keys m'"
        "bt_get m' = overlay (map (run_map ?d) ?t) ++ bt_get m"
        "blob_len m' \<le> blob_len m + sum_list (map (run_bytes ?d) ?t)"
      by blast
    let ?m = "retain_live m'"
    have "fits ?m"
      using m' m(5) sum blob_len_filter [of "\<lambda>(k, v). v \<noteq> None" m']
      by (auto simp: fits_iff retain_live_def small_keys_filter)
    then obtain r w' where "write_result x dir n ?m (lj_target_level job) (lj_source_runs job) w = (Inr r, w')"
        "output_ok x dir n w M (bt_get ?m) r w'" "cr_inputs_to_remove r = lj_source_runs job"
      using write_result_total [OF r total, of ?m "lj_target_level job" "lj_source_runs job"] m'(2)
      by auto
    then show thesis
      using True m m' all
      by (intro that [of r w'])
        (simp_all add: compact_levels_def runs_by_number_all result_simps bt_get_retain_live
          merged_map_def io_bind_def)
  next
    case False
    have "fits m" using m sum by (auto simp: fits_iff)
    then obtain r w' where "write_result x dir n m (lj_target_level job) (lj_source_runs job) w = (Inr r, w')"
        "output_ok x dir n w M (bt_get m) r w'" "cr_inputs_to_remove r = lj_source_runs job"
      using write_result_total [OF r total, of m "lj_target_level job" "lj_source_runs job"] m(2)
      by auto
    then show thesis
      using False m all
      by (intro that [of r w'])
        (simp_all add: compact_levels_def runs_by_number_all result_simps merged_map_def io_bind_def)
  qed
qed

lemma compact_job_total:
  assumes r: "runs_ok x dir n w M" and total: "codecs_total x" and sub: "set runs \<subseteq> set_mset M"
    and all: "cj_inputs job = [0..<length runs]" and size: "mergeable (w_disk w) runs"
  obtains r w' where "compact_job x job runs dir n w = (Inr r, w')"
    and "output_ok x dir n w M (live_only (level_map (w_disk w) runs)) r w'"
proof -
  let ?d = "w_disk w"
  obtain m where m: "merge_newer (full_scan ?d) (sort_key h_run_number runs) [] = Inr m"
      "bt_wf m" "bt_get m = level_map ?d runs" "small_keys m"
      "blob_len m \<le> sum_list (map (run_bytes ?d) runs)"
    using merge_sources [OF present_runs_ok [OF r sub] size] by blast
  let ?m = "retain_live m"
  have "fits ?m"
    using m size blob_len_filter [of "\<lambda>(k, v). v \<noteq> None" m]
    by (auto simp: fits_iff retain_live_def small_keys_filter mergeable_def)
  then obtain r w' where "write_result x dir n ?m 0 (cj_inputs job) w = (Inr r, w')"
      "output_ok x dir n w M (bt_get ?m) r w'" "cr_inputs_to_remove r = cj_inputs job"
    using write_result_total [OF r total, of ?m 0 "cj_inputs job"] m(2) by auto
  then show thesis
    using m all
    by (intro that [of r w'])
      (simp_all add: compact_job_def runs_by_number_all result_simps bt_get_retain_live Let_def io_bind_def)
qed

end
