(* ===== verification/Compaction_Commit.thy ===== *)
theory Compaction_Commit
  imports Compaction_Correct
begin

text \<open>
  The write-back of a compaction and the whole round. Between \<open>compaction_begin\<close> and
  \<open>compaction_commit\<close> the levels may have grown at the end of L0 (\<open>levels_grew\<close>) or have been
  replaced by a rollback, which the generation counter shows. In the first case the commit
  keeps the map of the levels; in the second it changes nothing.
\<close>

section \<open>List lemmas\<close>

lemma remove_all_at_prefix:
  "n \<le> length xs \<Longrightarrow> remove_all_at (rev [0..<n]) xs = (rev (take n xs), drop n xs)"
proof (induction n arbitrary: xs)
  case (Suc n)
  then have n: "n < length xs" by simp
  let ?ys = "take n xs @ drop (Suc n) xs"
  have "remove_all_at (rev [0..<n]) ?ys = (rev (take n xs), drop (Suc n) xs)"
    using Suc.IH [of ?ys] n by simp
  then show ?case using n by (simp add: take_Suc_conv_app_nth)
qed simp

lemma mset_concat_update:
  "i < length xs \<Longrightarrow> mset (concat (xs[i := a])) + mset (xs ! i) = mset (concat xs) + mset a"
proof (induction xs arbitrary: i)
  case (Cons x xs)
  show ?case
  proof (cases i)
    case 0
    then show ?thesis by (simp add: ac_simps)
  next
    case (Suc j)
    then show ?thesis using Cons.IH [of j] Cons.prems by (simp add: add.assoc)
  qed
qed simp

lemma mset_exchange:
  fixes a :: "'a multiset"
  assumes "a + t = u + b" and "u + s = l" and "b + c = t + out"
  shows "a + s + c = l + out"
proof (rule multiset_eqI)
  fix x
  have "count a x + count t x = count u x + count b x" using assms(1) by (metis count_union)
  moreover have "count u x + count s x = count l x" using assms(2) by (metis count_union)
  moreover have "count b x + count c x = count t x + count out x" using assms(3) by (metis count_union)
  ultimately show "count (a + s + c) x = count (l + out) x" by simp
qed

section \<open>The shared state\<close>

definition store_ok :: "codecs \<Rightarrow> path \<Rightarrow> nat \<Rightarrow> store \<Rightarrow> sst_handle multiset \<Rightarrow> bool" where
  "store_ok x dir max_level s M \<longleftrightarrow>
     runs_ok x dir (st_next_run s) (st_world s) (mset (concat (st_levels s)) + M)
     \<and> length (st_levels s) = Suc max_level \<and> 1 \<le> max_level
     \<and> length (st_levels s ! max_level) \<le> 1"

definition levels_ordered :: "sst_handle list list \<Rightarrow> bool" where
  "levels_ordered levels \<longleftrightarrow> (\<forall>level \<in> set levels. sorted (map h_run_number level))"

definition store_map :: "store \<Rightarrow> key \<rightharpoonup> lsm_value option" where
  "store_map s = levels_map (w_disk (st_world s)) (st_levels s)"

text \<open>The new levels are the old ones with later runs at the end of L0.\<close>

definition levels_grew :: "sst_handle list list \<Rightarrow> sst_handle list list \<Rightarrow> bool" where
  "levels_grew old new \<longleftrightarrow>
     (\<exists>extra. old \<noteq> [] \<and> new = (hd old @ extra) # tl old
        \<and> (\<forall>a \<in> set (concat old). \<forall>b \<in> set extra. h_run_number a < h_run_number b))"

definition job_ok :: "nat \<Rightarrow> pending \<Rightarrow> bool" where
  "job_ok max_level p \<longleftrightarrow>
     (let job = pd_job p; i = lj_source_level job in
      length (pd_levels p) = Suc max_level \<and> i < max_level \<and> lj_target_level job = Suc i
      \<and> pd_source p = pd_levels p ! i \<and> lj_source_runs job = [0..<length (pd_source p)]
      \<and> lj_target_level_runs job = pd_levels p ! Suc i
      \<and> length (pd_levels p ! max_level) \<le> 1)"

definition pending_ok :: "nat \<Rightarrow> pending \<Rightarrow> store \<Rightarrow> bool" where
  "pending_ok max_level p s \<longleftrightarrow>
     job_ok max_level p \<and> pd_generation p \<le> st_generation s
     \<and> (st_generation s = pd_generation p \<longrightarrow> levels_grew (pd_levels p) (st_levels s))"

lemma levels_grew_nth:
  assumes "levels_grew old new" and "i < length old"
  obtains suf where "new ! i = old ! i @ suf"
    and "\<forall>a \<in> set (concat old). \<forall>b \<in> set suf. h_run_number a < h_run_number b"
    and "i \<noteq> 0 \<longrightarrow> suf = []" and "length new = length old"
proof -
  from assms obtain extra where e: "old \<noteq> []" "new = (hd old @ extra) # tl old"
      "\<forall>a \<in> set (concat old). \<forall>b \<in> set extra. h_run_number a < h_run_number b"
    by (auto simp: levels_grew_def)
  show thesis
  proof (cases i)
    case 0
    with e show thesis by (intro that [of extra]) (auto simp: hd_conv_nth)
  next
    case (Suc j)
    with e assms(2) show thesis by (intro that [of "[]"]) (auto simp: nth_tl)
  qed
qed

lemma runs_ok_mono:
  "runs_ok x dir n w M \<Longrightarrow> n \<le> m \<Longrightarrow> runs_ok x dir m w M"
  by (auto simp: runs_ok_def)

section \<open>The write-back\<close>

definition commit_levels :: "nat \<Rightarrow> sst_handle option \<Rightarrow> sst_handle list \<Rightarrow> nat \<Rightarrow> sst_handle list list
    \<Rightarrow> sst_handle list list" where
  "commit_levels max_level out suf i ls =
     ls[i := suf, Suc i :=
          (case out of None \<Rightarrow> ls ! Suc i
           | Some h \<Rightarrow> if Suc i = max_level then [h] else ls ! Suc i @ [h])]"

lemma commit_eq:
  assumes gen: "st_generation s = pd_generation p" and job: "job_ok max_level p"
    and grew: "levels_grew (pd_levels p) (st_levels s)"
    and inputs: "cr_inputs_to_remove r = [0..<length (pd_source p)]"
  obtains suf cleared where
    "compaction_commit max_level p r s =
       (Inr (), drop_in (rev (pd_source p) @ cleared @ pending_handles p)
          (s\<lparr>st_levels := commit_levels max_level (cr_output r) suf
                (lj_source_level (pd_job p)) (st_levels s)\<rparr>))"
    and "st_levels s ! lj_source_level (pd_job p) = pd_source p @ suf"
    and "\<forall>a \<in> set (pd_source p). \<forall>b \<in> set suf. h_run_number a < h_run_number b"
    and "mset (concat (commit_levels max_level (cr_output r) suf (lj_source_level (pd_job p))
            (st_levels s))) + mset (pd_source p) + mset cleared =
         mset (concat (st_levels s)) + mset (option_handles (cr_output r))"
    and "st_levels s ! Suc (lj_source_level (pd_job p)) = lj_target_level_runs (pd_job p)"
    and "length (st_levels s) = Suc max_level"
proof -
  let ?i = "lj_source_level (pd_job p)" and ?ls = "st_levels s" and ?out = "cr_output r"
  from job have j: "length (pd_levels p) = Suc max_level" "?i < max_level"
      "lj_target_level (pd_job p) = Suc ?i" "pd_source p = pd_levels p ! ?i"
      "lj_target_level_runs (pd_job p) = pd_levels p ! Suc ?i"
    by (auto simp: job_ok_def Let_def)
  then have i: "?i < length (pd_levels p)" "Suc ?i < length (pd_levels p)" by auto
  obtain suf where
    suf: "?ls ! ?i = pd_levels p ! ?i @ suf"
      "\<forall>a \<in> set (concat (pd_levels p)). \<forall>b \<in> set suf. h_run_number a < h_run_number b"
      "?i \<noteq> 0 \<longrightarrow> suf = []" "length ?ls = length (pd_levels p)"
    by (rule levels_grew_nth [OF grew i(1)])
  have target: "?ls ! Suc ?i = pd_levels p ! Suc ?i"
    by (rule levels_grew_nth [OF grew i(2)]) simp
  have len: "?i < length ?ls" "Suc ?i < length ?ls" using suf(4) i by auto
  define cleared where "cleared = (if ?out \<noteq> None \<and> Suc ?i = max_level then ?ls ! Suc ?i else [])"
  let ?new = "commit_levels max_level ?out suf ?i ?ls"
  have "rev (sort (cr_inputs_to_remove r)) = rev [0..<length (pd_source p)]"
    by (simp add: inputs sorted_sort_id)
  then have remove: "remove_all_at (rev (sort (cr_inputs_to_remove r))) (?ls ! ?i) =
      (rev (pd_source p), suf)"
    using suf(1) j(4) by (simp add: remove_all_at_prefix)
  have install: "install_output (Suc ?i) max_level ?out (?ls[?i := suf]) = (cleared, ?new)"
  proof -
    have "?ls[?i := suf, Suc ?i := ?ls ! Suc ?i] = ?ls[?i := suf]"
      by (metis list_update_id n_not_Suc_n nth_list_update_neq)
    then show ?thesis
      using len by (auto simp: install_output_def commit_levels_def cleared_def split: option.split)
  qed
  have "compaction_commit max_level p r s =
       (Inr (), drop_in (rev (pd_source p) @ cleared @ pending_handles p) (s\<lparr>st_levels := ?new\<rparr>))"
    using gen len j(3) remove install by (simp add: compaction_commit_def Let_def)
  moreover have "mset (concat ?new) + mset (pd_source p) + mset cleared =
      mset (concat ?ls) + mset (option_handles ?out)"
  proof -
    let ?b = "case ?out of None \<Rightarrow> ?ls ! Suc ?i
           | Some h \<Rightarrow> if Suc ?i = max_level then [h] else ?ls ! Suc ?i @ [h]"
    have 1: "mset (concat ?new) + mset (?ls ! Suc ?i) = mset (concat (?ls[?i := suf])) + mset ?b"
      using mset_concat_update [of "Suc ?i" "?ls[?i := suf]" ?b] len by (simp add: commit_levels_def)
    have 2: "mset (concat (?ls[?i := suf])) + mset (pd_source p) = mset (concat ?ls)"
      using mset_concat_update [OF len(1), of suf] suf(1) j(4) by simp
    have 3: "mset ?b + mset cleared = mset (?ls ! Suc ?i) + mset (option_handles ?out)"
      by (auto simp: cleared_def option_handles_def split: option.split)
    from 1 2 3 show ?thesis by (rule mset_exchange)
  qed
  moreover have "\<forall>a \<in> set (pd_source p). \<forall>b \<in> set suf. h_run_number a < h_run_number b"
    using suf(2) i(1) j(4) by (metis UN_I nth_mem set_concat)
  ultimately show thesis
    using suf(1,4) j(1,4,5) target by (intro that [of cleared suf]) (simp_all only:)
qed

text \<open>The map of the levels after the write-back, the disk unchanged.\<close>

lemma commit_map:
  assumes i: "Suc i < length ls" and max: "Suc i = max_level \<longrightarrow> length ls = Suc max_level"
    and ls: "ls ! i = src @ suf" "\<forall>a \<in> set src. \<forall>b \<in> set suf. h_run_number a < h_run_number b"
    and out: "\<And>h. out = Some h \<Longrightarrow> \<forall>a \<in> set (ls ! Suc i). h_run_number a < h_run_number h"
    and m: "(case out of None \<Rightarrow> m = Map.empty | Some h \<Rightarrow> run_map d h = m)"
    and m': "m = (if Suc i = max_level then live_only (level_map d (ls ! Suc i) ++ level_map d src)
                  else level_map d src)"
    and none: "Suc i = max_level \<Longrightarrow> out = None \<Longrightarrow> ls ! Suc i = []"
  shows "live (levels_map d (commit_levels max_level out suf i ls)) = live (levels_map d ls)"
    and "Suc i \<noteq> max_level \<Longrightarrow> levels_map d (commit_levels max_level out suf i ls) = levels_map d ls"
proof -
  let ?T = "ls ! Suc i"
  let ?lo = "levels_map d (drop (Suc (Suc i)) ls)" and ?hi = "levels_map d (take i ls)"
  have old: "levels_map d ls = ?lo ++ level_map d ?T ++ level_map d src ++ level_map d suf ++ ?hi"
  proof -
    have "ls[i := ls ! i, Suc i := ls ! Suc i] = ls" by simp
    moreover have "level_map d (ls ! i) = level_map d src ++ level_map d suf"
      using ls level_map_append [of src suf d] by (simp add: less_imp_le)
    ultimately show ?thesis
      using levels_map_at [OF i, of d "ls ! i" "ls ! Suc i"] by simp
  qed
  have new: "levels_map d (commit_levels max_level out suf i ls) =
      ?lo ++ level_map d (case out of None \<Rightarrow> ?T
           | Some h \<Rightarrow> if Suc i = max_level then [h] else ?T @ [h]) ++ level_map d suf ++ ?hi"
    unfolding commit_levels_def by (rule levels_map_at [OF i])
  show eq: "levels_map d (commit_levels max_level out suf i ls) = levels_map d ls"
    if "Suc i \<noteq> max_level"
  proof (cases out)
    case None
    then show ?thesis using that m m' new old by simp
  next
    case (Some h)
    then have "level_map d (?T @ [h]) = level_map d ?T ++ run_map d h"
      using out by (simp add: level_map_snoc less_imp_le)
    then show ?thesis using that Some m m' new old by simp
  qed
  show "live (levels_map d (commit_levels max_level out suf i ls)) = live (levels_map d ls)"
  proof (cases "Suc i = max_level")
    case False
    then show ?thesis using eq by simp
  next
    case True
    then have lo: "?lo = Map.empty" using max by simp
    show ?thesis
    proof (cases out)
      case None
      then have "?T = []" "live_only (level_map d src) = Map.empty"
        using none True m m' by auto
      then show ?thesis
        using None new old lo live_only_below [of "level_map d src" "level_map d suf ++ ?hi"] by simp
    next
      case (Some h)
      then have "run_map d h = live_only (level_map d ?T ++ level_map d src)"
        using m m' True by simp
      then show ?thesis
        using Some True new old lo
          live_only_below [of "level_map d ?T ++ level_map d src" "level_map d suf ++ ?hi"]
        by simp
    qed
  qed
qed

lemma drop_in_ok:
  assumes "runs_ok x dir n (st_world s) (mset hs + N)"
  shows "runs_ok x dir n (st_world (drop_in hs s)) N"
    and "same_runs x (st_world s) (st_world (drop_in hs s)) N"
    and "h \<in># N \<Longrightarrow> run_map (w_disk (st_world (drop_in hs s))) h = run_map (w_disk (st_world s)) h"
proof -
  note d = runs_ok_drop [OF assms]
  show "runs_ok x dir n (st_world (drop_in hs s)) N"
    and same: "same_runs x (st_world s) (st_world (drop_in hs s)) N"
    using d by (simp_all add: drop_in_def)
  show "run_map (w_disk (st_world (drop_in hs s))) h = run_map (w_disk (st_world s)) h"
    if h: "h \<in># N"
  proof -
    obtain es where es: "run_ok x (w_disk (st_world s)) h es" using assms h by (auto simp: runs_ok_def)
    then have "run_ok x (w_disk (st_world (drop_in hs s))) h es" using same h by (auto simp: same_runs_def)
    with es show ?thesis by (simp add: run_map_def entries_of_run)
  qed
qed

lemma drop_in_simps [simp]:
  "st_levels (drop_in hs s) = st_levels s" "st_next_run (drop_in hs s) = st_next_run s"
  "st_generation (drop_in hs s) = st_generation s"
  "st_levels (clone_in hs s) = st_levels s" "st_next_run (clone_in hs s) = st_next_run s"
  "st_generation (clone_in hs s) = st_generation s"
  "w_disk (st_world (clone_in hs s)) = w_disk (st_world s)"
  by (simp_all add: drop_in_def clone_in_def)

lemma overlay_short: "length T \<le> 1 \<Longrightarrow> overlay (map (run_map d) T) = level_map d T"
  by (cases T) simp_all

lemma commit_levels_props:
  assumes "Suc i < length ls" and "length ls = Suc max_level" and "length (ls ! max_level) \<le> 1"
  shows "length (commit_levels max_level out suf i ls) = Suc max_level"
    and "length (commit_levels max_level out suf i ls ! max_level) \<le> 1"
  using assms by (auto simp: commit_levels_def nth_list_update split: option.split)

lemma commit_levels_ordered:
  assumes "levels_ordered ls" and i: "Suc i < length ls" and "ls ! i = src @ suf"
    and "\<And>h. out = Some h \<Longrightarrow> \<forall>a \<in> set (ls ! Suc i). h_run_number a < h_run_number h"
  shows "levels_ordered (commit_levels max_level out suf i ls)"
proof -
  have "sorted (map h_run_number (ls ! i))" "sorted (map h_run_number (ls ! Suc i))"
    using assms(1) i by (auto simp: levels_ordered_def)
  then have "sorted (map h_run_number suf)"
    and "sorted (map h_run_number (case out of None \<Rightarrow> ls ! Suc i
           | Some h \<Rightarrow> if Suc i = max_level then [h] else ls ! Suc i @ [h]))"
    using assms(3,4) by (auto simp: sorted_append less_imp_le split: option.split)
  moreover have update: "levels_ordered (xs[j := l])" if "levels_ordered xs" "sorted (map h_run_number l)" for xs j l
    using that set_update_subset_insert [of xs j l] by (auto simp: levels_ordered_def)
  ultimately show ?thesis using assms(1) unfolding commit_levels_def by blast
qed

text \<open>What the commit needs to know of the result of the merge.\<close>

definition result_ok :: "nat \<Rightarrow> pending \<Rightarrow> compaction_result \<Rightarrow> store \<Rightarrow> bool" where
  "result_ok max_level p r s \<longleftrightarrow>
     cr_inputs_to_remove r = [0..<length (pd_source p)]
     \<and> (let m = merged_map (w_disk (st_world s)) (pd_job p) (pd_source p) max_level in
        case cr_output r of
          None \<Rightarrow> m = Map.empty
        | Some h \<Rightarrow> run_map (w_disk (st_world s)) h = m
            \<and> (\<forall>a \<in> set (concat (pd_levels p)). h_run_number a < h_run_number h))"

definition loses_bottom :: "nat \<Rightarrow> pending \<Rightarrow> compaction_result \<Rightarrow> bool" where
  "loses_bottom max_level p r \<longleftrightarrow>
     lj_target_level (pd_job p) = max_level \<and> cr_output r = None
     \<and> lj_target_level_runs (pd_job p) \<noteq> []"

text \<open>The write-back when no rollback came in between: the levels it leaves, whatever its result.\<close>

lemma commit_applies:
  assumes r: "runs_ok x dir (st_next_run s) (st_world s)
      (mset (concat (st_levels s)) + (mset (option_handles (cr_output r)) + mset (pending_handles p) + M))"
    and len: "length (st_levels s) = Suc max_level" "length (st_levels s ! max_level) \<le> 1"
    and pend: "pending_ok max_level p s" and inputs: "cr_inputs_to_remove r = [0..<length (pd_source p)]"
    and gen: "st_generation s = pd_generation p"
  obtains s' suf where "compaction_commit max_level p r s = (Inr (), s')" and "store_ok x dir max_level s' M"
    and "st_levels s' = commit_levels max_level (cr_output r) suf (lj_source_level (pd_job p)) (st_levels s)"
    and "store_map s' = levels_map (w_disk (st_world s)) (st_levels s')"
    and "st_levels s ! lj_source_level (pd_job p) = pd_source p @ suf"
    and "\<forall>a \<in> set (pd_source p). \<forall>b \<in> set suf. h_run_number a < h_run_number b"
    and "st_levels s ! Suc (lj_source_level (pd_job p)) = lj_target_level_runs (pd_job p)"
    and "same_runs x (st_world s) (st_world s') (mset (concat (st_levels s')) + M)"
    and "st_next_run s' = st_next_run s" and "st_generation s' = st_generation s"
proof -
  let ?i = "lj_source_level (pd_job p)" and ?ls = "st_levels s" and ?d = "w_disk (st_world s)"
  have job: "job_ok max_level p" and grew: "levels_grew (pd_levels p) (st_levels s)"
    using pend gen by (auto simp: pending_ok_def)
  obtain suf cleared where
    run: "compaction_commit max_level p r s =
       (Inr (), drop_in (rev (pd_source p) @ cleared @ pending_handles p)
          (s\<lparr>st_levels := commit_levels max_level (cr_output r) suf ?i ?ls\<rparr>))"
    and ls: "?ls ! ?i = pd_source p @ suf"
      "\<forall>a \<in> set (pd_source p). \<forall>b \<in> set suf. h_run_number a < h_run_number b"
    and ms: "mset (concat (commit_levels max_level (cr_output r) suf ?i ?ls)) + mset (pd_source p) + mset cleared =
         mset (concat ?ls) + mset (option_handles (cr_output r))"
    and T: "?ls ! Suc ?i = lj_target_level_runs (pd_job p)"
    by (rule commit_eq [OF gen job grew inputs])
  let ?new = "commit_levels max_level (cr_output r) suf ?i ?ls"
  let ?hs = "rev (pd_source p) @ cleared @ pending_handles p" and ?s1 = "s\<lparr>st_levels := ?new\<rparr>"
  let ?s = "drop_in ?hs ?s1"
  from job have i: "Suc ?i < length ?ls" using len(1) by (auto simp: job_ok_def Let_def)
  have "mset ?hs + (mset (concat ?new) + M) =
      (mset (concat ?new) + mset (pd_source p) + mset cleared) + (mset (pending_handles p) + M)"
    by (simp add: ac_simps)
  also have "\<dots> = mset (concat ?ls) + (mset (option_handles (cr_output r)) + mset (pending_handles p) + M)"
    unfolding ms by (simp add: ac_simps)
  finally have eq: "mset ?hs + (mset (concat ?new) + M) =
      mset (concat ?ls) + (mset (option_handles (cr_output r)) + mset (pending_handles p) + M)" .
  have "runs_ok x dir (st_next_run s) (st_world s) (mset ?hs + (mset (concat ?new) + M))"
    using r by (simp only: eq)
  then have N: "runs_ok x dir (st_next_run ?s1) (st_world ?s1) (mset ?hs + (mset (concat ?new) + M))"
    by simp
  note d = drop_in_ok [OF N]
  have "run_map (w_disk (st_world ?s)) h = run_map ?d h" if "h \<in> set (concat ?new)" for h
    using d(3) [of h] that by simp
  then have "levels_map (w_disk (st_world ?s)) ?new = levels_map ?d ?new" by (rule levels_map_cong)
  then have same: "store_map ?s = levels_map ?d (st_levels ?s)" by (simp add: store_map_def)
  have "store_ok x dir max_level ?s M"
    using d(1) commit_levels_props [OF i len] job by (auto simp: store_ok_def job_ok_def Let_def)
  with run same ls T d(2) show thesis by (intro that [of ?s suf]) simp_all
qed

lemma commit_ok:
  assumes r: "runs_ok x dir (st_next_run s) (st_world s)
      (mset (concat (st_levels s)) + (mset (option_handles (cr_output r)) + mset (pending_handles p) + M))"
    and len: "length (st_levels s) = Suc max_level" "length (st_levels s ! max_level) \<le> 1"
    and pend: "pending_ok max_level p s" and res: "result_ok max_level p r s"
  obtains s' where "compaction_commit max_level p r s = (Inr (), s')"
    and "store_ok x dir max_level s' M"
    and "(st_generation s = pd_generation p \<longrightarrow> \<not> loses_bottom max_level p r) \<longrightarrow> live (store_map s') = live (store_map s)"
    and "lj_target_level (pd_job p) \<noteq> max_level \<Longrightarrow> store_map s' = store_map s"
    and "same_runs x (st_world s) (st_world s') (mset (concat (st_levels s')) + M)"
    and "st_next_run s' = st_next_run s" and "st_generation s' = st_generation s"
    and "levels_ordered (st_levels s) \<Longrightarrow> levels_ordered (st_levels s')"
proof (cases "st_generation s = pd_generation p")
  case False
  let ?hs = "option_handles (cr_output r) @ pending_handles p"
  let ?s = "drop_in ?hs s"
  have N: "runs_ok x dir (st_next_run s) (st_world s) (mset ?hs + (mset (concat (st_levels s)) + M))"
    using r by (simp add: ac_simps)
  note d = drop_in_ok [OF N]
  have "store_map ?s = store_map s"
    unfolding store_map_def drop_in_simps by (rule levels_map_cong) (rule d(3), simp)
  moreover have "1 \<le> max_level" using pend by (auto simp: pending_ok_def job_ok_def Let_def)
  moreover have "compaction_commit max_level p r s = (Inr (), ?s)"
    using False by (simp add: compaction_commit_def Let_def)
  ultimately show thesis using d len by (intro that [of ?s]) (auto simp: store_ok_def)
next
  case True
  let ?i = "lj_source_level (pd_job p)" and ?ls = "st_levels s" and ?d = "w_disk (st_world s)"
  have job: "job_ok max_level p" using pend by (simp add: pending_ok_def)
  have inputs: "cr_inputs_to_remove r = [0..<length (pd_source p)]"
    using res by (simp add: result_ok_def)
  obtain s' suf where c: "compaction_commit max_level p r s = (Inr (), s')" "store_ok x dir max_level s' M"
      "store_map s' = levels_map ?d (st_levels s')"
      "same_runs x (st_world s) (st_world s') (mset (concat (st_levels s')) + M)"
      "st_next_run s' = st_next_run s" "st_generation s' = st_generation s"
    and new: "st_levels s' = commit_levels max_level (cr_output r) suf ?i ?ls"
    and ls: "?ls ! ?i = pd_source p @ suf"
      "\<forall>a \<in> set (pd_source p). \<forall>b \<in> set suf. h_run_number a < h_run_number b"
    and T: "?ls ! Suc ?i = lj_target_level_runs (pd_job p)"
    by (rule commit_applies [OF r len pend inputs True])
  from job have j: "?i < max_level" "lj_target_level (pd_job p) = Suc ?i"
      "lj_target_level_runs (pd_job p) = pd_levels p ! Suc ?i" "length (pd_levels p) = Suc max_level"
    by (auto simp: job_ok_def Let_def)
  have i: "Suc ?i < length ?ls" using j(1) len(1) by simp
  let ?m = "merged_map ?d (pd_job p) (pd_source p) max_level"
  have m: "?m = (if Suc ?i = max_level then live_only (level_map ?d (?ls ! Suc ?i) ++ level_map ?d (pd_source p))
                  else level_map ?d (pd_source p))"
    using len(2) by (auto simp: merged_map_def j(2) T [symmetric] overlay_short)
  have out: "case cr_output r of None \<Rightarrow> ?m = Map.empty | Some h \<Rightarrow> run_map ?d h = ?m"
    using res by (auto simp: result_ok_def Let_def split: option.splits)
  have above: "\<forall>a \<in> set (?ls ! Suc ?i). h_run_number a < h_run_number h" if "cr_output r = Some h" for h
  proof -
    have "pd_levels p ! Suc ?i \<in> set (pd_levels p)" using j(1,4) by (intro nth_mem) simp
    then have "set (?ls ! Suc ?i) \<subseteq> set (concat (pd_levels p))" by (auto simp: T j(3))
    then show ?thesis using res that by (auto simp: result_ok_def Let_def)
  qed
  have none: "?ls ! Suc ?i = []" if "\<not> loses_bottom max_level p r" "Suc ?i = max_level" "cr_output r = None"
    using that by (auto simp: loses_bottom_def j(2) T)
  have lenp: "Suc ?i = max_level \<longrightarrow> length ?ls = Suc max_level" using len(1) by simp
  note map = commit_map [OF i lenp ls above out m]
  show thesis
  proof (rule that [OF c(1,2) _ _ c(4-6)])
    have "live (store_map s') = live (store_map s)" if "\<not> loses_bottom max_level p r"
      unfolding c(3) new store_map_def [of s] by (intro map(1) none that)
    with True show "(st_generation s = pd_generation p \<longrightarrow> \<not> loses_bottom max_level p r) \<longrightarrow>
        live (store_map s') = live (store_map s)" by blast
    show "lj_target_level (pd_job p) \<noteq> max_level \<Longrightarrow> store_map s' = store_map s"
      unfolding c(3) new store_map_def [of s] j(2) by (rule map(2)) simp_all
    show "levels_ordered (st_levels s) \<Longrightarrow> levels_ordered (st_levels s')"
      unfolding new using commit_levels_ordered [OF _ i ls(1) above] by simp
  qed
qed

section \<open>Beginning and merging\<close>

lemma select_among_ok:
  "select_among levels ratio is = Inr (Some job) \<Longrightarrow> \<exists>i \<in> set is. job = level_job_for levels i"
  by (induction "is") (auto split: if_splits)

lemma select_among_total:
  "\<forall>i \<in> set is. i < length levels \<Longrightarrow> \<exists>r. select_among levels ratio is = Inr r"
  by (induction "is") auto

lemma pick_job_total:
  "length levels = Suc max_level \<Longrightarrow> \<exists>r. pick_job levels max_level trigger = Inr r"
  using select_among_total [of "[0..<max_level]" levels 4]
  by (auto simp: pick_job_def select_level_compaction_def)

lemma pick_job_ok:
  assumes "pick_job levels max_level trigger = Inr (Some job)" and "length levels = Suc max_level"
    and "1 \<le> max_level"
  obtains i where "i < max_level" and "job = level_job_for levels i"
proof -
  from assms(1) obtain sel where sel: "select_among levels 4 [0..<max_level] = Inr sel"
    and pick: "(case sel of Some j \<Rightarrow> Some j
       | None \<Rightarrow>
           if l0_len levels < trigger \<or> l0_len levels = 0 then None
           else Some \<lparr>lj_source_level = 0, lj_target_level = 1, lj_source_runs = [0..<l0_len levels],
                      lj_target_level_runs = (if 1 < length levels then levels ! 1 else [])\<rparr>) = Some job"
    unfolding pick_job_def select_level_compaction_def res_bind_eq_Inr by blast
  show thesis
  proof (cases sel)
    case None
    obtain l0 ls where "levels = l0 # ls" using assms(2) by (cases levels) auto
    then have "job = level_job_for levels 0"
      using pick None by (auto simp: level_job_for_def l0_len_def split: if_splits)
    with assms(3) show thesis by (intro that [of 0]) auto
  next
    case (Some j)
    then show thesis using pick select_among_ok [of levels 4 "[0..<max_level]" j] sel
      by (auto intro: that)
  qed
qed

lemma store_map_same:
  assumes "store_ok x dir max_level s M" and "same_runs x (st_world s) (st_world s') (mset (concat (st_levels s)) + M)"
    and "st_levels s' = st_levels s"
  shows "store_map s' = store_map s"
  unfolding store_map_def assms(3)
  using assms by (intro levels_map_cong same_runs_map [of x "st_world s" _ "mset (concat (st_levels s)) + M"])
    (auto simp: store_ok_def)

lemma begin_ok:
  assumes s: "store_ok x dir max_level s M"
  obtains (idle) s' where "compaction_begin max_level trigger s = (Inr None, s')"
      "store_ok x dir max_level s' M" "store_map s' = store_map s" "st_levels s' = st_levels s"
      "st_next_run s' = st_next_run s" "st_generation s' = st_generation s"
      "same_runs x (st_world s) (st_world s') (mset (concat (st_levels s)) + M)"
    | (job) p s' where "compaction_begin max_level trigger s = (Inr (Some p), s')"
      "store_ok x dir max_level s' (mset (pending_handles p) + M)" "pending_ok max_level p s'"
      "store_map s' = store_map s" "st_levels s' = st_levels s" "pd_levels p = st_levels s"
      "st_next_run s' = st_next_run s" "st_generation s' = st_generation s"
      "w_disk (st_world s') = w_disk (st_world s)"
proof -
  let ?ls = "st_levels s" and ?d = "w_disk (st_world s)"
  let ?N = "mset (concat ?ls) + M" and ?s1 = "clone_in (concat ?ls) s"
  have runs: "runs_ok x dir (st_next_run s) (st_world s) ?N" and len: "length ?ls = Suc max_level"
    "1 \<le> max_level" "length (?ls ! max_level) \<le> 1"
    using s by (auto simp: store_ok_def)
  have 1: "runs_ok x dir (st_next_run s) (st_world ?s1) (mset (concat ?ls) + ?N)"
    using runs_ok_clone [OF runs, of "concat ?ls"] by (simp add: clone_in_def)
  from pick_job_total [OF len(1)] obtain j where j: "pick_job ?ls max_level trigger = Inr j" by blast
  show thesis
  proof (cases j)
    case None
    let ?s = "drop_in (concat ?ls) ?s1"
    note d = drop_in_ok [OF 1]
    have "same_runs x (st_world s) (st_world ?s) ?N"
      using d(2) by (simp add: same_runs_def)
    then show thesis
      using None j d(1) len s
      by (intro idle [of ?s] store_map_same) (auto simp: compaction_begin_def Let_def store_ok_def)
  next
    case (Some job)
    then obtain i where i: "i < max_level" "job = level_job_for ?ls i"
      using pick_job_ok [of ?ls max_level trigger job] j len by auto
    let ?p = "\<lparr>pd_generation = st_generation s, pd_levels = ?ls, pd_job = job, pd_source = ?ls ! i\<rparr>"
    let ?s = "clone_in (lj_target_level_runs job @ ?ls ! i) ?s1"
    have "?ls ! i \<in> set ?ls" "?ls ! Suc i \<in> set ?ls" using i(1) len(1) by (auto intro!: nth_mem)
    then have "set (?ls ! i) \<subseteq> set (concat ?ls)" "set (?ls ! Suc i) \<subseteq> set (concat ?ls)" by auto
    moreover have "lj_target_level_runs job = ?ls ! Suc i"
      using i len(1) by (simp add: level_job_for_def)
    ultimately have sub: "set (lj_target_level_runs job @ ?ls ! i) \<subseteq> set_mset (mset (concat ?ls) + ?N)"
      by auto
    have "runs_ok x dir (st_next_run s) (st_world ?s)
        (mset (lj_target_level_runs job @ ?ls ! i) + (mset (concat ?ls) + ?N))"
      using runs_ok_clone [OF 1 sub] by (simp add: clone_in_def)
    then have ok: "store_ok x dir max_level ?s (mset (pending_handles ?p) + M)"
      using len by (simp add: store_ok_def pending_handles_def ac_simps)
    have pend: "pending_ok max_level ?p ?s"
      using i len
      by (cases ?ls) (auto simp: pending_ok_def job_ok_def level_job_for_def Let_def levels_grew_def)
    show thesis
      using Some j i ok pend
      by (intro job [of ?p ?s])
        (simp_all add: compaction_begin_def Let_def level_job_for_def store_map_def)
  qed
qed

lemma begin_disk:
  "compaction_begin max_level trigger s = (Inr (Some p), s') \<Longrightarrow> w_disk (st_world s') = w_disk (st_world s)"
  by (auto simp: compaction_begin_def Let_def split: sum.splits option.splits)

lemma merge_ok:
  assumes s: "store_ok x dir max_level s (mset (pending_handles p) + M)" and total: "codecs_total x"
    and job: "job_ok max_level p"
    and size: "mergeable (w_disk (st_world s)) (pd_source p @ lj_target_level_runs (pd_job p))"
    and old: "\<forall>a \<in> set (concat (pd_levels p)). h_run_number a < st_next_run s"
  obtains r s' where "compaction_merge x dir max_level p s = (Inr r, s')"
    and "store_ok x dir max_level s' (mset (option_handles (cr_output r)) + mset (pending_handles p) + M)"
    and "result_ok max_level p r s'" and "store_map s' = store_map s"
    and "st_levels s' = st_levels s" and "st_generation s' = st_generation s"
    and "st_next_run s' = Suc (st_next_run s)"
    and "same_runs x (st_world s) (st_world s') (mset (concat (st_levels s)) + (mset (pending_handles p) + M))"
    and "cr_output r = None \<longleftrightarrow> merged_map (w_disk (st_world s)) (pd_job p) (pd_source p) max_level = Map.empty"
    and "\<forall>h. cr_output r = Some h \<longrightarrow> h_run_number h = st_next_run s"
proof -
  let ?n = "st_next_run s" and ?w = "st_world s"
  let ?N = "mset (concat (st_levels s)) + (mset (pending_handles p) + M)"
  have runs: "runs_ok x dir ?n ?w ?N" and len: "length (st_levels s) = Suc max_level" "1 \<le> max_level"
      "length (st_levels s ! max_level) \<le> 1"
    using s by (auto simp: store_ok_def)
  have sub: "set (pd_source p) \<subseteq> set_mset ?N" "set (lj_target_level_runs (pd_job p)) \<subseteq> set_mset ?N"
    by (auto simp: pending_handles_def)
  have all: "lj_source_runs (pd_job p) = [0..<length (pd_source p)]"
    using job by (simp add: job_ok_def Let_def)
  obtain r w' where
    c: "compact_levels x (pd_job p) (pd_source p) dir ?n max_level ?w = (Inr r, w')"
      "output_ok x dir ?n ?w ?N (merged_map (w_disk ?w) (pd_job p) (pd_source p) max_level) r w'"
      "cr_inputs_to_remove r = [0..<length (pd_source p)]"
    by (rule compact_levels_total [OF runs total sub all size])
  let ?s = "s\<lparr>st_next_run := Suc ?n, st_world := w'\<rparr>"
  have run: "compaction_merge x dir max_level p s = (Inr r, ?s)"
    using c(1) by (simp add: compaction_merge_def alloc_run_def on_world_def io_bind_def)
  have same: "same_runs x ?w w' ?N" using c(2) by (simp add: output_ok_def)
  have maps: "run_map (w_disk w') h = run_map (w_disk ?w) h" if "h \<in># ?N" for h
    by (rule same_runs_map [OF same runs that])
  have "overlay (map (run_map (w_disk w')) (lj_target_level_runs (pd_job p))) =
      overlay (map (run_map (w_disk ?w)) (lj_target_level_runs (pd_job p)))"
    using sub(2) by (intro arg_cong [of _ _ overlay] map_cong refl maps) auto
  moreover have "level_map (w_disk w') (pd_source p) = level_map (w_disk ?w) (pd_source p)"
    using sub(1) by (intro level_map_cong maps) auto
  ultimately have merged: "merged_map (w_disk w') (pd_job p) (pd_source p) max_level =
      merged_map (w_disk ?w) (pd_job p) (pd_source p) max_level"
    by (simp add: merged_map_def)
  have res: "result_ok max_level p r ?s"
    using c(2,3) merged old by (auto simp: result_ok_def output_ok_def Let_def split: option.splits)
  have ok: "runs_ok x dir (Suc ?n) w' (mset (option_handles (cr_output r)) + ?N)"
  proof (cases "cr_output r")
    case None
    then show ?thesis
      using c(2) runs_ok_mono [OF runs, of "Suc ?n"] by (simp add: output_ok_def option_handles_def)
  next
    case (Some h)
    then show ?thesis using c(2) by (simp add: output_ok_def option_handles_def)
  qed
  have store: "store_ok x dir max_level ?s (mset (option_handles (cr_output r)) + mset (pending_handles p) + M)"
    using ok len by (simp add: store_ok_def ac_simps)
  have "store_map ?s = store_map s"
    by (rule store_map_same [OF s]) (use same in simp_all)
  moreover have "cr_output r = None \<longleftrightarrow> merged_map (w_disk ?w) (pd_job p) (pd_source p) max_level = Map.empty"
    using c(2) by (auto simp: output_ok_def split: option.splits)
  moreover have "\<forall>h. cr_output r = Some h \<longrightarrow> h_run_number h = ?n"
    using c(2) by (auto simp: output_ok_def)
  ultimately show thesis using run store res same by (intro that [of r ?s]) simp_all
qed

section \<open>The whole round\<close>

text \<open>A round with a job, run without interruption, up to its write-back.\<close>

lemma round_ok:
  assumes s: "store_ok x dir max_level s M" and total: "codecs_total x"
    and job: "pick_job (st_levels s) max_level trigger = Inr (Some job)"
    and size: "mergeable (w_disk (st_world s)) (st_levels s ! lj_source_level job @ lj_target_level_runs job)"
  obtains p s1 r s2 where "compaction_begin max_level trigger s = (Inr (Some p), s1)"
    and "compaction_merge x dir max_level p s1 = (Inr r, s2)"
    and "run_compaction x dir max_level trigger s = compaction_commit max_level p r s2"
    and "store_ok x dir max_level s2 (mset (option_handles (cr_output r)) + mset (pending_handles p) + M)"
    and "pending_ok max_level p s2" and "result_ok max_level p r s2" and "store_map s2 = store_map s"
    and "pd_job p = job" and "pd_levels p = st_levels s" and "st_levels s2 = st_levels s"
    and "st_generation s2 = pd_generation p"
    and "\<And>h. h \<in> set (concat (st_levels s)) \<Longrightarrow>
      run_map (w_disk (st_world s2)) h = run_map (w_disk (st_world s)) h"
    and "cr_output r = None \<longleftrightarrow>
      merged_map (w_disk (st_world s)) job (st_levels s ! lj_source_level job) max_level = Map.empty"
    and "same_runs x (st_world s) (st_world s2) (mset (concat (st_levels s)) + M)"
    and "st_next_run s2 = Suc (st_next_run s)"
proof (rule begin_ok [OF s, of trigger])
  fix s'
  assume "compaction_begin max_level trigger s = (Inr None, s')"
  then show thesis using job by (simp add: compaction_begin_def Let_def)
next
  fix p s1
  assume b: "compaction_begin max_level trigger s = (Inr (Some p), s1)"
    and s1: "store_ok x dir max_level s1 (mset (pending_handles p) + M)" and pend: "pending_ok max_level p s1"
    and map1: "store_map s1 = store_map s" and ls: "st_levels s1 = st_levels s" "pd_levels p = st_levels s"
    and n1: "st_next_run s1 = st_next_run s" and disk: "w_disk (st_world s1) = w_disk (st_world s)"
    and gen: "st_generation s1 = st_generation s"
  have jok: "job_ok max_level p" using pend by (simp add: pending_ok_def)
  have p: "pd_job p = job" "pd_generation p = st_generation s"
    using b job by (auto simp: compaction_begin_def Let_def split: sum.splits option.splits)
  have sz: "mergeable (w_disk (st_world s1)) (pd_source p @ lj_target_level_runs (pd_job p))"
    using size jok by (simp add: disk job_ok_def Let_def ls p)
  have old: "\<forall>a \<in> set (concat (pd_levels p)). h_run_number a < st_next_run s1"
    using s by (auto simp: store_ok_def runs_ok_def n1 ls)
  obtain r s2 where
    m: "compaction_merge x dir max_level p s1 = (Inr r, s2)"
      "store_ok x dir max_level s2 (mset (option_handles (cr_output r)) + mset (pending_handles p) + M)"
      "result_ok max_level p r s2" "store_map s2 = store_map s1" "st_levels s2 = st_levels s1"
      "st_generation s2 = st_generation s1" "st_next_run s2 = Suc (st_next_run s1)"
      "same_runs x (st_world s1) (st_world s2) (mset (concat (st_levels s1)) + (mset (pending_handles p) + M))"
      "cr_output r = None \<longleftrightarrow> merged_map (w_disk (st_world s1)) (pd_job p) (pd_source p) max_level = Map.empty"
    by (rule merge_ok [OF s1 total jok sz old])
  have "run_map (w_disk (st_world s2)) h = run_map (w_disk (st_world s)) h"
    if "h \<in> set (concat (st_levels s))" for h
    using same_runs_map [OF m(8), of dir "st_next_run s1" h] s1 that
    by (simp add: store_ok_def ls disk)
  moreover have "run_compaction x dir max_level trigger s = compaction_commit max_level p r s2"
    using b m(1) by (simp add: run_compaction_def result_simps)
  moreover have "pending_ok max_level p s2" using pend m(5,6) by (simp add: pending_ok_def)
  moreover have "pd_source p = st_levels s ! lj_source_level job"
    using jok by (simp add: job_ok_def Let_def p ls)
  moreover have "same_runs x (st_world s) (st_world s2) (mset (concat (st_levels s)) + M)"
    using m(8) by (auto simp: same_runs_def ls disk)
  ultimately show thesis using b m p ls map1 gen disk n1 by (intro that [of p s1 r s2]) simp_all
qed

lemma store_ok_runs:
  "store_ok x dir max_level s (A + B + M) \<Longrightarrow>
     runs_ok x dir (st_next_run s) (st_world s) (mset (concat (st_levels s)) + (A + B + M))
     \<and> length (st_levels s) = Suc max_level \<and> length (st_levels s ! max_level) \<le> 1"
  by (simp add: store_ok_def)

text \<open>
  A round that runs without interruption keeps what a reader sees, unless its result at the
  bottom level is empty while the bottom level holds a run.
\<close>

lemma run_compaction_ok:
  assumes s: "store_ok x dir max_level s M" and total: "codecs_total x"
    and size: "\<And>job. pick_job (st_levels s) max_level trigger = Inr (Some job) \<Longrightarrow>
      mergeable (w_disk (st_world s)) (st_levels s ! lj_source_level job @ lj_target_level_runs job)"
  obtains s' where "run_compaction x dir max_level trigger s = (Inr (), s')"
    and "store_ok x dir max_level s' M"
    and "(\<forall>p s1 r s2. compaction_begin max_level trigger s = (Inr (Some p), s1) \<longrightarrow>
      compaction_merge x dir max_level p s1 = (Inr r, s2) \<longrightarrow> \<not> loses_bottom max_level p r)
      \<longrightarrow> live (store_map s') = live (store_map s)"
    and "levels_ordered (st_levels s) \<longrightarrow> levels_ordered (st_levels s')"
    and "same_runs x (st_world s) (st_world s') M"
proof -
  have "length (st_levels s) = Suc max_level" using s by (simp add: store_ok_def)
  from pick_job_total [OF this] obtain j where j: "pick_job (st_levels s) max_level trigger = Inr j" by blast
  show thesis
  proof (cases j)
    case None
    with j begin_ok [OF s, of trigger] obtain s' where
      "compaction_begin max_level trigger s = (Inr None, s')" "store_ok x dir max_level s' M"
      "store_map s' = store_map s" "st_levels s' = st_levels s"
      "same_runs x (st_world s) (st_world s') (mset (concat (st_levels s)) + M)"
      by (auto simp: compaction_begin_def Let_def)
    then show thesis using same_runs_mono [of x "st_world s" "st_world s'" "mset (concat (st_levels s)) + M" M] by (intro that [of s']) (simp_all add: run_compaction_def result_simps)
  next
    case (Some job)
    show thesis
    proof (rule round_ok [OF s total j [unfolded Some] size [OF j [unfolded Some]]])
      fix p s1 r s2
      assume b: "compaction_begin max_level trigger s = (Inr (Some p), s1)"
        and m: "compaction_merge x dir max_level p s1 = (Inr r, s2)"
        and run: "run_compaction x dir max_level trigger s = compaction_commit max_level p r s2"
        and ok: "store_ok x dir max_level s2 (mset (option_handles (cr_output r)) + mset (pending_handles p) + M)"
        and pend: "pending_ok max_level p s2" "result_ok max_level p r s2"
        and same: "store_map s2 = store_map s" "st_levels s2 = st_levels s"
        and runs: "same_runs x (st_world s) (st_world s2) (mset (concat (st_levels s)) + M)"
      note r = store_ok_runs [OF ok]
      from commit_ok [OF conjunct1 [OF r] _ _ pend] r obtain s' where
        "compaction_commit max_level p r s2 = (Inr (), s')" "store_ok x dir max_level s' M"
        "(st_generation s2 = pd_generation p \<longrightarrow> \<not> loses_bottom max_level p r) \<longrightarrow> live (store_map s') = live (store_map s2)"
        "same_runs x (st_world s2) (st_world s') (mset (concat (st_levels s')) + M)"
        "levels_ordered (st_levels s2) \<Longrightarrow> levels_ordered (st_levels s')"
        by blast
      moreover from this runs have "same_runs x (st_world s) (st_world s') M" by (auto simp: same_runs_def)
      ultimately show thesis using run same b m by (intro that [of s']) simp_all
    qed
  qed
qed

end
