(* ===== verification/LsmTree_Correct.thy ===== *)
theory LsmTree_Correct
  imports LsmTree Compaction_Commit
begin

text \<open>
  The tree against the map it stands for. \<open>tree_map\<close> overlays the memtables on the levels,
  \<open>tree_view\<close> is what a reader should see of it. Writing and flushing are shown to update the
  map, range queries to enumerate the view, and the point lookup to agree with the view for
  keys that no run holds a tombstone of; where a run does, the lookup passes the tombstone
  over, which \<open>flush_resurfaces\<close> states of a flushed deletion.
\<close>

section \<open>The abstract value\<close>

definition memtables_map :: "memtable list \<Rightarrow> key \<rightharpoonup> lsm_value option" where
  "memtables_map ms = overlay (map mt_get ms)"

definition tree_map :: "lsm_tree \<Rightarrow> key \<rightharpoonup> lsm_value option" where
  "tree_map t = store_map (lt_store t) ++ memtables_map (lt_memtable t # rev (lt_immutables t))"

definition tree_view :: "lsm_tree \<Rightarrow> key \<rightharpoonup> lsm_value" where
  "tree_view t = live (tree_map t)"

text \<open>
  The list of immutable memtables is empty at all times: \<open>flush_memtable\<close> writes the old
  memtable out itself, and no operation adds to the list.
\<close>

definition tree_ok :: "codecs \<Rightarrow> lsm_tree \<Rightarrow> sst_handle multiset \<Rightarrow> bool" where
  "tree_ok x t M \<longleftrightarrow>
     mt_ok (lt_memtable t) \<and> lt_immutables t = []
     \<and> store_ok x (lt_active_dir t) (lt_max_level t) (lt_store t) M"

lemma search_memtables_eq: "search_memtables ms k = memtables_map ms k"
  by (induction ms) (auto simp: memtables_map_def map_add_def split: option.split)

lemma memtables_map_Cons: "memtables_map (m # ms) = memtables_map ms ++ mt_get m"
  by (simp add: memtables_map_def)

lemma live_insert: "live (m(k \<mapsto> Some v)) = (live m)(k \<mapsto> v)"
  by (auto simp: fun_eq_iff live_def)

lemma live_delete: "live (m(k \<mapsto> None)) = (live m)(k := None)"
  by (auto simp: fun_eq_iff live_def)

section \<open>Range queries\<close>

lemma tree_runs_present:
  assumes "tree_ok x t M" and "set hs \<subseteq> set (concat (tree_levels t))"
  shows "present x (tree_disk t) hs"
  unfolding tree_disk_def
  using assms by (intro present_runs_ok [of x "lt_active_dir t" "st_next_run (lt_store t)" _
        "mset (concat (tree_levels t)) + M"])
    (auto simp: tree_ok_def store_ok_def tree_levels_def)

lemma overlay_oldest_first:
  "overlay (map (run_map d) (rev (concat (map (sort_key h_run_number) (rev levels))))) = levels_map d levels"
proof (induction levels)
  case (Cons l ls)
  then show ?case by (simp add: overlay_append level_map_def newest_first_def)
qed simp

lemma merge_levels:
  assumes t: "tree_ok x t M"
    and m_def: "m = merge_skip (\<lambda>h. range_with_tombstones h lo hi Sync (tree_disk t))
    (concat (map (sort_key h_run_number) (rev (tree_levels t)))) []"
  shows "bt_wf m" and "bt_get m = store_map (lt_store t) |` {lo..hi}"
proof -
  let ?d = "tree_disk t" and ?hs = "concat (map (sort_key h_run_number) (rev (tree_levels t)))"
  have p: "present x ?d ?hs" by (rule tree_runs_present [OF t]) auto
  note repr = present_repr [OF p]
  from sst.newer [OF repr, of "[]" lo hi] sst.skip [OF repr, of lo hi "[]"]
  have "bt_wf m" and get: "bt_get m = overlay (map (run_map ?d) (rev ?hs)) |` {lo..hi}"
    by (auto simp: m_def rev_map run_map_def [abs_def] comp_def bt_get_def [of "[]", abs_def]
        simp flip: empty_def)
  then show "bt_wf m" and "bt_get m = store_map (lt_store t) |` {lo..hi}"
    by (simp_all only: overlay_oldest_first store_map_def tree_disk_def tree_levels_def)
qed

lemma mt_range_map: "bt_get (mt_range m lo hi) = mt_get m |` {lo..hi}"
  by (auto simp: fun_eq_iff bt_get_mt_range restrict_map_def)

lemma restrict_map_add: "(a ++ b) |` A = a |` A ++ b |` A"
  by (auto simp: fun_eq_iff restrict_map_def map_add_def)

lemma fold_memtables:
  assumes "\<forall>m \<in> set ms. mt_ok m" and "bt_wf m0"
  shows "bt_wf (fold (\<lambda>imm m. bt_extend (mt_range imm lo hi) m) ms m0)"
    and "bt_get (fold (\<lambda>imm m. bt_extend (mt_range imm lo hi) m) ms m0) =
      bt_get m0 ++ memtables_map (rev ms) |` {lo..hi}"
proof -
  have "bt_wf (fold (\<lambda>imm m. bt_extend (mt_range imm lo hi) m) ms m0)
    \<and> bt_get (fold (\<lambda>imm m. bt_extend (mt_range imm lo hi) m) ms m0) =
      bt_get m0 ++ memtables_map (rev ms) |` {lo..hi}"
    using assms
  proof (induction ms arbitrary: m0)
    case (Cons m ms)
    let ?m = "bt_extend (mt_range m lo hi) m0"
    have "bt_wf ?m" "bt_get ?m = bt_get m0 ++ mt_get m |` {lo..hi}"
      using Cons.prems by (simp_all add: mt_range_map)
    with Cons.IH [of ?m] Cons.prems show ?case
      by (simp add: memtables_map_def overlay_append restrict_map_add)
  qed (simp add: memtables_map_def)
  then show "bt_wf (fold (\<lambda>imm m. bt_extend (mt_range imm lo hi) m) ms m0)"
    and "bt_get (fold (\<lambda>imm m. bt_extend (mt_range imm lo hi) m) ms m0) =
      bt_get m0 ++ memtables_map (rev ms) |` {lo..hi}"
    by simp_all
qed

lemma live_entries_sorted:
  assumes "bt_wf m"
  shows "sorted_wrt (<) (map fst (live_entries m))"
  using assms
proof (induction m)
  case (Cons e m)
  obtain k v where e: "e = (k, v)" by (cases e)
  have "\<forall>y \<in> set (live_entries m). \<exists>x \<in> set m. fst x = fst y"
    by (force simp: live_entries_def map_filter_def)
  then have "\<forall>y \<in> set (live_entries m). k < fst y" using Cons.prems e by fastforce
  with Cons e show ?case
    by (cases v) (simp_all add: live_entries_def map_filter_simps)
qed (simp add: live_entries_def map_filter_simps)

lemma live_entries_iff:
  assumes "bt_wf m"
  shows "(k, v) \<in> set (live_entries m) \<longleftrightarrow> live (bt_get m) k = Some v"
proof -
  have "(k, v) \<in> set (live_entries m) \<longleftrightarrow> (k, Some v) \<in> set m"
    by (force simp: live_entries_def map_filter_def)
  then show ?thesis by (simp add: bt_mem_get [OF assms] live_def)
qed

lemma live_restrict: "live (m |` A) k = (if k \<in> A then live m k else None)"
  by (simp add: live_def restrict_map_def)

lemma tree_range_entries:
  assumes t: "tree_ok x t M"
  shows "sorted_wrt (<) (map fst (ri_entries (tree_range t lo hi)))"
    and "(k, v) \<in> set (ri_entries (tree_range t lo hi)) \<longleftrightarrow>
      lo \<le> k \<and> k \<le> hi \<and> tree_view t k = Some v"
    and "ri_index (tree_range t lo hi) = 0"
proof -
  let ?m0 = "merge_skip (\<lambda>h. range_with_tombstones h lo hi Sync (tree_disk t))
    (concat (map (sort_key h_run_number) (rev (tree_levels t)))) []"
  let ?m1 = "fold (\<lambda>imm m. bt_extend (mt_range imm lo hi) m) (lt_immutables t) ?m0"
  let ?m2 = "bt_extend (mt_range (lt_memtable t) lo hi) ?m1"
  note m0 = merge_levels [OF t refl, of lo hi]
  have ok: "mt_ok (lt_memtable t)" "\<forall>m \<in> set (lt_immutables t). mt_ok m"
    using t by (auto simp: tree_ok_def)
  note m1 = fold_memtables [OF ok(2) m0(1), of lo hi]
  have wf: "bt_wf ?m2" using m1(1) by simp
  have get: "bt_get ?m2 = tree_map t |` {lo..hi}"
    using m1 ok(1) m0(2)
    by (simp add: mt_range_map tree_map_def memtables_map_Cons restrict_map_add)
  have r: "tree_range t lo hi = \<lparr>ri_entries = live_entries ?m2, ri_index = 0\<rparr>"
    by (simp add: tree_range_def Let_def)
  show "sorted_wrt (<) (map fst (ri_entries (tree_range t lo hi)))"
    using live_entries_sorted [OF wf] by (simp add: r)
  show "(k, v) \<in> set (ri_entries (tree_range t lo hi)) \<longleftrightarrow>
      lo \<le> k \<and> k \<le> hi \<and> tree_view t k = Some v"
    using live_entries_iff [OF wf, of k v] by (auto simp: r get live_restrict tree_view_def)
  show "ri_index (tree_range t lo hi) = 0" by (simp add: r)
qed

section \<open>The point lookup\<close>

lemma concat_rev_ordered:
  assumes "levels_ordered levels"
  shows "overlay (map (run_map d) (concat (map rev levels))) = levels_map d levels"
  using assms
proof (induction levels)
  case (Cons l ls)
  then have "sort_key h_run_number l = l" by (simp add: levels_ordered_def sort_key_id_if_sorted)
  with Cons show ?case
    by (simp add: overlay_append level_map_def newest_first_def levels_ordered_def)
qed simp

lemma search_levels_eq:
  assumes "present x d (concat levels)"
  shows "search_levels x d levels k =
    Inr (first_live (map (\<lambda>m. m k) (map (run_map d) (concat (map rev levels)))))"
proof -
  have "present x d (concat (map rev levels))" using assms by (simp add: present_def)
  from sst.search [OF present_repr [OF this], of k] show ?thesis
    by (simp add: search_levels_def comp_def run_map_def)
qed

definition no_tombstone :: "disk \<Rightarrow> sst_handle list list \<Rightarrow> key \<Rightarrow> bool" where
  "no_tombstone d levels k \<longleftrightarrow> (\<forall>h \<in> set (concat levels). run_map d h k \<noteq> Some None)"

lemma search_levels_view:
  assumes "present x d (concat levels)" and "levels_ordered levels" and "no_tombstone d levels k"
  shows "search_levels x d levels k = Inr (live (levels_map d levels) k)"
proof -
  have "first_live (map (\<lambda>m. m k) (map (run_map d) (concat (map rev levels)))) =
      Option.bind (overlay (map (run_map d) (concat (map rev levels))) k) id"
    using assms(3) by (intro first_live_overlay) (auto simp: no_tombstone_def)
  then show ?thesis
    by (simp add: search_levels_eq [OF assms(1)] live_def concat_rev_ordered [OF assms(2)] del: map_map)
qed

lemma tree_get_view:
  assumes t: "tree_ok x t M"
    and order: "levels_ordered (tree_levels t)"
    and tomb: "no_tombstone (tree_disk t) (tree_levels t) k
      \<or> memtables_map (lt_memtable t # rev (lt_immutables t)) k \<noteq> None"
  shows "tree_get x t k = Inr (tree_view t k)"
proof -
  have p: "present x (tree_disk t) (concat (tree_levels t))"
    by (rule tree_runs_present [OF t]) simp
  have get: "tree_get x t k =
      (case memtables_map (lt_memtable t # rev (lt_immutables t)) k of
         Some v \<Rightarrow> Inr v | None \<Rightarrow> search_levels x (tree_disk t) (tree_levels t) k)"
    by (auto simp: tree_get_def search_memtables_eq memtables_map_Cons map_add_def split: option.split)
  show ?thesis
  proof (cases "memtables_map (lt_memtable t # rev (lt_immutables t)) k")
    case None
    with tomb have "no_tombstone (tree_disk t) (tree_levels t) k" by simp
    from search_levels_view [OF p order this] None show ?thesis
      by (simp add: get tree_view_def tree_map_def live_map_add store_map_def tree_disk_def tree_levels_def)
  next
    case (Some v)
    then show ?thesis by (simp add: get tree_view_def tree_map_def live_map_add)
  qed
qed

section \<open>Flushing and writing\<close>

text \<open>What a flush that returns has done; \<open>entries\<close> is the content of the old memtable.\<close>

lemma on_store_Inr [result_simps]:
  "m (lt_store t) = (r, s) \<Longrightarrow> on_store m t = (r, t\<lparr>lt_store := s\<rparr>)"
  by (simp add: on_store_def)

lemma on_world_Inr [result_simps]:
  "m (st_world s) = (r, w) \<Longrightarrow> on_world m s = (r, s\<lparr>st_world := w\<rparr>)"
  by (simp add: on_world_def)

lemma flush_empty:
  "mt_is_empty (lt_memtable t) \<Longrightarrow>
   flush_memtable x t = (Inr (), t\<lparr>lt_memtable := mt_new (lt_sequence t)\<rparr>)"
  by (simp add: flush_memtable_def Let_def)

text \<open>What every operation that only adds to the store leaves as it was.\<close>

definition same_shape :: "lsm_tree \<Rightarrow> lsm_tree \<Rightarrow> bool" where
  "same_shape t t' \<longleftrightarrow>
     lt_path t' = lt_path t \<and> lt_active_dir t' = lt_active_dir t \<and> lt_config t' = lt_config t
     \<and> lt_max_level t' = lt_max_level t \<and> lt_immutables t' = lt_immutables t
     \<and> lt_sequence t' = lt_sequence t
     \<and> st_generation (lt_store t') = st_generation (lt_store t)
     \<and> st_next_run (lt_store t) \<le> st_next_run (lt_store t')"

lemma levels_grew_refl: "ls \<noteq> [] \<Longrightarrow> levels_grew ls ls"
  by (auto simp: levels_grew_def intro: exI [of _ "[]"])

lemma levels_ordered_push:
  assumes "levels_ordered (l0 # ls)" and "\<forall>a \<in> set l0. h_run_number a \<le> h_run_number h"
  shows "levels_ordered ((l0 @ [h]) # ls)"
  using assms by (auto simp: levels_ordered_def sorted_append)

definition flushed :: "codecs \<Rightarrow> lsm_tree \<Rightarrow> lsm_tree \<Rightarrow> sst_handle multiset \<Rightarrow> bool" where
  "flushed x t t' M \<longleftrightarrow>
     tree_ok x t' M \<and> tree_map t' = tree_map t \<and> same_shape t t'
     \<and> same_runs x (st_world (lt_store t)) (st_world (lt_store t'))
         (mset (concat (tree_levels t)) + M)
     \<and> (\<exists>extra. tree_levels t' = (hd (tree_levels t) @ extra) # tl (tree_levels t)
          \<and> (\<forall>h \<in> set extra. st_next_run (lt_store t) \<le> h_run_number h \<and> h_level h = 0)
          \<and> length extra \<le> 1)
     \<and> st_next_run (lt_store t') \<le> Suc (st_next_run (lt_store t))
     \<and> outside (lt_active_dir t) (tree_disk t) (tree_disk t')"

lemma flush_ok:
  assumes t: "tree_ok x t M" and total: "codecs_total x" and fits: "fits (mt_data (lt_memtable t))"
  obtains t' where "flush_memtable x t = (Inr (), t')" and "flushed x t t' M"
    and "lt_memtable t' = mt_new (lt_sequence t)"
proof (cases "mt_is_empty (lt_memtable t)")
  case True
  let ?t = "t\<lparr>lt_memtable := mt_new (lt_sequence t)\<rparr>"
  have "mt_get (lt_memtable t) = Map.empty"
    using True by (simp add: mt_is_empty_def mt_get_def fun_eq_iff)
  then have "tree_map ?t = tree_map t" by (simp add: tree_map_def memtables_map_Cons)
  moreover have "tree_levels t \<noteq> []" using t by (auto simp: tree_ok_def store_ok_def tree_levels_def)
  ultimately have "flushed x t ?t M"
    using t by (auto simp: flushed_def tree_ok_def same_shape_def tree_levels_def tree_disk_def intro!: exI [of _ "[]"])
  with True show thesis by (intro that [of ?t]) (simp_all add: flush_empty)
next
  case False
  let ?s = "lt_store t" and ?es = "mt_data (lt_memtable t)" and ?dir = "lt_active_dir t"
  let ?n = "st_next_run ?s" and ?max = "lt_max_level t"
  have store: "runs_ok x ?dir ?n (st_world ?s) (mset (concat (st_levels ?s)) + M)"
      "length (st_levels ?s) = Suc ?max" "1 \<le> ?max" "length (st_levels ?s ! ?max) \<le> 1"
    and mt: "mt_ok (lt_memtable t)"
    using t by (auto simp: tree_ok_def store_ok_def)
  obtain l0 ls where ls: "st_levels ?s = l0 # ls" using store(2) by (cases "st_levels ?s") auto
  have es: "?es \<noteq> []" "bt_wf ?es" using False mt by (auto simp: mt_is_empty_def)
  obtain h w' where
    w: "write_run x ?dir ?n ?es 0 (st_world ?s) = (Inr h, w')"
      "runs_ok x ?dir (Suc ?n) w' (add_mset h (mset (concat (st_levels ?s)) + M))"
      "same_runs x (st_world ?s) w' (mset (concat (st_levels ?s)) + M)"
      "run_ok x (w_disk w') h ?es" "h_run_number h = ?n" "h_level h = 0"
      "outside ?dir (w_disk (st_world ?s)) (w_disk w')"
    using write_run_total [OF store(1) total es fits, of 0] by blast
  let ?s' = "?s\<lparr>st_next_run := Suc ?n, st_world := w', st_levels := (l0 @ [h]) # ls\<rparr>"
  let ?t = "t\<lparr>lt_memtable := mt_new (lt_sequence t), lt_store := ?s',
      lt_credits := lt_credits t + of_nat (length ?es), lt_should_run := True,
      lt_waiting := level0_compaction_trigger (lt_config t) * 4 < length l0 + 1\<rparr>"
  have run: "flush_memtable x t = (Inr (), ?t)"
    using False w(1) ls
    by (simp add: flush_memtable_def Let_def result_simps alloc_run_def push_l0_def mt_iter_def)
  have "store_ok x ?dir ?max ?s' M"
    using store w(2) ls by (cases "?max") (auto simp: store_ok_def ac_simps)
  moreover have "tree_map ?t = tree_map t"
  proof -
    have "run_map (w_disk w') g = run_map (w_disk (st_world ?s)) g" if "g \<in> set (concat (st_levels ?s))" for g
      by (rule same_runs_map [OF w(3) store(1)]) (use that in auto)
    then have "level_map (w_disk w') l0 = level_map (w_disk (st_world ?s)) l0"
      "levels_map (w_disk w') ls = levels_map (w_disk (st_world ?s)) ls"
      by (auto simp: ls intro!: level_map_cong levels_map_cong)
    moreover have "\<forall>a \<in> set l0. h_run_number a \<le> h_run_number h"
      using store(1) by (auto simp: runs_ok_def ls w(5) less_imp_le)
    ultimately have "store_map ?s' = store_map ?s ++ run_map (w_disk w') h"
      by (simp add: store_map_def ls level_map_snoc)
    moreover have "run_map (w_disk w') h = mt_get (lt_memtable t)"
      by (simp add: run_map_def entries_of_run [OF w(4)] bt_get_mt_data)
    ultimately show ?thesis
      using t by (simp add: tree_map_def memtables_map_def tree_ok_def)
  qed
  ultimately have "flushed x t ?t M"
    using t w(3) ls
    by (auto simp: flushed_def tree_ok_def same_shape_def tree_levels_def tree_disk_def w(5,6,7) intro!: exI [of _ "[h]"])
  with run show thesis by (intro that [of ?t]) simp_all
qed

lemma flush_if_full_ok:
  assumes "tree_ok x t M" and "codecs_total x" and "fits (mt_data (lt_memtable t))"
  obtains t' where "flush_if_full x t = (Inr (), t')" and "flushed x t t' M"
proof (cases "memtable_size (lt_config t) \<le> mt_size_bytes (lt_memtable t)")
  case True
  with flush_ok [OF assms] that show thesis by (auto simp: flush_if_full_def)
next
  case False
  moreover have "tree_levels t \<noteq> []"
    using assms(1) by (auto simp: tree_ok_def store_ok_def tree_levels_def)
  ultimately have "flushed x t t M"
    using assms(1) by (auto simp: flushed_def same_shape_def intro!: exI [of _ "[]"])
  with False that show thesis by (auto simp: flush_if_full_def)
qed

text \<open>Writing to the memtable, whatever the writes are.\<close>

lemma write_memtable:
  assumes "tree_ok x t M" and "mt_ok m"
  shows "tree_ok x (t\<lparr>lt_memtable := m\<rparr>) M"
    and "tree_map (t\<lparr>lt_memtable := m\<rparr>) = store_map (lt_store t) ++ mt_get m"
    and "tree_map t = store_map (lt_store t) ++ mt_get (lt_memtable t)"
  using assms by (simp_all add: tree_ok_def tree_map_def memtables_map_def)

lemma flushed_memtable_update:
  "flushed x (t\<lparr>lt_memtable := m\<rparr>) t' M \<Longrightarrow> same_shape t t'"
  by (simp add: flushed_def same_shape_def)

lemma tree_insert_ok:
  assumes t: "tree_ok x t M" and "codecs_total x"
    and "fits (mt_data (mt_insert k v (lt_memtable t)))"
  obtains t' where "tree_insert x k v t = (Inr (), t')"
    and "flushed x (t\<lparr>lt_memtable := mt_insert k v (lt_memtable t)\<rparr>) t' M"
    and "tree_map t' = (tree_map t)(k \<mapsto> Some v)"
proof -
  have m: "mt_ok (lt_memtable t)" using t by (simp add: tree_ok_def)
  note w = write_memtable [OF t mt_ok_insert [OF m, of k v]]
  from flush_if_full_ok [OF w(1) assms(2)] assms(3) obtain t' where
    f: "flush_if_full x (t\<lparr>lt_memtable := mt_insert k v (lt_memtable t)\<rparr>) = (Inr (), t')"
      "flushed x (t\<lparr>lt_memtable := mt_insert k v (lt_memtable t)\<rparr>) t' M"
    by auto
  moreover have "tree_map t' = (tree_map t)(k \<mapsto> Some v)"
    using f(2) w(2,3) m by (simp add: flushed_def)
  ultimately show thesis by (intro that [of t']) (simp_all add: tree_insert_def)
qed

lemma tree_delete_ok:
  assumes t: "tree_ok x t M" and "codecs_total x"
    and "fits (mt_data (mt_delete k (lt_memtable t)))"
  obtains t' where "tree_delete x k t = (Inr (), t')"
    and "flushed x (t\<lparr>lt_memtable := mt_delete k (lt_memtable t)\<rparr>) t' M"
    and "tree_map t' = (tree_map t)(k \<mapsto> None)"
proof -
  have m: "mt_ok (lt_memtable t)" using t by (simp add: tree_ok_def)
  note w = write_memtable [OF t mt_ok_delete [OF m, of k]]
  from flush_if_full_ok [OF w(1) assms(2)] assms(3) obtain t' where
    f: "flush_if_full x (t\<lparr>lt_memtable := mt_delete k (lt_memtable t)\<rparr>) = (Inr (), t')"
      "flushed x (t\<lparr>lt_memtable := mt_delete k (lt_memtable t)\<rparr>) t' M"
    by auto
  moreover have "tree_map t' = (tree_map t)(k \<mapsto> None)"
    using f(2) w(2,3) m by (simp add: flushed_def)
  ultimately show thesis by (intro that [of t']) (simp_all add: tree_delete_def)
qed

lemma fold_mt_insert:
  "mt_ok m \<Longrightarrow> mt_ok (fold (\<lambda>(k, v). mt_insert k v) es m)
     \<and> mt_get (fold (\<lambda>(k, v). mt_insert k v) es m) = mt_get m ++ (\<lambda>k. map_option Some (map_of (rev es) k))"
proof (induction es arbitrary: m)
  case (Cons e es)
  obtain k v where e: "e = (k, v)" by (cases e)
  from Cons.IH [OF mt_ok_insert [OF Cons.prems, of k v]] Cons.prems show ?case
    by (auto simp: e fun_eq_iff map_add_def split: option.split)
qed (simp add: map_add_def)

lemma fold_mt_delete:
  "mt_ok m \<Longrightarrow> mt_ok (fold mt_delete ks m)
     \<and> mt_get (fold mt_delete ks m) = mt_get m ++ (\<lambda>k. if k \<in> set ks then Some None else None)"
proof (induction ks arbitrary: m)
  case (Cons k ks)
  from Cons.IH [OF mt_ok_delete [OF Cons.prems, of k]] Cons.prems show ?case
    by (auto simp: fun_eq_iff map_add_def)
qed (simp add: map_add_def)

lemma fold_upd_map_of: "fold (\<lambda>(k, v) m. m(k \<mapsto> v)) es m = m ++ map_of (rev es)"
  by (induction es arbitrary: m) (auto simp: fun_eq_iff map_add_def split: option.splits)

lemma fold_upd_None: "fold (\<lambda>k m. m(k := None)) ks m = (\<lambda>k. if k \<in> set ks then None else m k)"
  by (induction ks arbitrary: m) (auto simp: fun_eq_iff)

text \<open>A batch is one write to the memtable and a flush when it is full.\<close>

lemma write_flush_ok:
  assumes t: "tree_ok x t M" and "codecs_total x" and m: "mt_ok m" and "fits (mt_data m)"
  obtains t' where "flush_if_full x (t\<lparr>lt_memtable := m\<rparr>) = (Inr (), t')" and "flushed x (t\<lparr>lt_memtable := m\<rparr>) t' M"
    and "tree_map t' = store_map (lt_store t) ++ mt_get m"
proof -
  note w = write_memtable [OF t m]
  from flush_if_full_ok [OF w(1) assms(2)] assms(4) obtain t' where
    f: "flush_if_full x (t\<lparr>lt_memtable := m\<rparr>) = (Inr (), t')" "flushed x (t\<lparr>lt_memtable := m\<rparr>) t' M"
    by auto
  with w(2) show thesis by (intro that [of t']) (simp_all add: flushed_def)
qed

lemma flushed_refl:
  assumes "tree_ok x t M"
  shows "flushed x t t M"
proof -
  have "tree_levels t \<noteq> []" using assms by (auto simp: tree_ok_def store_ok_def tree_levels_def)
  with assms show ?thesis by (auto simp: flushed_def same_shape_def intro!: exI [of _ "[]"])
qed

lemma insert_batch_ok:
  assumes t: "tree_ok x t M" and total: "codecs_total x"
    and fits: "fits (mt_data (fold (\<lambda>(k, v). mt_insert k v) es (lt_memtable t)))"
  obtains t' where "insert_batch x es t = (Inr (), t')"
    and "flushed x (t\<lparr>lt_memtable := fold (\<lambda>(k, v). mt_insert k v) es (lt_memtable t)\<rparr>) t' M"
    and "tree_view t' = fold (\<lambda>(k, v) m. m(k \<mapsto> v)) es (tree_view t)"
proof -
  let ?m = "fold (\<lambda>(k, v). mt_insert k v) es (lt_memtable t)"
  have "mt_ok (lt_memtable t)" using t by (simp add: tree_ok_def)
  note m = fold_mt_insert [OF this, of es]
  obtain t' where f: "flush_if_full x (t\<lparr>lt_memtable := ?m\<rparr>) = (Inr (), t')" "flushed x (t\<lparr>lt_memtable := ?m\<rparr>) t' M"
      "tree_map t' = store_map (lt_store t) ++ mt_get ?m"
    by (rule write_flush_ok [OF t total conjunct1 [OF m] fits])
  have "tree_view t' = tree_view t ++ map_of (rev es)"
    using f(3) write_memtable(3) [OF t] m \<open>mt_ok (lt_memtable t)\<close>
    by (auto simp: tree_view_def fun_eq_iff live_map_add map_add_def live_def split: option.splits)
  then show thesis
    using f t flushed_refl [OF t] by (cases "es = []") (auto simp: insert_batch_def fold_upd_map_of intro: that [of t] that [of t'])
qed

lemma delete_batch_ok:
  assumes t: "tree_ok x t M" and total: "codecs_total x"
    and fits: "fits (mt_data (fold mt_delete ks (lt_memtable t)))"
  obtains t' where "delete_batch x ks t = (Inr (), t')"
    and "flushed x (t\<lparr>lt_memtable := fold mt_delete ks (lt_memtable t)\<rparr>) t' M"
    and "tree_view t' = fold (\<lambda>k m. m(k := None)) ks (tree_view t)"
proof -
  let ?m = "fold mt_delete ks (lt_memtable t)"
  have "mt_ok (lt_memtable t)" using t by (simp add: tree_ok_def)
  note m = fold_mt_delete [OF this, of ks]
  obtain t' where f: "flush_if_full x (t\<lparr>lt_memtable := ?m\<rparr>) = (Inr (), t')" "flushed x (t\<lparr>lt_memtable := ?m\<rparr>) t' M"
      "tree_map t' = store_map (lt_store t) ++ mt_get ?m"
    by (rule write_flush_ok [OF t total conjunct1 [OF m] fits])
  have "tree_view t' = (\<lambda>k. if k \<in> set ks then None else tree_view t k)"
    using f(3) write_memtable(3) [OF t] m \<open>mt_ok (lt_memtable t)\<close>
    by (auto simp: tree_view_def fun_eq_iff live_map_add map_add_def live_def split: option.splits)
  then show thesis
    using f t flushed_refl [OF t] by (cases "ks = []") (auto simp: delete_batch_def fold_upd_None intro: that [of t] that [of t'])
qed

end
