(* ===== verification/Samples.thy ===== *)
theory Samples
  imports LsmTree_Correct
begin

text \<open>
  Concrete inputs at which the hypotheses of the development hold: serialisers that satisfy
  \<open>codecs_ok\<close> and \<open>codecs_total\<close>, an empty tree on an empty disk, and trees that hold given
  runs in given levels.
\<close>

section \<open>Serialisers\<close>

text \<open>
  A list of lists of numbers as one list of numbers: every number is raised by one, zero ends
  a list. A list of numbers as bytes: each in unary, zero ends a number.
\<close>

definition flat :: "nat list list \<Rightarrow> nat list" where
  "flat xss = concat (map (\<lambda>xs. map Suc xs @ [0]) xss)"

fun unflat :: "nat list \<Rightarrow> nat list \<Rightarrow> nat list list" where
  "unflat acc [] = []"
| "unflat acc (0 # xs) = acc # unflat [] xs"
| "unflat acc (Suc x # xs) = unflat (acc @ [x]) xs"

lemma unflat_list: "unflat acc (map Suc xs @ 0 # ys) = (acc @ xs) # unflat [] ys"
  by (induction xs arbitrary: acc) auto

lemma unflat_flat: "unflat [] (flat xss) = xss"
  by (induction xss) (auto simp: flat_def unflat_list)

definition unary :: "nat list \<Rightarrow> byte list" where
  "unary xs = concat (map (\<lambda>n. replicate n 1 @ [0]) xs)"

fun ununary :: "nat \<Rightarrow> byte list \<Rightarrow> nat list" where
  "ununary n [] = []"
| "ununary n (b # bs) = (if b = 0 then n # ununary 0 bs else ununary (Suc n) bs)"

lemma ununary_one: "ununary m (replicate n 1 @ 0 # bs) = (m + n) # ununary 0 bs"
  by (induction n arbitrary: m) auto

lemma ununary_unary: "ununary 0 (unary xs) = xs"
proof (induction xs)
  case (Cons x xs)
  then show ?case using ununary_one [of 0 x "unary xs"] by (simp add: unary_def)
qed (simp add: unary_def)

definition sample_codecs :: codecs where
  "sample_codecs = \<lparr>
     cd_crc = (\<lambda>bs. of_nat (sum_list (map unat bs))),
     cd_ser_bloom = (\<lambda>b. Inr (unary (flat
        [[bl_num_bits b, bl_num_hashes b], map unat (bl_bits b)]))),
     cd_de_bloom = (\<lambda>bs. case unflat [] (ununary 0 bs) of
        [[n, k], bits] \<Rightarrow> Inr \<lparr>bl_bits = map of_nat bits, bl_num_bits = n, bl_num_hashes = k\<rparr>
      | _ \<Rightarrow> Inl ''invalid filter''),
     cd_ser_index = (\<lambda>i. Inr (unary (flat (ix_offsets i # map (map unat) (ix_keys i))))),
     cd_de_index = (\<lambda>bs. case unflat [] (ununary 0 bs) of
        offs # keys \<Rightarrow> Inr \<lparr>ix_keys = map (map of_nat) keys, ix_offsets = offs\<rparr>
      | _ \<Rightarrow> Inl ''invalid index'')\<rparr>"

lemma sample_codecs_total [simp]: "codecs_total sample_codecs"
  by (simp add: codecs_total_def sample_codecs_def)

lemma map_of_nat_unat: "map (\<lambda>w. of_nat (unat w)) (bs :: byte list) = bs"
  by (induction bs) auto

lemma sample_codecs_ok [simp]: "codecs_ok sample_codecs"
  by (auto simp: codecs_ok_def sample_codecs_def ununary_unary unflat_flat comp_def map_of_nat_unat)

section \<open>An empty tree\<close>

definition sample_world :: world where
  "sample_world = \<lparr>w_disk = sample_disk, w_refs = (\<lambda>_. 0), w_next_arc = 0\<rparr>"

definition sample_store :: store where
  "sample_store = \<lparr>st_world = sample_world, st_levels = replicate 7 [], st_next_run = 1, st_generation = 0\<rparr>"

definition sample_config :: lsm_config where
  "sample_config = default_config\<lparr>memtable_size := 1000, level0_compaction_trigger := 1\<rparr>"

definition sample_tree :: lsm_tree where
  "sample_tree = \<lparr>lt_path = [], lt_active_dir = [''active''], lt_snapshots_dir = [''snapshots''],
     lt_config = sample_config, lt_memtable = mt_new 0, lt_immutables = [], lt_sequence = 0,
     lt_store = sample_store, lt_max_level = 6, lt_credits = 0, lt_should_run = False,
     lt_shutdown = False, lt_waiting = False\<rparr>"

lemma run_fresh_sample: "run_fresh sample_disk [''active''] n"
  by (auto simp: run_fresh_def path_exists_contents run_file_def)

lemma runs_ok_sample: "runs_ok x [''active''] 1 sample_world {#}"
  by (simp add: runs_ok_def sample_world_def run_fresh_sample)

lemma store_ok_sample: "store_ok x [''active''] 6 sample_store {#}"
proof -
  have "concat (replicate 7 ([] :: sst_handle list)) = []" by simp
  then show ?thesis
    using runs_ok_sample by (simp add: store_ok_def sample_store_def nth_replicate)
qed

lemma tree_ok_sample: "tree_ok x sample_tree {#}"
  by (simp add: tree_ok_def sample_tree_def store_ok_sample)

lemma tree_map_sample: "tree_map sample_tree = Map.empty"
proof -
  have "levels_map d (replicate n []) = Map.empty" for d n
    by (induction n) simp_all
  then show ?thesis
    by (simp add: tree_map_def sample_tree_def store_map_def sample_store_def memtables_map_def)
qed

section \<open>Trees with given runs\<close>

text \<open>Writing some tables one after the other: every one becomes a run.\<close>

fun write_tables :: "codecs \<Rightarrow> path \<Rightarrow> nat \<Rightarrow> (key \<times> lsm_value option) list list \<Rightarrow> world
    \<Rightarrow> sst_handle list \<times> world" where
  "write_tables x dir n [] w = ([], w)"
| "write_tables x dir n (es # ess) w =
     (case write_run x dir n es 0 w of
        (Inl e, w') \<Rightarrow> ([], w')
      | (Inr h, w') \<Rightarrow> (case write_tables x dir (Suc n) ess w' of (hs, w'') \<Rightarrow> (h # hs, w'')))"

definition table_fine :: "(key \<times> lsm_value option) list \<Rightarrow> bool" where
  "table_fine es \<longleftrightarrow> es \<noteq> [] \<and> bt_wf es \<and> fits es"

lemma write_tables_ok:
  assumes "runs_ok x dir n w M" and "codecs_total x" and "\<forall>es \<in> set ess. table_fine es"
    and "write_tables x dir n ess w = (hs, w')"
  shows "runs_ok x dir (n + length ess) w' (mset hs + M) \<and> same_runs x w w' M
    \<and> list_all2 (run_ok x (w_disk w')) hs ess
    \<and> map h_run_number hs = [n..<n + length ess]"
  using assms
proof (induction ess arbitrary: n w M hs)
  case (Cons es ess)
  have fine: "es \<noteq> []" "bt_wf es" "fits es" using Cons.prems(3) by (auto simp: table_fine_def)
  obtain h w1 where h: "write_run x dir n es 0 w = (Inr h, w1)"
      "runs_ok x dir (Suc n) w1 (add_mset h M)" "same_runs x w w1 M"
      "run_ok x (w_disk w1) h es" "h_run_number h = n"
    using write_run_total [OF Cons.prems(1,2) fine, of 0] by blast
  obtain gs where gs: "write_tables x dir (Suc n) ess w1 = (gs, w')" "hs = h # gs"
    using Cons.prems(4) h(1) by (auto split: prod.splits)
  from Cons.IH [OF h(2) Cons.prems(2) _ gs(1)] Cons.prems(3)
  have ih: "runs_ok x dir (Suc n + length ess) w' (mset gs + add_mset h M)"
      "same_runs x w1 w' (add_mset h M)" "list_all2 (run_ok x (w_disk w')) gs ess"
      "map h_run_number gs = [Suc n..<Suc n + length ess]" by auto
  then have "run_ok x (w_disk w') h es" using h(4) by (auto simp: same_runs_def)
  moreover have "same_runs x w w' M"
    using same_runs_trans [OF h(3)] same_runs_mono [OF ih(2), of M] by auto
  moreover have "[n..<n + length (es # ess)] = n # [Suc n..<Suc n + length ess]"
    by (simp add: upt_conv_Cons del: upt_Suc)
  ultimately show ?case using ih gs(2) h(5) by (simp del: upt_Suc)
qed simp

definition tables_store :: "(key \<times> lsm_value option) list list \<Rightarrow> (sst_handle list \<Rightarrow> sst_handle list list) \<Rightarrow> store" where
  "tables_store ess place =
     (case write_tables sample_codecs [''active''] 1 ess sample_world of
        (hs, w) \<Rightarrow> \<lparr>st_world = w, st_levels = place hs, st_next_run = 1 + length ess, st_generation = 0\<rparr>)"

definition tables_tree :: "(key \<times> lsm_value option) list list \<Rightarrow> (sst_handle list \<Rightarrow> sst_handle list list) \<Rightarrow> lsm_tree" where
  "tables_tree ess place = sample_tree\<lparr>lt_store := tables_store ess place\<rparr>"

lemma tables_tree_ok:
  assumes fine: "\<forall>es \<in> set ess. table_fine es"
    and place: "\<And>hs. length hs = length ess \<Longrightarrow>
      mset (concat (place hs)) = mset hs \<and> length (place hs) = 7 \<and> length (place hs ! 6) \<le> 1"
  obtains hs where "tree_ok sample_codecs (tables_tree ess place) {#}"
    and "tree_levels (tables_tree ess place) = place hs"
    and "list_all2 (run_ok sample_codecs (tree_disk (tables_tree ess place))) hs ess"
    and "map h_run_number hs = [1..<1 + length ess]"
proof -
  obtain hs w where hs: "write_tables sample_codecs [''active''] 1 ess sample_world = (hs, w)"
    by (cases "write_tables sample_codecs [''active''] 1 ess sample_world")
  from write_tables_ok [OF runs_ok_sample sample_codecs_total fine hs]
  have w: "runs_ok sample_codecs [''active''] (1 + length ess) w (mset hs)"
      "list_all2 (run_ok sample_codecs (w_disk w)) hs ess"
      "map h_run_number hs = [1..<1 + length ess]"
    by auto
  have t: "tables_tree ess place = sample_tree\<lparr>lt_store := \<lparr>st_world = w, st_levels = place hs,
      st_next_run = 1 + length ess, st_generation = 0\<rparr>\<rparr>"
    unfolding tables_tree_def tables_store_def hs by simp
  have len: "length hs = length ess" using w(2) by (rule list_all2_lengthD)
  have "tree_ok sample_codecs (tables_tree ess place) {#}"
    using w(1) place [OF len] by (simp add: t tree_ok_def sample_tree_def store_ok_def)
  with w show thesis by (intro that [of hs]) (simp_all add: t tree_levels_def tree_disk_def)
qed

section \<open>A disk with given files\<close>

fun numbered :: "nat \<Rightarrow> (path \<times> byte list) list \<Rightarrow> (path \<times> nat) list" where
  "numbered n [] = []"
| "numbered n ((p, bs) # fs) = (p, n) # numbered (Suc n) fs"

definition disk_of :: "path list \<Rightarrow> (path \<times> byte list) list \<Rightarrow> disk" where
  "disk_of dirs fs = sample_disk\<lparr>d_dirs := dirs, d_names := numbered 0 fs, d_next := length fs,
     d_data := (\<lambda>i. if i < length fs then snd (fs ! i) else [])\<rparr>"

lemma numbered_contents:
  "map_option (\<lambda>i. snd (fs ! (i - n))) (map_of (numbered n fs) p) = map_of fs p
   \<and> (\<forall>i. map_of (numbered n fs) p = Some i \<longrightarrow> n \<le> i \<and> i < n + length fs)"
proof (induction n fs rule: numbered.induct)
  case (2 n q bs fs)
  have "map_option (\<lambda>i. snd (((q, bs) # fs) ! (i - n))) (map_of (numbered (Suc n) fs) p)
      = map_option (\<lambda>i. snd (fs ! (i - Suc n))) (map_of (numbered (Suc n) fs) p)"
    using 2 by (cases "map_of (numbered (Suc n) fs) p") (auto simp: nth_Cons')
  then show ?case using 2 by auto
qed simp

lemma contents_disk_of [simp]: "file_contents (disk_of dirs fs) = map_of fs"
proof
  fix p
  show "file_contents (disk_of dirs fs) p = map_of fs p"
    using numbered_contents [of fs 0 p]
    by (cases "map_of (numbered 0 fs) p") (auto simp: file_contents_def disk_of_def)
qed

text \<open>The five files of a run with the given entries, filter and index.\<close>

definition stored_files ::
    "codecs \<Rightarrow> path \<Rightarrow> nat \<Rightarrow> (key \<times> lsm_value option) list \<Rightarrow> byte list \<Rightarrow> byte list \<Rightarrow> (path \<times> byte list) list"
  where
  "stored_files x dir n es fb ib =
     [(run_file dir n ''keyops'', enc_keyops 0 es), (run_file dir n ''blobs'', enc_blobs es),
      (run_file dir n ''filter'', fb), (run_file dir n ''index'', ib),
      (run_file dir n ''checksums'', string_bytes (format_checksums_file
         (sw_checksums (cd_crc x (enc_keyops 0 es)) (cd_crc x (enc_blobs es)) (cd_crc x fb) (cd_crc x ib))))]"

lemma stored_files_run:
  assumes "table_fine es" and "codecs_total x"
  obtains fb ib where "stored_run x (map_of (stored_files x dir n es fb ib)) (run_paths_new dir n) es"
proof -
  obtain b where "bloom_from_keys (cd_crc x) (map (\<lambda>(k, _). key_bytes k) es) 10 = Inr b"
    using bloom_from_keys_total [of 10 "cd_crc x"] by auto
  then have b: "bloom_ok (cd_crc x) (map (\<lambda>(k, _). key_bytes k) es) b"
    using assms(1) by (intro bloom_ok_from_keys [of _ 10]) (auto simp: table_fine_def)
  from assms(2) obtain fb ib where "cd_ser_bloom x b = Inr fb" "cd_ser_index x (table_index es) = Inr ib"
    unfolding codecs_total_def by blast
  with assms(1) b show thesis
    by (intro that [of fb ib]) (simp add: stored_run_def stored_files_def table_fine_def, blast)
qed

end
