(* ===== verification/UserCompaction.thy ===== *)
theory UserCompaction
  imports LsmTree_Correct
begin

text \<open>
  Compaction as the user calls it, \<open>compact\<close> and \<open>compact_all\<close> of \<open>src/lib.rs\<close>: when they return
  \<open>Ok\<close>, and what they do to the levels, to the map the tree stands for and to the runs that
  others hold.
\<close>

section \<open>Everything into one run\<close>

lemma clear_levels_concat:
  "max_level < length ls \<Longrightarrow> concat (clear_levels max_level out ls) = option_handles out"
proof -
  assume "max_level < length ls"
  moreover have "concat ((map (\<lambda>_. []) ys)[n := xs]) = xs" if "n < length ys" for n ys and xs :: "'a list"
    using that
  proof (induction ys arbitrary: n)
    case (Cons y ys)
    have "concat (map (\<lambda>_. []) ys) = ([] :: 'a list)" by simp
    then show ?case using Cons by (cases n) auto
  qed simp
  ultimately show ?thesis by (simp add: clear_levels_def)
qed

lemma clear_levels_map:
  "max_level < length ls \<Longrightarrow> levels_map d (clear_levels max_level out ls) = level_map d (option_handles out)"
proof -
  assume "max_level < length ls"
  moreover have "levels_map d ((map (\<lambda>_. []) ys)[n := xs]) = level_map d xs" if "n < length ys" for n ys and xs :: "sst_handle list"
    using that
  proof (induction ys arbitrary: n)
    case (Cons y ys)
    have "levels_map d (map (\<lambda>_. []) ys) = Map.empty" by (induction ys) simp_all
    then show ?case using Cons by (cases n) auto
  qed simp
  ultimately show ?thesis by (simp add: clear_levels_def)
qed

lemma levels_map_no_runs: "concat ls = [] \<Longrightarrow> levels_map d ls = Map.empty"
  by (induction ls) auto

lemma few_ordered: "length (concat ls) \<le> 1 \<Longrightarrow> levels_ordered ls"
proof -
  assume few: "length (concat ls) \<le> 1"
  have "length l \<le> length (concat ls)" if "l \<in> set ls" for l
    using that by (induction ls) auto
  then have "sorted (map h_run_number l)" if "l \<in> set ls" for l
    using few that le_trans by (cases l) fastforce+
  then show ?thesis by (simp add: levels_ordered_def)
qed

lemma compact_all_ok:
  assumes t: "tree_ok x t M" and total: "codecs_total x"
    and size: "mergeable (tree_disk t) (concat (tree_levels t))"
  obtains t' where "compact_all x t = (Inr (), t')" and "tree_ok x t' M"
    and "store_map (lt_store t') = live_only (level_map (tree_disk t) (concat (tree_levels t)))"
    and "tree_map t' = live_only (level_map (tree_disk t) (concat (tree_levels t)))
           ++ memtables_map (lt_memtable t # rev (lt_immutables t))"
    and "length (concat (tree_levels t')) \<le> 1"
    and "same_shape t t'" and "levels_ordered (tree_levels t')"
    and "same_runs x (st_world (lt_store t)) (st_world (lt_store t')) M"
proof (cases "concat (tree_levels t) = []")
  case True
  have none: "live_only (level_map d (concat (tree_levels t))) = Map.empty" for d
    unfolding True by (simp add: fun_eq_iff live_only_def live_def)
  have "store_map (lt_store t) = Map.empty"
    using levels_map_no_runs [OF True] by (simp add: store_map_def tree_levels_def)
  then have "tree_map t = live_only (level_map (tree_disk t) (concat (tree_levels t)))
      ++ memtables_map (lt_memtable t # rev (lt_immutables t))"
    unfolding none by (simp add: tree_map_def)
  moreover have "compact_all x t = (Inr (), t)"
    unfolding compact_all_def Let_def True by simp
  moreover have "length (concat (tree_levels t)) \<le> 1" unfolding True by simp
  moreover note \<open>store_map (lt_store t) = Map.empty\<close>
  moreover have "levels_ordered (tree_levels t)" using True by (auto simp: levels_ordered_def)
  ultimately show thesis using t none by (intro that [of t]) (simp_all add: same_shape_def)
next
  case False
  let ?s = "lt_store t" and ?all = "concat (tree_levels t)" and ?max = "lt_max_level t"
  let ?s1 = "clone_in ?all ?s" and ?job = "\<lparr>cj_inputs = [0..<length ?all], cj_strategy = strategy (lt_config t)\<rparr>"
  let ?N = "mset ?all + (mset ?all + M)"
  have runs: "runs_ok x (lt_active_dir t) (st_next_run ?s) (st_world ?s) (mset ?all + M)"
    and len: "length (st_levels ?s) = Suc ?max" "1 \<le> ?max"
    using t by (auto simp: tree_ok_def store_ok_def tree_levels_def)
  have r1: "runs_ok x (lt_active_dir t) (st_next_run ?s) (st_world ?s1) ?N"
    using runs_ok_clone [OF runs, of ?all] by (simp add: clone_in_def)
  have disk: "w_disk (st_world ?s1) = tree_disk t" by (simp add: tree_disk_def)
  obtain r w' where c: "compact_job x ?job ?all (lt_active_dir t) (st_next_run ?s) (st_world ?s1) = (Inr r, w')"
      "output_ok x (lt_active_dir t) (st_next_run ?s) (st_world ?s1) ?N
         (live_only (level_map (tree_disk t) ?all)) r w'"
    by (rule compact_job_total [OF r1 total, of ?all ?job, unfolded disk]) (use size in auto)
  let ?out = "cr_output r" and ?m = "live_only (level_map (tree_disk t) ?all)"
  let ?ls = "clear_levels ?max ?out (st_levels ?s)"
  let ?s2 = "?s1\<lparr>st_next_run := Suc (st_next_run ?s), st_world := w', st_levels := ?ls\<rparr>"
  let ?t = "t\<lparr>lt_store := drop_in (?all @ ?all) ?s2\<rparr>"
  have run: "compact_all x t = (Inr (), ?t)"
    using False c(1) by (simp add: compact_all_def alloc_run_def on_world_def io_bind_def Let_def tree_levels_def
        del: concat_eq_Nil_conv)
  have out: "runs_ok x (lt_active_dir t) (Suc (st_next_run ?s)) w' (mset (option_handles ?out) + ?N)"
    and map: "level_map (w_disk w') (option_handles ?out) = ?m"
    using c(2) runs_ok_mono [OF r1, of "Suc (st_next_run ?s)"]
    by (auto simp: output_ok_def option_handles_def split: option.splits)
  have cc: "concat ?ls = option_handles ?out" using len by (simp add: clear_levels_concat)
  have N: "runs_ok x (lt_active_dir t) (st_next_run ?s2) (st_world ?s2)
      (mset (?all @ ?all) + (mset (option_handles ?out) + M))"
    using out by (simp add: ac_simps)
  note d = drop_in_ok [OF N]
  have sm: "store_map (drop_in (?all @ ?all) ?s2) = ?m"
  proof -
    have "levels_map (w_disk (st_world (drop_in (?all @ ?all) ?s2))) ?ls = levels_map (w_disk w') ?ls"
      by (rule levels_map_cong) (use d(3) in \<open>auto simp: cc\<close>)
    then show ?thesis using len map by (simp add: store_map_def clear_levels_map)
  qed
  then have tm: "tree_map ?t = ?m ++ memtables_map (lt_memtable t # rev (lt_immutables t))"
    by (simp add: tree_map_def)
  have "length (option_handles ?out) \<le> 1" by (simp add: option_handles_def split: option.split)
  moreover have "?ls ! ?max = option_handles ?out" "length ?ls = Suc ?max"
    using len by (simp_all add: clear_levels_def)
  ultimately have ok: "tree_ok x ?t M"
    using t d(1) len by (simp add: tree_ok_def store_ok_def cc)
  have few: "length (concat (tree_levels ?t)) \<le> 1"
    by (simp add: tree_levels_def cc option_handles_def split: option.split)
  have "same_runs x (st_world ?s1) w' ?N" using c(2) by (simp add: output_ok_def)
  then have "same_runs x (st_world ?s) (st_world (lt_store ?t)) M"
    using d(2) by (auto simp: same_runs_def clone_in_def)
  then show thesis
    by (intro that [OF run ok _ tm few] few_ordered few) (use sm in \<open>simp_all add: same_shape_def\<close>)
qed

text \<open>Run numbers by age: every run of a deeper level is older.\<close>

fun age_ordered :: "sst_handle list list \<Rightarrow> bool" where
  "age_ordered [] \<longleftrightarrow> True"
| "age_ordered (l # ls) \<longleftrightarrow>
     (\<forall>a \<in> set l. \<forall>b \<in> set (concat ls). h_run_number b < h_run_number a) \<and> age_ordered ls"

lemma sort_key_older:
  assumes "\<forall>a \<in> set l. \<forall>b \<in> set r. f b < f a"
  shows "sort_key f (l @ r) = sort_key f r @ sort_key f l"
proof (rule properties_for_sort_key)
  show "sorted (map f (sort_key f r @ sort_key f l))"
    using assms by (auto simp: sorted_append less_imp_le)
next
  fix k
  have s: "filter (\<lambda>x. f k = f x) (sort_key f zs) = filter (\<lambda>x. f k = f x) zs" for zs
    using sort_key_stable [of f "f k" zs] by (simp add: eq_commute)
  have "filter (\<lambda>x. f k = f x) l = [] \<or> filter (\<lambda>x. f k = f x) r = []"
    using assms by (auto simp: filter_empty_conv) (metis order_less_irrefl)
  then show "filter (\<lambda>x. f k = f x) (sort_key f r @ sort_key f l) = filter (\<lambda>x. f k = f x) (l @ r)"
    by (auto simp: s)
qed simp

lemma level_map_older:
  "\<forall>a \<in> set l. \<forall>b \<in> set r. h_run_number b < h_run_number a \<Longrightarrow>
   level_map d (l @ r) = level_map d r ++ level_map d l"
  by (simp add: level_map_def newest_first_def sort_key_older overlay_append)

lemma age_ordered_map: "age_ordered ls \<Longrightarrow> level_map d (concat ls) = levels_map d ls"
  by (induction ls) (auto simp: level_map_older)

section \<open>One round\<close>

lemma live_only_empty_iff: "live_only m = Map.empty \<longleftrightarrow> live m = Map.empty"
  by (simp add: fun_eq_iff live_only_def)

lemma picked_job:
  assumes "store_ok x dir max_level s M" and "pick_job (st_levels s) max_level trigger = Inr (Some job)"
  shows "lj_target_level job = Suc (lj_source_level job)" and "Suc (lj_source_level job) < length (st_levels s)"
    and "lj_target_level_runs job = st_levels s ! Suc (lj_source_level job)"
    and "lj_target_level job = max_level \<Longrightarrow> merged_map d job runs max_level =
      live_only (level_map d (lj_target_level_runs job) ++ level_map d runs)"
proof -
  have len: "length (st_levels s) = Suc max_level" "1 \<le> max_level" "length (st_levels s ! max_level) \<le> 1"
    using assms(1) by (auto simp: store_ok_def)
  with pick_job_ok [OF assms(2)] obtain i where i: "i < max_level" "job = level_job_for (st_levels s) i" by auto
  then show 1: "lj_target_level job = Suc (lj_source_level job)" "Suc (lj_source_level job) < length (st_levels s)"
    and 2: "lj_target_level_runs job = st_levels s ! Suc (lj_source_level job)"
    using len by (auto simp: level_job_for_def)
  show "merged_map d job runs max_level = live_only (level_map d (lj_target_level_runs job) ++ level_map d runs)"
    if "lj_target_level job = max_level"
    using that len 1 2 overlay_short [of "lj_target_level_runs job" d] by (simp add: merged_map_def)
qed

text \<open>A merge into the bottom level that leaves something, or finds nothing there, loses nothing.\<close>

lemma keeps_bottom:
  assumes s: "store_ok x dir max_level s M" and total: "codecs_total x"
    and size: "\<forall>job. pick_job (st_levels s) max_level trigger = Inr (Some job) \<longrightarrow>
      mergeable (w_disk (st_world s)) (st_levels s ! lj_source_level job @ lj_target_level_runs job)
      \<and> (lj_target_level job = max_level \<longrightarrow> lj_target_level_runs job \<noteq> [] \<longrightarrow>
           live (level_map (w_disk (st_world s)) (lj_target_level_runs job)
             ++ level_map (w_disk (st_world s)) (st_levels s ! lj_source_level job)) \<noteq> Map.empty)"
    and b: "compaction_begin max_level trigger s = (Inr (Some p), s1)"
    and m: "compaction_merge x dir max_level p s1 = (Inr r, s2)"
  shows "\<not> loses_bottom max_level p r"
proof -
  have j: "pick_job (st_levels s) max_level trigger = Inr (Some (pd_job p))"
    using b by (auto simp: compaction_begin_def Let_def split: sum.splits option.splits)
  obtain p' s1' r' s2' where "compaction_begin max_level trigger s = (Inr (Some p'), s1')"
      "compaction_merge x dir max_level p' s1' = (Inr r', s2')"
      "cr_output r' = None \<longleftrightarrow>
        merged_map (w_disk (st_world s)) (pd_job p) (st_levels s ! lj_source_level (pd_job p)) max_level = Map.empty"
    using round_ok [OF s total j] size j by metis
  with b m have "cr_output r = None \<longleftrightarrow>
      merged_map (w_disk (st_world s)) (pd_job p) (st_levels s ! lj_source_level (pd_job p)) max_level = Map.empty"
    by simp
  then show ?thesis
    using size [rule_format, OF j] picked_job(4) [OF s j]
    by (auto simp: loses_bottom_def live_only_empty_iff)
qed

text \<open>
  What a round needs: the full scan reaches the keys of the runs it merges, their values fit a
  run, and a merge into a bottom level that holds a run leaves something to write.
\<close>

definition compactable :: "lsm_tree \<Rightarrow> bool" where
  "compactable t \<longleftrightarrow>
     (\<forall>job. pick_job (tree_levels t) (lt_max_level t) (level0_compaction_trigger (lt_config t)) = Inr (Some job) \<longrightarrow>
       mergeable (tree_disk t) (tree_levels t ! lj_source_level job @ lj_target_level_runs job)
       \<and> (lj_target_level job = lt_max_level t \<longrightarrow> lj_target_level_runs job \<noteq> [] \<longrightarrow>
            live (level_map (tree_disk t) (lj_target_level_runs job)
              ++ level_map (tree_disk t) (tree_levels t ! lj_source_level job)) \<noteq> Map.empty))"

text \<open>The part of it that the round needs to return \<open>Ok\<close>.\<close>

definition round_fits :: "lsm_tree \<Rightarrow> bool" where
  "round_fits t \<longleftrightarrow>
     (\<forall>job. pick_job (tree_levels t) (lt_max_level t) (level0_compaction_trigger (lt_config t)) = Inr (Some job) \<longrightarrow>
       mergeable (tree_disk t) (tree_levels t ! lj_source_level job @ lj_target_level_runs job))"

lemma compactable_fits: "compactable t \<Longrightarrow> round_fits t"
  by (simp add: compactable_def round_fits_def)

lemma tree_compact_ok:
  assumes t: "tree_ok x t M" and total: "codecs_total x" and size: "round_fits t"
  obtains s' where "tree_compact x t = (Inr (), t\<lparr>lt_store := s'\<rparr>)" and "tree_ok x (t\<lparr>lt_store := s'\<rparr>) M"
    and "compactable t \<longrightarrow> live (store_map s') = live (store_map (lt_store t))"
    and "levels_ordered (tree_levels t) \<longrightarrow> levels_ordered (st_levels s')"
    and "same_runs x (st_world (lt_store t)) (st_world s') M"
proof -
  let ?trigger = "level0_compaction_trigger (lt_config t)" and ?s = "lt_store t"
  have s: "store_ok x (lt_active_dir t) (lt_max_level t) ?s M" using t by (simp add: tree_ok_def)
  have merge: "mergeable (w_disk (st_world ?s)) (st_levels ?s ! lj_source_level job @ lj_target_level_runs job)"
    if "pick_job (st_levels ?s) (lt_max_level t) ?trigger = Inr (Some job)" for job
    using size that by (simp add: round_fits_def tree_levels_def tree_disk_def)
  obtain s' where c: "run_compaction x (lt_active_dir t) (lt_max_level t) ?trigger ?s = (Inr (), s')"
      "store_ok x (lt_active_dir t) (lt_max_level t) s' M"
      "(\<forall>p s1 r s2. compaction_begin (lt_max_level t) ?trigger ?s = (Inr (Some p), s1) \<longrightarrow>
        compaction_merge x (lt_active_dir t) (lt_max_level t) p s1 = (Inr r, s2) \<longrightarrow> \<not> loses_bottom (lt_max_level t) p r)
        \<longrightarrow> live (store_map s') = live (store_map ?s)"
      "levels_ordered (st_levels ?s) \<longrightarrow> levels_ordered (st_levels s')"
      "same_runs x (st_world ?s) (st_world s') M"
    by (rule run_compaction_ok [OF s total merge])
  moreover have "live (store_map s') = live (store_map ?s)" if "compactable t"
    using c(3) keeps_bottom [OF s total that [unfolded compactable_def tree_levels_def tree_disk_def]] by blast
  ultimately
  show thesis
    using t by (intro that [of s']) (simp_all add: tree_compact_def on_store_def tree_ok_def tree_levels_def)
qed

end
