(* ===== verification/Background.thy ===== *)
theory Background
  imports Samples UserCompaction
begin

text \<open>
  The writer and the background compaction thread, \<open>background_compact_loop\<close> of
  \<open>src/lib.rs\<close>, as one step relation. The thread is idle, or it holds a round it has begun, or
  a merged result it has not written back; the writer may insert, delete, write batches, compact,
  take and drop snapshots and roll back between any two of its steps, unless it waits in the
  back-pressure loop of a flush. Steps that satisfy \<open>step_fits\<close> keep \<open>sys_invar\<close>; those that
  satisfy \<open>step_fine\<close> are steps of the abstract machine \<open>spec_step\<close> on the current map and the
  snapshots' maps.
\<close>

section \<open>The thread\<close>

datatype bg_state =
    BgIdle
  | BgRunning pending
  | BgMerged pending compaction_result

definition bg_ready :: "lsm_tree \<Rightarrow> bool" where
  "bg_ready t \<longleftrightarrow>
     of_nat (merge_batch_size (lt_config t)) \<le> lt_credits t
     \<or> (case tree_levels t of
          [] \<Rightarrow> False
        | l0 # _ \<Rightarrow> level0_compaction_trigger (lt_config t) \<le> length l0)"

text \<open>\<open>c.saturating_sub(merge_batch_size)\<close>\<close>

definition spend_credits :: "lsm_tree \<Rightarrow> lsm_tree" where
  "spend_credits t =
     (let batch = of_nat (merge_batch_size (lt_config t)) in
      t\<lparr>lt_credits := (if batch \<le> lt_credits t then lt_credits t - batch else 0)\<rparr>)"

definition bg_wake :: "lsm_tree \<Rightarrow> bg_state \<times> lsm_tree" where
  "bg_wake t =
     (let t1 = t\<lparr>lt_should_run := False\<rparr> in
      if \<not> bg_ready t1 then (BgIdle, t1)
      else
        (case on_store (compaction_begin (lt_max_level t1)
                (level0_compaction_trigger (lt_config t1))) t1 of
           (Inr (Some p), t2) \<Rightarrow> (BgRunning p, t2)
         | (_, t2) \<Rightarrow> (BgIdle, spend_credits t2)))"

definition bg_merge :: "codecs \<Rightarrow> pending \<Rightarrow> lsm_tree \<Rightarrow> bg_state \<times> lsm_tree" where
  "bg_merge x p t =
     (case compaction_merge x (lt_active_dir t) (lt_max_level t) p (lt_store t) of
        (Inr r, s) \<Rightarrow> (BgMerged p r, t\<lparr>lt_store := s\<rparr>)
      | (Inl e, s) \<Rightarrow> (BgIdle, spend_credits (t\<lparr>lt_store := drop_in (pending_handles p) s\<rparr>)))"

definition bg_commit :: "pending \<Rightarrow> compaction_result \<Rightarrow> lsm_tree \<Rightarrow> bg_state \<times> lsm_tree" where
  "bg_commit p r t =
     (BgIdle, spend_credits (snd (on_store (compaction_commit (lt_max_level t) p r) t)))"

section \<open>The system\<close>

record system =
  sy_tree :: lsm_tree
  sy_bg :: bg_state
  sy_snapshots :: "lsm_snapshot list"

datatype event =
    Insert key lsm_value
  | Delete key
  | InsertBatch "(key \<times> lsm_value) list"
  | DeleteBatch "key list"
  | Compact
  | CompactAll
  | TakeSnapshot
  | Rollback nat
  | DropSnapshot nat
  | WaitDone
  | BgWake
  | BgMerge
  | BgCommit

definition remove_nth :: "nat \<Rightarrow> 'a list \<Rightarrow> 'a list" where
  "remove_nth i xs = take i xs @ drop (Suc i) xs"

text \<open>\<open>if current_l0 <= self.config.level0_compaction_trigger * 2 { break; }\<close>\<close>

definition l0_drained :: "lsm_tree \<Rightarrow> bool" where
  "l0_drained t \<longleftrightarrow> l0_len (tree_levels t) \<le> level0_compaction_trigger (lt_config t) * 2"

inductive sys_step :: "codecs \<Rightarrow> system \<Rightarrow> event \<Rightarrow> system \<Rightarrow> bool" for x where
  insert: "\<not> lt_waiting (sy_tree s) \<Longrightarrow> tree_insert x k v (sy_tree s) = (r, t') \<Longrightarrow>
    sys_step x s (Insert k v) (s\<lparr>sy_tree := t'\<rparr>)"
| delete: "\<not> lt_waiting (sy_tree s) \<Longrightarrow> tree_delete x k (sy_tree s) = (r, t') \<Longrightarrow>
    sys_step x s (Delete k) (s\<lparr>sy_tree := t'\<rparr>)"
| insert_batch: "\<not> lt_waiting (sy_tree s) \<Longrightarrow> insert_batch x kvs (sy_tree s) = (r, t') \<Longrightarrow>
    sys_step x s (InsertBatch kvs) (s\<lparr>sy_tree := t'\<rparr>)"
| delete_batch: "\<not> lt_waiting (sy_tree s) \<Longrightarrow> delete_batch x ks (sy_tree s) = (r, t') \<Longrightarrow>
    sys_step x s (DeleteBatch ks) (s\<lparr>sy_tree := t'\<rparr>)"
| compact: "\<not> lt_waiting (sy_tree s) \<Longrightarrow> tree_compact x (sy_tree s) = (r, t') \<Longrightarrow>
    sys_step x s Compact (s\<lparr>sy_tree := t'\<rparr>)"
| compact_all: "\<not> lt_waiting (sy_tree s) \<Longrightarrow> compact_all x (sy_tree s) = (r, t') \<Longrightarrow>
    sys_step x s CompactAll (s\<lparr>sy_tree := t'\<rparr>)"
| snapshot: "\<not> lt_waiting (sy_tree s) \<Longrightarrow> tree_snapshot (sy_tree s) = (sn, t') \<Longrightarrow>
    sys_step x s TakeSnapshot (s\<lparr>sy_tree := t', sy_snapshots := sy_snapshots s @ [sn]\<rparr>)"
| rollback: "\<not> lt_waiting (sy_tree s) \<Longrightarrow> i < length (sy_snapshots s) \<Longrightarrow>
    tree_rollback (sy_snapshots s ! i) (sy_tree s) = (r, t') \<Longrightarrow>
    sys_step x s (Rollback i) (s\<lparr>sy_tree := t', sy_snapshots := remove_nth i (sy_snapshots s)\<rparr>)"
| drop: "i < length (sy_snapshots s) \<Longrightarrow>
    sys_step x s (DropSnapshot i)
      (s\<lparr>sy_tree := drop_snapshot (sy_snapshots s ! i) (sy_tree s),
         sy_snapshots := remove_nth i (sy_snapshots s)\<rparr>)"
| wait_done: "lt_waiting (sy_tree s) \<Longrightarrow> l0_drained (sy_tree s) \<Longrightarrow>
    sys_step x s WaitDone (s\<lparr>sy_tree := (sy_tree s)\<lparr>lt_waiting := False\<rparr>\<rparr>)"
| wake: "sy_bg s = BgIdle \<Longrightarrow> lt_should_run (sy_tree s) \<Longrightarrow> \<not> lt_shutdown (sy_tree s) \<Longrightarrow>
    bg_wake (sy_tree s) = (b, t') \<Longrightarrow>
    sys_step x s BgWake (s\<lparr>sy_tree := t', sy_bg := b\<rparr>)"
| merge: "sy_bg s = BgRunning p \<Longrightarrow> bg_merge x p (sy_tree s) = (b, t') \<Longrightarrow>
    sys_step x s BgMerge (s\<lparr>sy_tree := t', sy_bg := b\<rparr>)"
| commit: "sy_bg s = BgMerged p r \<Longrightarrow> bg_commit p r (sy_tree s) = (b, t') \<Longrightarrow>
    sys_step x s BgCommit (s\<lparr>sy_tree := t', sy_bg := b\<rparr>)"

inductive_cases sys_stepE: "sys_step x s e s'"

section \<open>The abstract machine\<close>

type_synonym spec_state = "(key \<rightharpoonup> lsm_value) \<times> (key \<rightharpoonup> lsm_value) list"

fun spec_step :: "event \<Rightarrow> spec_state \<Rightarrow> spec_state" where
  "spec_step (Insert k v) (m, ss) = (m(k \<mapsto> v), ss)"
| "spec_step (Delete k) (m, ss) = (m(k := None), ss)"
| "spec_step (InsertBatch kvs) (m, ss) = (fold (\<lambda>(k, v) m. m(k \<mapsto> v)) kvs m, ss)"
| "spec_step (DeleteBatch ks) (m, ss) = (fold (\<lambda>k m. m(k := None)) ks m, ss)"
| "spec_step Compact st = st"
| "spec_step CompactAll st = st"
| "spec_step TakeSnapshot (m, ss) = (m, ss @ [m])"
| "spec_step (Rollback i) (m, ss) = (ss ! i, remove_nth i ss)"
| "spec_step (DropSnapshot i) (m, ss) = (m, remove_nth i ss)"
| "spec_step WaitDone st = st"
| "spec_step BgWake st = st"
| "spec_step BgMerge st = st"
| "spec_step BgCommit st = st"

definition snapshot_map :: "disk \<Rightarrow> lsm_snapshot \<Rightarrow> key \<rightharpoonup> lsm_value option" where
  "snapshot_map d sn = levels_map d (sn_levels sn) ++ mt_get (sn_memtable sn)"

definition spec_of :: "system \<Rightarrow> spec_state" where
  "spec_of s =
     (tree_view (sy_tree s),
      map (\<lambda>sn. live (snapshot_map (tree_disk (sy_tree s)) sn)) (sy_snapshots s))"

text \<open>
  What the machine must be able to hold. The next memtable, in full even if it is not flushed,
  must fit the run format, and the runs that a round or \<open>compact_all\<close> merges must be
  \<open>mergeable\<close>: their values fit a run and the full scan reaches their keys. The user compacts
  only while the thread is idle.
\<close>

definition step_fits :: "system \<Rightarrow> event \<Rightarrow> bool" where
  "step_fits s e =
     (case e of
        Insert k v \<Rightarrow> fits (mt_data (mt_insert k v (lt_memtable (sy_tree s))))
      | Delete k \<Rightarrow> fits (mt_data (mt_delete k (lt_memtable (sy_tree s))))
      | InsertBatch kvs \<Rightarrow> fits (mt_data (fold (\<lambda>(k, v). mt_insert k v) kvs (lt_memtable (sy_tree s))))
      | DeleteBatch ks \<Rightarrow> fits (mt_data (fold mt_delete ks (lt_memtable (sy_tree s))))
      | Compact \<Rightarrow> sy_bg s = BgIdle \<and> round_fits (sy_tree s)
      | CompactAll \<Rightarrow> sy_bg s = BgIdle \<and> mergeable (tree_disk (sy_tree s)) (concat (tree_levels (sy_tree s)))
      | BgMerge \<Rightarrow> (case sy_bg s of
            BgRunning p \<Rightarrow> mergeable (tree_disk (sy_tree s)) (pd_source p @ lj_target_level_runs (pd_job p))
          | _ \<Rightarrow> True)
      | _ \<Rightarrow> True)"

text \<open>
  What the code needs besides, to show every reader the abstract map: no compaction into the
  bottom level, by the user or by the thread, comes out empty while that level holds a run, and
  \<open>compact_all\<close> finds the run numbers in the order of age.
\<close>

definition step_fine :: "system \<Rightarrow> event \<Rightarrow> bool" where
  "step_fine s e \<longleftrightarrow>
     step_fits s e
     \<and> (case e of
          Compact \<Rightarrow> compactable (sy_tree s)
        | CompactAll \<Rightarrow> age_ordered (tree_levels (sy_tree s))
        | BgCommit \<Rightarrow> (case sy_bg s of
              BgMerged p r \<Rightarrow> st_generation (lt_store (sy_tree s)) = pd_generation p \<longrightarrow>
                \<not> loses_bottom (lt_max_level (sy_tree s)) p r
            | _ \<Rightarrow> True)
        | _ \<Rightarrow> True)"

lemma step_fine_fits: "step_fine s e \<Longrightarrow> step_fits s e"
  by (simp add: step_fine_def)

text \<open>The states that steps allowed by \<open>P\<close> lead to.\<close>

inductive reachable :: "(system \<Rightarrow> event \<Rightarrow> bool) \<Rightarrow> codecs \<Rightarrow> system \<Rightarrow> event list \<Rightarrow> system \<Rightarrow> bool" for P x s0 where
  start: "reachable P x s0 [] s0"
| step: "reachable P x s0 es s \<Longrightarrow> P s e \<Longrightarrow> sys_step x s e s' \<Longrightarrow> reachable P x s0 (es @ [e]) s'"

lemma reachable_mono:
  assumes "reachable P x s0 es s" and "\<And>s e. P s e \<Longrightarrow> Q s e"
  shows "reachable Q x s0 es s"
  using assms(1) by (induction rule: reachable.induct) (auto intro: reachable.intros assms(2))

section \<open>The invariant\<close>

definition bg_handles :: "bg_state \<Rightarrow> sst_handle list" where
  "bg_handles b =
     (case b of
        BgIdle \<Rightarrow> []
      | BgRunning p \<Rightarrow> pending_handles p
      | BgMerged p r \<Rightarrow> option_handles (cr_output r) @ pending_handles p)"

definition snapshot_handles :: "lsm_snapshot list \<Rightarrow> sst_handle list" where
  "snapshot_handles sns = concat (map (\<lambda>sn. concat (sn_levels sn)) sns)"

definition snapshot_ok :: "lsm_tree \<Rightarrow> lsm_snapshot \<Rightarrow> bool" where
  "snapshot_ok t sn \<longleftrightarrow>
     mt_ok (sn_memtable sn) \<and> sn_immutables sn = [] \<and> length (sn_levels sn) = Suc (lt_max_level t)
     \<and> length (sn_levels sn ! lt_max_level t) \<le> 1 \<and> sn_sequence sn \<le> lt_sequence t
     \<and> lt_sequence t \<le> sn_sequence sn \<and> levels_ordered (sn_levels sn)"

definition bg_ok :: "lsm_tree \<Rightarrow> bg_state \<Rightarrow> bool" where
  "bg_ok t b =
     (case b of
        BgIdle \<Rightarrow> True
      | BgRunning p \<Rightarrow> pending_ok (lt_max_level t) p (lt_store t)
      | BgMerged p r \<Rightarrow> pending_ok (lt_max_level t) p (lt_store t)
          \<and> result_ok (lt_max_level t) p r (lt_store t))"

definition others :: "bg_state \<Rightarrow> lsm_snapshot list \<Rightarrow> sst_handle multiset" where
  "others b sns = mset (bg_handles b) + mset (snapshot_handles sns)"

definition sys_invar :: "codecs \<Rightarrow> system \<Rightarrow> bool" where
  "sys_invar x s \<longleftrightarrow>
     (let t = sy_tree s in
      tree_ok x t (others (sy_bg s) (sy_snapshots s)) \<and> levels_ordered (tree_levels t)
      \<and> (\<forall>sn \<in> set (sy_snapshots s). snapshot_ok t sn) \<and> bg_ok t (sy_bg s))"

end
