(* ===== verification/Background_Correct.thy ===== *)
theory Background_Correct
  imports Background
begin

text \<open>
  Every step that fits keeps \<open>sys_invar\<close>, and a fine one is a step of the abstract machine. The steps that only add
  runs share \<open>flushed_step\<close>; the ones that drop handles rest on \<open>runs_ok_drop\<close>; the write-back
  of the thread rests on \<open>commit_ok\<close>.
\<close>

section \<open>What stays the same\<close>

lemma tree_runs_ok:
  "tree_ok x t M \<Longrightarrow>
   runs_ok x (lt_active_dir t) (st_next_run (lt_store t)) (st_world (lt_store t))
     (mset (concat (tree_levels t)) + M)"
  by (simp add: tree_ok_def store_ok_def tree_levels_def)

lemma kept_run_map:
  assumes "tree_ok x t M"
    and "same_runs x (st_world (lt_store t)) (st_world (lt_store t')) N"
    and "h \<in># N" and "h \<in># mset (concat (tree_levels t)) + M"
  shows "run_map (tree_disk t') h = run_map (tree_disk t) h"
proof -
  obtain es where es: "run_ok x (tree_disk t) h es"
    using tree_runs_ok [OF assms(1)] assms(4) by (auto simp: runs_ok_def tree_disk_def)
  then have "run_ok x (tree_disk t') h es"
    using assms(2,3) by (auto simp: same_runs_def tree_disk_def)
  with es show ?thesis by (simp add: run_map_def entries_of_run)
qed

lemma snapshot_map_kept:
  assumes "tree_ok x t M" and "same_runs x (st_world (lt_store t)) (st_world (lt_store t')) N"
    and "set (concat (sn_levels sn)) \<subseteq> set_mset N" and "set (concat (sn_levels sn)) \<subseteq> set_mset M"
  shows "snapshot_map (tree_disk t') sn = snapshot_map (tree_disk t) sn"
proof -
  have "levels_map (tree_disk t') (sn_levels sn) = levels_map (tree_disk t) (sn_levels sn)"
    using assms(3,4) by (intro levels_map_cong kept_run_map [OF assms(1,2)]) auto
  then show ?thesis by (simp add: snapshot_map_def)
qed

lemma snapshot_handles_in:
  "sn \<in> set sns \<Longrightarrow> set (concat (sn_levels sn)) \<subseteq> set (snapshot_handles sns)"
  by (auto simp: snapshot_handles_def)

lemma result_ok_kept:
  fixes t' :: lsm_tree
  assumes res: "result_ok max_level p r (lt_store t)" and job: "job_ok max_level p"
    and t: "tree_ok x t M" and same: "same_runs x (st_world (lt_store t)) (st_world (lt_store t')) N"
    and N: "set (bg_handles (BgMerged p r)) \<subseteq> set_mset N" "set (bg_handles (BgMerged p r)) \<subseteq> set_mset M"
  shows "result_ok max_level p r (lt_store t')"
proof -
  have kept: "run_map (w_disk (st_world (lt_store t'))) h = run_map (w_disk (st_world (lt_store t))) h"
    if "h \<in> set (bg_handles (BgMerged p r))" for h
    using kept_run_map [OF t same, of h] that N by (auto simp: tree_disk_def)
  have "merged_map (w_disk (st_world (lt_store t'))) (pd_job p) (pd_source p) max_level =
      merged_map (w_disk (st_world (lt_store t))) (pd_job p) (pd_source p) max_level"
  proof -
    have "level_map (w_disk (st_world (lt_store t'))) (pd_source p) =
        level_map (w_disk (st_world (lt_store t))) (pd_source p)"
      by (intro level_map_cong kept) (simp add: bg_handles_def pending_handles_def)
    moreover have "overlay (map (run_map (w_disk (st_world (lt_store t')))) (lj_target_level_runs (pd_job p))) =
        overlay (map (run_map (w_disk (st_world (lt_store t)))) (lj_target_level_runs (pd_job p)))"
      by (intro arg_cong [of _ _ overlay] map_cong refl kept) (simp add: bg_handles_def pending_handles_def)
    ultimately show ?thesis by (simp add: merged_map_def)
  qed
  moreover have "run_map (w_disk (st_world (lt_store t'))) h = run_map (w_disk (st_world (lt_store t))) h"
    if "cr_output r = Some h" for h
    using that by (intro kept) (simp add: bg_handles_def option_handles_def)
  ultimately show ?thesis
    using res by (auto simp: result_ok_def Let_def split: option.splits)
qed

text \<open>The parts of the invariant that concern the thread, carried to a later tree.\<close>

lemma bg_ok_kept:
  assumes bg: "bg_ok t b" and t: "tree_ok x t M" and sub: "set (bg_handles b) \<subseteq> set_mset M"
    and same: "same_runs x (st_world (lt_store t)) (st_world (lt_store t')) N"
    and N: "set (bg_handles b) \<subseteq> set_mset N" and max: "lt_max_level t' = lt_max_level t"
    and pend: "\<And>p. pending_ok (lt_max_level t) p (lt_store t) \<Longrightarrow> set (pending_handles p) \<subseteq> set_mset M
       \<Longrightarrow> pending_ok (lt_max_level t) p (lt_store t')"
  shows "bg_ok t' b"
proof (cases b)
  case (BgRunning p)
  with bg sub pend [of p] max show ?thesis by (simp add: bg_ok_def bg_handles_def)
next
  case (BgMerged p r)
  have "result_ok (lt_max_level t) p r (lt_store t')"
    using bg sub N BgMerged
    by (intro result_ok_kept [OF _ _ t same]) (auto simp: bg_ok_def pending_ok_def)
  with bg sub pend [of p] max BgMerged show ?thesis by (simp add: bg_ok_def bg_handles_def)
qed (simp add: bg_ok_def)

section \<open>Writing\<close>

lemma levels_grew_push:
  assumes "levels_grew old new"
    and "\<forall>a \<in> set (concat old). \<forall>b \<in> set extra. h_run_number a < h_run_number b"
  shows "levels_grew old ((hd new @ extra) # tl new)"
proof -
  from assms(1) obtain e where "old \<noteq> []" "new = (hd old @ e) # tl old"
    "\<forall>a \<in> set (concat old). \<forall>b \<in> set e. h_run_number a < h_run_number b"
    by (auto simp: levels_grew_def)
  with assms(2) show ?thesis
    by (auto simp: levels_grew_def intro!: exI [of _ "e @ extra"])
qed

lemma levels_ordered_append:
  assumes "levels_ordered ls" and "ls \<noteq> []"
    and "\<forall>a \<in> set (hd ls). \<forall>b \<in> set extra. h_run_number a \<le> h_run_number b" and "length extra \<le> 1"
  shows "levels_ordered ((hd ls @ extra) # tl ls)"
proof -
  have "sorted (map h_run_number extra)" using assms(4) by (cases extra) auto
  with assms(1-3) show ?thesis
    by (cases ls) (auto simp: levels_ordered_def sorted_append)
qed

lemma flushed_step:
  assumes inv: "sys_invar x s" and f: "flushed x t1 t' (others (sy_bg s) (sy_snapshots s))"
    and t1: "t1 = (sy_tree s)\<lparr>lt_memtable := m\<rparr>" and m: "mt_ok m"
  shows "sys_invar x (s\<lparr>sy_tree := t'\<rparr>)"
    and "snd (spec_of (s\<lparr>sy_tree := t'\<rparr>)) = snd (spec_of s)"
proof -
  let ?t = "sy_tree s" and ?M = "others (sy_bg s) (sy_snapshots s)"
  have t: "tree_ok x ?t ?M" and ord: "levels_ordered (tree_levels ?t)"
    and sn: "\<forall>sn \<in> set (sy_snapshots s). snapshot_ok ?t sn" and bg: "bg_ok ?t (sy_bg s)"
    using inv by (auto simp: sys_invar_def Let_def)
  obtain extra where t': "tree_ok x t' ?M" "lt_max_level t' = lt_max_level ?t"
      "lt_sequence t' = lt_sequence ?t" "st_generation (lt_store t') = st_generation (lt_store ?t)"
    and same: "same_runs x (st_world (lt_store ?t)) (st_world (lt_store t')) (mset (concat (tree_levels ?t)) + ?M)"
    and levels: "tree_levels t' = (hd (tree_levels ?t) @ extra) # tl (tree_levels ?t)"
      "\<forall>h \<in> set extra. st_next_run (lt_store ?t) \<le> h_run_number h" "length extra \<le> 1"
    using f by (auto simp: flushed_def t1 same_shape_def tree_levels_def)
  have below: "h_run_number a < st_next_run (lt_store ?t)"
    if "a \<in># mset (concat (tree_levels ?t)) + ?M" for a
    using tree_runs_ok [OF t] that by (auto simp: runs_ok_def)
  have ne: "tree_levels ?t \<noteq> []" using t by (auto simp: tree_ok_def store_ok_def tree_levels_def)
  have "\<forall>a \<in> set (hd (tree_levels ?t)). \<forall>b \<in> set extra. h_run_number a \<le> h_run_number b"
  proof (intro ballI)
    fix a b
    assume "a \<in> set (hd (tree_levels ?t))" "b \<in> set extra"
    then show "h_run_number a \<le> h_run_number b"
      using below [of a] levels(2) ne by (force dest: hd_in_set)
  qed
  then have ord': "levels_ordered (tree_levels t')"
    unfolding levels(1) using ord ne levels(3) by (intro levels_ordered_append)
  have bg': "bg_ok t' (sy_bg s)"
  proof (rule bg_ok_kept [OF bg t _ same _ t'(2)])
    fix p
    assume p: "pending_ok (lt_max_level ?t) p (lt_store ?t)" and sub: "set (pending_handles p) \<subseteq> set_mset ?M"
    have "\<forall>a \<in> set (concat (pd_levels p)). \<forall>b \<in> set extra. h_run_number a < h_run_number b"
    proof (intro ballI)
      fix a b
      assume "a \<in> set (concat (pd_levels p))" "b \<in> set extra"
      then have "a \<in># ?M" "st_next_run (lt_store ?t) \<le> h_run_number b"
        using sub levels(2) by (auto simp: pending_handles_def)
      then show "h_run_number a < h_run_number b" using below [of a] by simp
    qed
    then show "pending_ok (lt_max_level ?t) p (lt_store t')"
      using p t'(4) levels(1) levels_grew_push [of "pd_levels p" "tree_levels ?t" extra]
      by (simp add: pending_ok_def tree_levels_def)
  qed (auto simp: others_def)
  show "sys_invar x (s\<lparr>sy_tree := t'\<rparr>)"
    using t' ord' bg' sn by (auto simp: sys_invar_def Let_def snapshot_ok_def)
  have "snapshot_map (tree_disk t') sn = snapshot_map (tree_disk ?t) sn" if "sn \<in> set (sy_snapshots s)" for sn
    using snapshot_handles_in [OF that]
    by (intro snapshot_map_kept [OF t same]) (auto simp: others_def)
  then show "snd (spec_of (s\<lparr>sy_tree := t'\<rparr>)) = snd (spec_of s)"
    by (simp add: spec_of_def)
qed

lemma insert_step:
  assumes inv: "sys_invar x s" and total: "codecs_total x"
    and fine: "step_fits s (Insert k v)" and run: "tree_insert x k v (sy_tree s) = (r, t')"
  shows "r = Inr ()" and "sys_invar x (s\<lparr>sy_tree := t'\<rparr>)"
    and "spec_of (s\<lparr>sy_tree := t'\<rparr>) = spec_step (Insert k v) (spec_of s)"
proof -
  let ?t = "sy_tree s" and ?M = "others (sy_bg s) (sy_snapshots s)"
  have t: "tree_ok x ?t ?M" using inv by (simp add: sys_invar_def Let_def)
  have m: "mt_ok (lt_memtable ?t)" using t by (simp add: tree_ok_def)
  have fits: "fits (mt_data (mt_insert k v (lt_memtable ?t)))" using fine by (simp add: step_fits_def)
  obtain t2 where ok: "tree_insert x k v ?t = (Inr (), t2)"
      "flushed x (?t\<lparr>lt_memtable := mt_insert k v (lt_memtable ?t)\<rparr>) t2 ?M"
      "tree_map t2 = (tree_map ?t)(k \<mapsto> Some v)"
    by (rule tree_insert_ok [OF t total fits])
  then have eq: "r = Inr ()" "t' = t2" using run by auto
  then show "r = Inr ()" by simp
  note f = flushed_step [OF inv ok(2) refl mt_ok_insert [OF m]]
  show "sys_invar x (s\<lparr>sy_tree := t'\<rparr>)" using f(1) eq by simp
  show "spec_of (s\<lparr>sy_tree := t'\<rparr>) = spec_step (Insert k v) (spec_of s)"
    using f(2) eq ok(3) by (auto simp: spec_of_def tree_view_def live_insert)
qed

lemma delete_step:
  assumes inv: "sys_invar x s" and total: "codecs_total x"
    and fine: "step_fits s (Delete k)" and run: "tree_delete x k (sy_tree s) = (r, t')"
  shows "r = Inr ()" and "sys_invar x (s\<lparr>sy_tree := t'\<rparr>)"
    and "spec_of (s\<lparr>sy_tree := t'\<rparr>) = spec_step (Delete k) (spec_of s)"
proof -
  let ?t = "sy_tree s" and ?M = "others (sy_bg s) (sy_snapshots s)"
  have t: "tree_ok x ?t ?M" using inv by (simp add: sys_invar_def Let_def)
  have m: "mt_ok (lt_memtable ?t)" using t by (simp add: tree_ok_def)
  have fits: "fits (mt_data (mt_delete k (lt_memtable ?t)))" using fine by (simp add: step_fits_def)
  obtain t2 where ok: "tree_delete x k ?t = (Inr (), t2)"
      "flushed x (?t\<lparr>lt_memtable := mt_delete k (lt_memtable ?t)\<rparr>) t2 ?M"
      "tree_map t2 = (tree_map ?t)(k \<mapsto> None)"
    by (rule tree_delete_ok [OF t total fits])
  then have eq: "r = Inr ()" "t' = t2" using run by auto
  then show "r = Inr ()" by simp
  note f = flushed_step [OF inv ok(2) refl mt_ok_delete [OF m]]
  show "sys_invar x (s\<lparr>sy_tree := t'\<rparr>)" using f(1) eq by simp
  show "spec_of (s\<lparr>sy_tree := t'\<rparr>) = spec_step (Delete k) (spec_of s)"
    using f(2) eq ok(3) by (auto simp: spec_of_def tree_view_def live_delete)
qed

lemma batch_step:
  assumes inv: "sys_invar x s" and total: "codecs_total x"
    and fine: "step_fits s (InsertBatch kvs)" and run: "insert_batch x kvs (sy_tree s) = (r, t')"
  shows "r = Inr ()" and "sys_invar x (s\<lparr>sy_tree := t'\<rparr>)"
    and "spec_of (s\<lparr>sy_tree := t'\<rparr>) = spec_step (InsertBatch kvs) (spec_of s)"
proof -
  let ?t = "sy_tree s" and ?M = "others (sy_bg s) (sy_snapshots s)"
  have t: "tree_ok x ?t ?M" using inv by (simp add: sys_invar_def Let_def)
  then have m: "mt_ok (lt_memtable ?t)" by (simp add: tree_ok_def)
  have fits: "fits (mt_data (fold (\<lambda>(k, v). mt_insert k v) kvs (lt_memtable ?t)))"
    using fine by (simp add: step_fits_def)
  obtain t2 where ok: "insert_batch x kvs ?t = (Inr (), t2)"
      "flushed x (?t\<lparr>lt_memtable := fold (\<lambda>(k, v). mt_insert k v) kvs (lt_memtable ?t)\<rparr>) t2 ?M"
      "tree_view t2 = fold (\<lambda>(k, v) m. m(k \<mapsto> v)) kvs (tree_view ?t)"
    by (rule insert_batch_ok [OF t total fits])
  then have eq: "r = Inr ()" "t' = t2" using run by auto
  then show "r = Inr ()" by simp
  note f = flushed_step [OF inv ok(2) refl conjunct1 [OF fold_mt_insert [OF m]]]
  show "sys_invar x (s\<lparr>sy_tree := t'\<rparr>)" using f(1) eq by simp
  show "spec_of (s\<lparr>sy_tree := t'\<rparr>) = spec_step (InsertBatch kvs) (spec_of s)"
    using f(2) eq ok(3) by (auto simp: spec_of_def)
qed

lemma delete_batch_step:
  assumes inv: "sys_invar x s" and total: "codecs_total x"
    and fine: "step_fits s (DeleteBatch ks)" and run: "delete_batch x ks (sy_tree s) = (r, t')"
  shows "r = Inr ()" and "sys_invar x (s\<lparr>sy_tree := t'\<rparr>)"
    and "spec_of (s\<lparr>sy_tree := t'\<rparr>) = spec_step (DeleteBatch ks) (spec_of s)"
proof -
  let ?t = "sy_tree s" and ?M = "others (sy_bg s) (sy_snapshots s)"
  have t: "tree_ok x ?t ?M" using inv by (simp add: sys_invar_def Let_def)
  then have m: "mt_ok (lt_memtable ?t)" by (simp add: tree_ok_def)
  have fits: "fits (mt_data (fold mt_delete ks (lt_memtable ?t)))" using fine by (simp add: step_fits_def)
  obtain t2 where ok: "delete_batch x ks ?t = (Inr (), t2)"
      "flushed x (?t\<lparr>lt_memtable := fold mt_delete ks (lt_memtable ?t)\<rparr>) t2 ?M"
      "tree_view t2 = fold (\<lambda>k m. m(k := None)) ks (tree_view ?t)"
    by (rule delete_batch_ok [OF t total fits])
  then have eq: "r = Inr ()" "t' = t2" using run by auto
  then show "r = Inr ()" by simp
  note f = flushed_step [OF inv ok(2) refl conjunct1 [OF fold_mt_delete [OF m]]]
  show "sys_invar x (s\<lparr>sy_tree := t'\<rparr>)" using f(1) eq by simp
  show "spec_of (s\<lparr>sy_tree := t'\<rparr>) = spec_step (DeleteBatch ks) (spec_of s)"
    using f(2) eq ok(3) by (auto simp: spec_of_def)
qed

section \<open>Snapshots\<close>

lemma tree_map_store:
  "tree_ok x t M \<Longrightarrow> tree_map t = store_map (lt_store t) ++ mt_get (lt_memtable t)"
  by (simp add: tree_ok_def tree_map_def memtables_map_def)

lemma same_runs_disk: "w_disk w' = w_disk w \<Longrightarrow> same_runs x w w' M"
  by (simp add: same_runs_def)

lemma snapshot_handles_remove:
  assumes "i < length sns"
  shows "mset (snapshot_handles sns) =
    mset (concat (sn_levels (sns ! i))) + mset (snapshot_handles (remove_nth i sns))"
proof -
  have "sns = take i sns @ sns ! i # drop (Suc i) sns"
    using assms by (simp add: Cons_nth_drop_Suc)
  then have "snapshot_handles sns =
      snapshot_handles (take i sns) @ concat (sn_levels (sns ! i)) @ snapshot_handles (drop (Suc i) sns)"
    by (metis concat.simps(2) concat_append list.simps(9) map_append snapshot_handles_def)
  then show ?thesis by (simp add: remove_nth_def snapshot_handles_def)
qed

lemma set_remove_nth: "set (remove_nth i xs) \<subseteq> set xs"
  by (auto simp: remove_nth_def dest: in_set_takeD in_set_dropD)

lemma map_remove_nth: "map f (remove_nth i xs) = remove_nth i (map f xs)"
  by (simp add: remove_nth_def take_map drop_map)

lemma snapshot_step:
  assumes inv: "sys_invar x s" and run: "tree_snapshot (sy_tree s) = (sn, t')"
  defines "s' \<equiv> s\<lparr>sy_tree := t', sy_snapshots := sy_snapshots s @ [sn]\<rparr>"
  shows "sys_invar x s'" and "spec_of s' = spec_step TakeSnapshot (spec_of s)"
proof -
  let ?t = "sy_tree s" and ?M = "others (sy_bg s) (sy_snapshots s)"
  let ?hs = "concat (tree_levels ?t)"
  have t: "tree_ok x ?t ?M" and ord: "levels_ordered (tree_levels ?t)"
    and sns: "\<forall>sn \<in> set (sy_snapshots s). snapshot_ok ?t sn" and bg: "bg_ok ?t (sy_bg s)"
    using inv by (auto simp: sys_invar_def Let_def)
  have sn: "sn = \<lparr>sn_memtable = lt_memtable ?t, sn_immutables = lt_immutables ?t,
      sn_levels = tree_levels ?t, sn_sequence = lt_sequence ?t\<rparr>"
    and t': "t' = ?t\<lparr>lt_store := clone_in ?hs (lt_store ?t)\<rparr>"
    using run by (auto simp: tree_snapshot_def)
  have disk: "tree_disk t' = tree_disk ?t" "tree_levels t' = tree_levels ?t"
    by (simp_all add: t' tree_disk_def tree_levels_def)
  have "runs_ok x (lt_active_dir ?t) (st_next_run (lt_store ?t)) (clone_handles ?hs (st_world (lt_store ?t)))
      (mset ?hs + (mset ?hs + ?M))"
    by (rule runs_ok_clone [OF tree_runs_ok [OF t]]) simp
  then have t'_ok: "tree_ok x t' (others (sy_bg s) (sy_snapshots s @ [sn]))"
    using t by (simp add: tree_ok_def store_ok_def t' sn clone_in_def tree_levels_def others_def
        snapshot_handles_def ac_simps)
  have len: "length (tree_levels ?t) = Suc (lt_max_level ?t)" "length (tree_levels ?t ! lt_max_level ?t) \<le> 1"
    using t by (auto simp: tree_ok_def store_ok_def tree_levels_def)
  have bg': "bg_ok t' (sy_bg s)"
    by (rule bg_ok_kept [OF bg t _ same_runs_disk [where M = ?M]])
      (auto simp: others_def t' pending_ok_def)
  have "snapshot_ok t' sn" using t ord len by (simp add: snapshot_ok_def sn t' tree_ok_def)
  moreover have "\<forall>sn \<in> set (sy_snapshots s). snapshot_ok t' sn"
    using sns by (simp add: snapshot_ok_def t')
  moreover have "levels_ordered (tree_levels t')" using ord by (simp add: disk)
  ultimately show "sys_invar x s'"
    using t'_ok bg' by (auto simp: s'_def sys_invar_def Let_def)
  have "tree_map t' = tree_map ?t"
    using tree_map_store [OF t] tree_map_store [OF t'_ok] disk
    by (simp add: store_map_def tree_disk_def tree_levels_def) (simp add: t')
  moreover have "snapshot_map (tree_disk ?t) sn = tree_map ?t"
    using tree_map_store [OF t] by (simp add: snapshot_map_def sn store_map_def tree_disk_def tree_levels_def)
  ultimately show "spec_of s' = spec_step TakeSnapshot (spec_of s)"
    by (simp add: s'_def spec_of_def tree_view_def disk)
qed

text \<open>Dropping handles that are neither in the new levels nor held by others.\<close>

lemma dropped_step:
  assumes inv: "sys_invar x s" and sn: "sns = remove_nth i (sy_snapshots s)"
    and N: "mset (concat (tree_levels (sy_tree s))) + others (sy_bg s) (sy_snapshots s) =
      mset hs + (mset (concat ls) + others (sy_bg s) sns)"
    and ls: "length ls = Suc (lt_max_level (sy_tree s))" "length (ls ! lt_max_level (sy_tree s)) \<le> 1"
      "levels_ordered ls"
    and t': "t' = (sy_tree s)\<lparr>lt_memtable := m, lt_immutables := [],
      lt_store := drop_in hs ((lt_store (sy_tree s))\<lparr>st_levels := ls, st_generation := g\<rparr>), lt_sequence := q\<rparr>"
    and m: "mt_ok m" and q: "q = lt_sequence (sy_tree s)"
    and g: "g = st_generation (lt_store (sy_tree s)) \<and> ls = tree_levels (sy_tree s)
      \<or> g = st_generation (lt_store (sy_tree s)) + 1"
  shows "sys_invar x (s\<lparr>sy_tree := t', sy_snapshots := sns\<rparr>)"
    and "snd (spec_of (s\<lparr>sy_tree := t', sy_snapshots := sns\<rparr>)) = remove_nth i (snd (spec_of s))"
    and "tree_map t' = levels_map (tree_disk (sy_tree s)) ls ++ mt_get m"
proof -
  let ?t = "sy_tree s" and ?M = "others (sy_bg s) (sy_snapshots s)" and ?M' = "others (sy_bg s) sns"
  let ?s1 = "(lt_store ?t)\<lparr>st_levels := ls, st_generation := g\<rparr>"
  have t: "tree_ok x ?t ?M"
    and sns: "\<forall>sn \<in> set (sy_snapshots s). snapshot_ok ?t sn" and bg: "bg_ok ?t (sy_bg s)"
    using inv by (auto simp: sys_invar_def Let_def)
  have runs: "runs_ok x (lt_active_dir ?t) (st_next_run (lt_store ?t)) (st_world ?s1)
      (mset hs + (mset (concat ls) + ?M'))"
    using tree_runs_ok [OF t] by (simp add: N)
  note d = drop_in_ok [OF runs]
  have max: "1 \<le> lt_max_level ?t" using t by (simp add: tree_ok_def store_ok_def)
  have t'_ok: "tree_ok x t' ?M'"
    using d(1) ls m max by (simp add: tree_ok_def store_ok_def t')
  have same: "same_runs x (st_world (lt_store ?t)) (st_world (lt_store t')) (mset (concat ls) + ?M')"
    using d(2) by (simp add: t')
  have sub: "set_mset ?M' \<subseteq> set_mset ?M"
    using set_remove_nth [of i "sy_snapshots s"] by (auto simp: others_def sn snapshot_handles_def)
  have bg': "bg_ok t' (sy_bg s)"
  proof (rule bg_ok_kept [OF bg t _ same])
    show "pending_ok (lt_max_level ?t) p (lt_store t')" if "pending_ok (lt_max_level ?t) p (lt_store ?t)" for p
      using that g by (auto simp: t' pending_ok_def tree_levels_def)
  qed (auto simp: others_def t')
  show "sys_invar x (s\<lparr>sy_tree := t', sy_snapshots := sns\<rparr>)"
    using t'_ok bg' ls(3) sns set_remove_nth [of i "sy_snapshots s"] q
    by (auto simp: sys_invar_def Let_def tree_levels_def t' snapshot_ok_def sn)
  have "snapshot_map (tree_disk t') z = snapshot_map (tree_disk ?t) z" if "z \<in> set sns" for z
    using snapshot_handles_in [OF that] snapshot_handles_in [of z "sy_snapshots s"]
      set_remove_nth [of i "sy_snapshots s"] that
    by (intro snapshot_map_kept [OF t same]) (auto simp: others_def sn)
  then show "snd (spec_of (s\<lparr>sy_tree := t', sy_snapshots := sns\<rparr>)) = remove_nth i (snd (spec_of s))"
    by (simp add: spec_of_def flip: map_remove_nth) (simp add: sn cong: map_cong)
  have "run_map (tree_disk t') h = run_map (tree_disk ?t) h" if "h \<in> set (concat ls)" for h
    using d(3) [of h] that by (simp add: tree_disk_def t')
  then have "levels_map (tree_disk t') ls = levels_map (tree_disk ?t) ls" by (rule levels_map_cong)
  then show "tree_map t' = levels_map (tree_disk ?t) ls ++ mt_get m"
    using tree_map_store [OF t'_ok] by (simp add: store_map_def tree_disk_def t')
qed

lemma rollback_step:
  assumes inv: "sys_invar x s" and i: "i < length (sy_snapshots s)"
    and run: "tree_rollback (sy_snapshots s ! i) (sy_tree s) = (r, t')"
  defines "s' \<equiv> s\<lparr>sy_tree := t', sy_snapshots := remove_nth i (sy_snapshots s)\<rparr>"
  shows "r = Inr ()" and "sys_invar x s'" and "spec_of s' = spec_step (Rollback i) (spec_of s)"
proof -
  let ?t = "sy_tree s" and ?sn = "sy_snapshots s ! i" and ?sns = "remove_nth i (sy_snapshots s)"
  have sn: "snapshot_ok ?t ?sn" using inv i by (simp add: sys_invar_def Let_def)
  let ?hs = "concat (tree_levels ?t)"
  have run': "tree_rollback ?sn ?t = (Inr (), ?t\<lparr>lt_memtable := sn_memtable ?sn, lt_immutables := [],
      lt_store := drop_in ?hs ((lt_store ?t)\<lparr>st_levels := sn_levels ?sn,
         st_generation := st_generation (lt_store ?t) + 1\<rparr>), lt_sequence := lt_sequence ?t\<rparr>)"
    using sn by (simp add: tree_rollback_def snapshot_ok_def Let_def tree_levels_def)
  then show "r = Inr ()" using run by simp
  have N: "mset ?hs + others (sy_bg s) (sy_snapshots s) =
      mset ?hs + (mset (concat (sn_levels ?sn)) + others (sy_bg s) ?sns)"
    using snapshot_handles_remove [OF i] by (simp add: others_def ac_simps)
  have t': "t' = ?t\<lparr>lt_memtable := sn_memtable ?sn, lt_immutables := [],
      lt_store := drop_in ?hs ((lt_store ?t)\<lparr>st_levels := sn_levels ?sn,
         st_generation := st_generation (lt_store ?t) + 1\<rparr>), lt_sequence := lt_sequence ?t\<rparr>"
    using run run' by (simp only: prod.inject)
  note d = dropped_step [OF inv refl N _ _ _ t' _ refl]
  have ok: "length (sn_levels ?sn) = Suc (lt_max_level ?t)" "length (sn_levels ?sn ! lt_max_level ?t) \<le> 1"
      "levels_ordered (sn_levels ?sn)" "mt_ok (sn_memtable ?sn)"
    using sn by (simp_all add: snapshot_ok_def)
  show "sys_invar x s'" using d(1) ok by (simp add: s'_def)
  have "tree_view t' = live (snapshot_map (tree_disk ?t) ?sn)"
    using d(3) ok by (simp add: tree_view_def snapshot_map_def)
  then show "spec_of s' = spec_step (Rollback i) (spec_of s)"
    using d(2) ok i by (auto simp: s'_def spec_of_def)
qed

lemma drop_step:
  assumes inv: "sys_invar x s" and i: "i < length (sy_snapshots s)"
  defines "s' \<equiv> s\<lparr>sy_tree := drop_snapshot (sy_snapshots s ! i) (sy_tree s),
      sy_snapshots := remove_nth i (sy_snapshots s)\<rparr>"
  shows "sys_invar x s'" and "spec_of s' = spec_step (DropSnapshot i) (spec_of s)"
proof -
  let ?t = "sy_tree s" and ?sn = "sy_snapshots s ! i" and ?sns = "remove_nth i (sy_snapshots s)"
  let ?t' = "drop_snapshot ?sn ?t"
  have t: "tree_ok x ?t (others (sy_bg s) (sy_snapshots s))" and ord: "levels_ordered (tree_levels ?t)"
    using inv by (simp_all add: sys_invar_def Let_def)
  have N: "mset (concat (tree_levels ?t)) + others (sy_bg s) (sy_snapshots s) =
      mset (concat (sn_levels ?sn)) + (mset (concat (tree_levels ?t)) + others (sy_bg s) ?sns)"
    using snapshot_handles_remove [OF i] by (simp add: others_def ac_simps)
  have t': "?t' = ?t\<lparr>lt_memtable := lt_memtable ?t, lt_immutables := [],
      lt_store := drop_in (concat (sn_levels ?sn)) ((lt_store ?t)\<lparr>st_levels := tree_levels ?t,
         st_generation := st_generation (lt_store ?t)\<rparr>), lt_sequence := lt_sequence ?t\<rparr>"
    using t by (simp add: drop_snapshot_def tree_levels_def tree_ok_def)
  note d = dropped_step [OF inv refl N _ _ ord t' _ refl]
  have ok: "length (tree_levels ?t) = Suc (lt_max_level ?t)" "length (tree_levels ?t ! lt_max_level ?t) \<le> 1"
      "mt_ok (lt_memtable ?t)"
    using t by (simp_all add: tree_ok_def store_ok_def tree_levels_def)
  show "sys_invar x s'" using d(1) ok by (simp add: s'_def)
  have "tree_view ?t' = tree_view ?t"
    using d(3) ok tree_map_store [OF t]
    by (simp add: tree_view_def store_map_def tree_disk_def tree_levels_def)
  then show "spec_of s' = spec_step (DropSnapshot i) (spec_of s)"
    using d(2) ok by (auto simp: s'_def spec_of_def)
qed

section \<open>The thread's steps\<close>

text \<open>
  A step of the thread replaces the store and sets flags and credits; what it must establish is
  about the stores only.
\<close>

lemma live_add_cong: "live a = live b \<Longrightarrow> live (a ++ m) = live (b ++ m)"
  by (rule ext) (simp add: live_map_add split: option.split)

lemma bg_step:
  assumes inv: "sys_invar x s"
    and t': "lt_memtable t' = lt_memtable (sy_tree s)" "lt_immutables t' = lt_immutables (sy_tree s)"
      "lt_active_dir t' = lt_active_dir (sy_tree s)" "lt_max_level t' = lt_max_level (sy_tree s)"
      "lt_sequence t' = lt_sequence (sy_tree s)"
    and store: "store_ok x (lt_active_dir t') (lt_max_level t') (lt_store t') (others b (sy_snapshots s))"
    and ord: "levels_ordered (tree_levels t')" and bg: "bg_ok t' b"
    and same: "same_runs x (st_world (lt_store (sy_tree s))) (st_world (lt_store t'))
      (mset (snapshot_handles (sy_snapshots s)))"
  shows "sys_invar x (s\<lparr>sy_tree := t', sy_bg := b\<rparr>)"
    and "live (store_map (lt_store t')) = live (store_map (lt_store (sy_tree s))) \<longrightarrow>
      spec_of (s\<lparr>sy_tree := t', sy_bg := b\<rparr>) = spec_of s"
proof -
  let ?t = "sy_tree s" and ?M = "others (sy_bg s) (sy_snapshots s)"
  have t: "tree_ok x ?t ?M" and sns: "\<forall>sn \<in> set (sy_snapshots s). snapshot_ok ?t sn"
    using inv by (auto simp: sys_invar_def Let_def)
  have t'_ok: "tree_ok x t' (others b (sy_snapshots s))" using t store t' by (simp add: tree_ok_def)
  then show "sys_invar x (s\<lparr>sy_tree := t', sy_bg := b\<rparr>)"
    using ord bg sns t' by (simp add: sys_invar_def Let_def snapshot_ok_def)
  have "snapshot_map (tree_disk t') sn = snapshot_map (tree_disk ?t) sn" if "sn \<in> set (sy_snapshots s)" for sn
    using snapshot_handles_in [OF that]
    by (intro snapshot_map_kept [OF t same]) (auto simp: others_def)
  moreover have "tree_view t' = tree_view ?t" if "live (store_map (lt_store t')) = live (store_map (lt_store ?t))"
    using tree_map_store [OF t'_ok] tree_map_store [OF t] live_add_cong [OF that] t'(1) by (simp add: tree_view_def)
  ultimately show "live (store_map (lt_store t')) = live (store_map (lt_store (sy_tree s))) \<longrightarrow>
      spec_of (s\<lparr>sy_tree := t', sy_bg := b\<rparr>) = spec_of s"
    by (simp add: spec_of_def)
qed

lemma spend_credits_simps [simp]:
  "lt_memtable (spend_credits t) = lt_memtable t" "lt_immutables (spend_credits t) = lt_immutables t"
  "lt_active_dir (spend_credits t) = lt_active_dir t" "lt_max_level (spend_credits t) = lt_max_level t"
  "lt_sequence (spend_credits t) = lt_sequence t" "lt_store (spend_credits t) = lt_store t"
  by (simp_all add: spend_credits_def Let_def)

lemma tree_levels_store: "lt_store t' = lt_store t \<Longrightarrow> tree_levels t' = tree_levels t"
  by (simp add: tree_levels_def)

lemma wake_step:
  assumes inv: "sys_invar x s" and idle: "sy_bg s = BgIdle" and run: "bg_wake (sy_tree s) = (b, t')"
  shows "sys_invar x (s\<lparr>sy_tree := t', sy_bg := b\<rparr>)"
    and "spec_of (s\<lparr>sy_tree := t', sy_bg := b\<rparr>) = spec_of s"
proof -
  let ?t = "sy_tree s" and ?M = "others (sy_bg s) (sy_snapshots s)"
  let ?t1 = "?t\<lparr>lt_should_run := False\<rparr>"
  have t: "tree_ok x ?t ?M" and ord: "levels_ordered (tree_levels ?t)" and bg: "bg_ok ?t (sy_bg s)"
    using inv by (auto simp: sys_invar_def Let_def)
  have store: "store_ok x (lt_active_dir ?t) (lt_max_level ?t) (lt_store ?t) ?M"
    using t by (simp add: tree_ok_def)
  have M: "?M = mset (snapshot_handles (sy_snapshots s))"
    by (simp add: others_def idle bg_handles_def)
  have ordt: "levels_ordered (tree_levels t')"
    if "st_levels (lt_store t') = st_levels (lt_store ?t)" for t' :: lsm_tree
    using ord that by (simp add: tree_levels_def)
  have "sys_invar x (s\<lparr>sy_tree := t', sy_bg := b\<rparr>)
    \<and> spec_of (s\<lparr>sy_tree := t', sy_bg := b\<rparr>) = spec_of s"
  proof (cases "bg_ready ?t1")
    case False
    then have "b = BgIdle" "t' = ?t1" using run by (auto simp: bg_wake_def Let_def)
    then show ?thesis
      using bg_step [OF inv, of t' b] store ord idle by (simp add: tree_levels_def bg_ok_def)
  next
    case True
    show ?thesis
    proof (rule begin_ok [OF store, of "level0_compaction_trigger (lt_config ?t)"])
      fix s'
      assume c: "compaction_begin (lt_max_level ?t) (level0_compaction_trigger (lt_config ?t)) (lt_store ?t) =
          (Inr None, s')" "store_ok x (lt_active_dir ?t) (lt_max_level ?t) s' ?M"
        "store_map s' = store_map (lt_store ?t)" "st_levels s' = st_levels (lt_store ?t)"
        "same_runs x (st_world (lt_store ?t)) (st_world s') (mset (concat (st_levels (lt_store ?t))) + ?M)"
      then have "b = BgIdle" "t' = spend_credits (?t1\<lparr>lt_store := s'\<rparr>)"
        using run True by (auto simp: bg_wake_def Let_def result_simps)
      moreover have "same_runs x (st_world (lt_store ?t)) (st_world s') (mset (snapshot_handles (sy_snapshots s)))"
        using c(5) by (rule same_runs_mono) (simp add: M)
      ultimately show ?thesis
        using bg_step [OF inv, of t' b] c ordt [of t'] idle by (simp add: bg_ok_def)
    next
      fix p s'
      assume c: "compaction_begin (lt_max_level ?t) (level0_compaction_trigger (lt_config ?t)) (lt_store ?t) =
          (Inr (Some p), s')"
        "store_ok x (lt_active_dir ?t) (lt_max_level ?t) s' (mset (pending_handles p) + ?M)"
        "pending_ok (lt_max_level ?t) p s'"
        "store_map s' = store_map (lt_store ?t)" "st_levels s' = st_levels (lt_store ?t)"
        "w_disk (st_world s') = w_disk (st_world (lt_store ?t))"
      then have "b = BgRunning p" "t' = ?t1\<lparr>lt_store := s'\<rparr>"
        using run True by (auto simp: bg_wake_def Let_def result_simps)
      moreover have "others (BgRunning p) (sy_snapshots s) = mset (pending_handles p) + ?M"
        by (simp add: others_def bg_handles_def idle)
      ultimately show ?thesis
        using bg_step [OF inv, of t' b] c ordt [of t'] by (simp add: bg_ok_def same_runs_disk)
    qed
  qed
  then show "sys_invar x (s\<lparr>sy_tree := t', sy_bg := b\<rparr>)"
    and "spec_of (s\<lparr>sy_tree := t', sy_bg := b\<rparr>) = spec_of s" by simp_all
qed

lemma merge_step:
  assumes inv: "sys_invar x s" and total: "codecs_total x" and fine: "step_fits s BgMerge"
    and p: "sy_bg s = BgRunning p" and run: "bg_merge x p (sy_tree s) = (b, t')"
  shows "sys_invar x (s\<lparr>sy_tree := t', sy_bg := b\<rparr>)"
    and "spec_of (s\<lparr>sy_tree := t', sy_bg := b\<rparr>) = spec_of s"
proof -
  let ?t = "sy_tree s" and ?S = "mset (snapshot_handles (sy_snapshots s))"
  have t: "tree_ok x ?t (mset (pending_handles p) + ?S)" and ord: "levels_ordered (tree_levels ?t)"
    and pend: "pending_ok (lt_max_level ?t) p (lt_store ?t)"
    using inv by (auto simp: sys_invar_def Let_def p others_def bg_handles_def bg_ok_def)
  have store: "store_ok x (lt_active_dir ?t) (lt_max_level ?t) (lt_store ?t) (mset (pending_handles p) + ?S)"
    using t by (simp add: tree_ok_def)
  have job: "job_ok (lt_max_level ?t) p" using pend by (simp add: pending_ok_def)
  have size: "mergeable (w_disk (st_world (lt_store ?t))) (pd_source p @ lj_target_level_runs (pd_job p))"
    using fine by (simp add: step_fits_def p tree_disk_def)
  have old: "\<forall>a \<in> set (concat (pd_levels p)). h_run_number a < st_next_run (lt_store ?t)"
    using tree_runs_ok [OF t] by (auto simp: runs_ok_def pending_handles_def)
  obtain r s' where
    m: "compaction_merge x (lt_active_dir ?t) (lt_max_level ?t) p (lt_store ?t) = (Inr r, s')"
      "store_ok x (lt_active_dir ?t) (lt_max_level ?t) s'
         (mset (option_handles (cr_output r)) + mset (pending_handles p) + ?S)"
      "result_ok (lt_max_level ?t) p r s'" "store_map s' = store_map (lt_store ?t)"
      "st_levels s' = st_levels (lt_store ?t)" "st_generation s' = st_generation (lt_store ?t)"
      "st_next_run s' = Suc (st_next_run (lt_store ?t))"
      "same_runs x (st_world (lt_store ?t)) (st_world s')
         (mset (concat (st_levels (lt_store ?t))) + (mset (pending_handles p) + ?S))"
    by (rule merge_ok [OF store total job size old])
  have b: "b = BgMerged p r" "t' = ?t\<lparr>lt_store := s'\<rparr>" using run m(1) by (auto simp: bg_merge_def)
  have same: "same_runs x (st_world (lt_store ?t)) (st_world s') ?S"
    using m(8) by (rule same_runs_mono) auto
  have bg': "bg_ok t' b" using m(3,5,6) pend by (simp add: b bg_ok_def pending_ok_def)
  have "sys_invar x (s\<lparr>sy_tree := t', sy_bg := b\<rparr>)
    \<and> spec_of (s\<lparr>sy_tree := t', sy_bg := b\<rparr>) = spec_of s"
    using bg_step [OF inv, of t' b] m(2,4,5) same bg' ord
    by (simp add: b others_def bg_handles_def tree_levels_def ac_simps)
  then show "sys_invar x (s\<lparr>sy_tree := t', sy_bg := b\<rparr>)"
    and "spec_of (s\<lparr>sy_tree := t', sy_bg := b\<rparr>) = spec_of s" by simp_all
qed

lemma commit_step:
  assumes inv: "sys_invar x s"
    and p: "sy_bg s = BgMerged p r" and run: "bg_commit p r (sy_tree s) = (b, t')"
  shows "sys_invar x (s\<lparr>sy_tree := t', sy_bg := b\<rparr>)"
    and "step_fine s BgCommit \<longrightarrow> spec_of (s\<lparr>sy_tree := t', sy_bg := b\<rparr>) = spec_of s"
proof -
  let ?t = "sy_tree s" and ?S = "mset (snapshot_handles (sy_snapshots s))"
  let ?M = "mset (option_handles (cr_output r)) + mset (pending_handles p) + ?S"
  have t: "tree_ok x ?t ?M" and ord: "levels_ordered (tree_levels ?t)"
    and pend: "pending_ok (lt_max_level ?t) p (lt_store ?t)" and res: "result_ok (lt_max_level ?t) p r (lt_store ?t)"
    using inv by (auto simp: sys_invar_def Let_def p others_def bg_handles_def bg_ok_def ac_simps)
  have store: "runs_ok x (lt_active_dir ?t) (st_next_run (lt_store ?t)) (st_world (lt_store ?t))
        (mset (concat (st_levels (lt_store ?t))) + ?M)"
      "length (st_levels (lt_store ?t)) = Suc (lt_max_level ?t)"
      "length (st_levels (lt_store ?t) ! lt_max_level ?t) \<le> 1"
    using t by (simp_all add: tree_ok_def store_ok_def)
  obtain s' where
    c: "compaction_commit (lt_max_level ?t) p r (lt_store ?t) = (Inr (), s')"
      "store_ok x (lt_active_dir ?t) (lt_max_level ?t) s' ?S"
      "(st_generation (lt_store ?t) = pd_generation p \<longrightarrow> \<not> loses_bottom (lt_max_level ?t) p r) \<longrightarrow>
        live (store_map s') = live (store_map (lt_store ?t))"
      "same_runs x (st_world (lt_store ?t)) (st_world s') (mset (concat (st_levels s')) + ?S)"
      "levels_ordered (st_levels (lt_store ?t)) \<Longrightarrow> levels_ordered (st_levels s')"
    using commit_ok [OF store(1) store(2,3) pend res] by blast
  have b: "b = BgIdle" "t' = spend_credits (?t\<lparr>lt_store := s'\<rparr>)"
    using run c(1) by (auto simp: bg_commit_def on_store_def)
  have same: "same_runs x (st_world (lt_store ?t)) (st_world s') ?S"
    using c(4) by (rule same_runs_mono) auto
  have "sys_invar x (s\<lparr>sy_tree := t', sy_bg := b\<rparr>)
    \<and> (step_fine s BgCommit \<longrightarrow> spec_of (s\<lparr>sy_tree := t', sy_bg := b\<rparr>) = spec_of s)"
    using bg_step [OF inv, of t' b] c(2,3,5) same ord
    by (simp add: b others_def bg_handles_def tree_levels_def bg_ok_def step_fine_def p)
  then show "sys_invar x (s\<lparr>sy_tree := t', sy_bg := b\<rparr>)"
    and "step_fine s BgCommit \<longrightarrow> spec_of (s\<lparr>sy_tree := t', sy_bg := b\<rparr>) = spec_of s" by simp_all
qed

section \<open>The user's compactions\<close>

text \<open>Taken while the thread is idle, they change the store and nothing that is stored.\<close>

lemma compact_step:
  assumes inv: "sys_invar x s" and total: "codecs_total x"
    and fine: "step_fits s Compact" and run: "tree_compact x (sy_tree s) = (r, t')"
  shows "sys_invar x (s\<lparr>sy_tree := t'\<rparr>)"
    and "step_fine s Compact \<longrightarrow> spec_of (s\<lparr>sy_tree := t'\<rparr>) = spec_of s"
proof -
  let ?t = "sy_tree s" and ?M = "others (sy_bg s) (sy_snapshots s)"
  have t: "tree_ok x ?t ?M" and ord: "levels_ordered (tree_levels ?t)"
    using inv by (simp_all add: sys_invar_def Let_def)
  have idle: "sy_bg s = BgIdle" and size: "round_fits ?t" using fine by (simp_all add: step_fits_def)
  obtain s' where c: "tree_compact x ?t = (Inr (), ?t\<lparr>lt_store := s'\<rparr>)" "tree_ok x (?t\<lparr>lt_store := s'\<rparr>) ?M"
      "compactable ?t \<longrightarrow> live (store_map s') = live (store_map (lt_store ?t))"
      "levels_ordered (tree_levels ?t) \<longrightarrow> levels_ordered (st_levels s')"
      "same_runs x (st_world (lt_store ?t)) (st_world s') ?M"
    by (rule tree_compact_ok [OF t total size])
  then have eq: "t' = ?t\<lparr>lt_store := s'\<rparr>" using run by auto
  have "same_runs x (st_world (lt_store ?t)) (st_world s') (mset (snapshot_handles (sy_snapshots s)))"
    using c(5) by (rule same_runs_mono) (simp add: others_def)
  then have "sys_invar x (s\<lparr>sy_tree := t', sy_bg := BgIdle\<rparr>)
    \<and> (step_fine s Compact \<longrightarrow> spec_of (s\<lparr>sy_tree := t', sy_bg := BgIdle\<rparr>) = spec_of s)"
    using bg_step [OF inv, of t' BgIdle] c(2,3,4) ord
    by (simp add: eq idle tree_ok_def tree_levels_def bg_ok_def step_fine_def)
  moreover have "s\<lparr>sy_tree := t', sy_bg := BgIdle\<rparr> = s\<lparr>sy_tree := t'\<rparr>" using idle by simp
  ultimately show "sys_invar x (s\<lparr>sy_tree := t'\<rparr>)"
    and "step_fine s Compact \<longrightarrow> spec_of (s\<lparr>sy_tree := t'\<rparr>) = spec_of s" by simp_all
qed

lemma compact_all_memtable: "compact_all x t = (r, t') \<Longrightarrow> lt_memtable t' = lt_memtable t"
  by (auto simp: compact_all_def on_store_def Let_def split: if_splits sum.splits prod.splits)

lemma compact_all_step:
  assumes inv: "sys_invar x s" and total: "codecs_total x"
    and fine: "step_fits s CompactAll" and run: "compact_all x (sy_tree s) = (r, t')"
  shows "sys_invar x (s\<lparr>sy_tree := t'\<rparr>)"
    and "step_fine s CompactAll \<longrightarrow> spec_of (s\<lparr>sy_tree := t'\<rparr>) = spec_of s"
proof -
  let ?t = "sy_tree s" and ?M = "others (sy_bg s) (sy_snapshots s)"
  have t: "tree_ok x ?t ?M" using inv by (simp add: sys_invar_def Let_def)
  have idle: "sy_bg s = BgIdle" and size: "mergeable (tree_disk ?t) (concat (tree_levels ?t))"
    using fine by (simp_all add: step_fits_def)
  obtain t2 where c: "compact_all x ?t = (Inr (), t2)" "tree_ok x t2 ?M"
      "store_map (lt_store t2) = live_only (level_map (tree_disk ?t) (concat (tree_levels ?t)))"
      "tree_map t2 = live_only (level_map (tree_disk ?t) (concat (tree_levels ?t)))
           ++ memtables_map (lt_memtable ?t # rev (lt_immutables ?t))"
      "length (concat (tree_levels t2)) \<le> 1" "same_shape ?t t2" "levels_ordered (tree_levels t2)"
      "same_runs x (st_world (lt_store ?t)) (st_world (lt_store t2)) ?M"
    by (rule compact_all_ok [OF t total size])
  then have eq: "t' = t2" using run by auto
  have live: "live (store_map (lt_store t2)) = live (store_map (lt_store ?t))" if "age_ordered (tree_levels ?t)"
  proof -
    have "store_map (lt_store t2) = live_only (store_map (lt_store ?t))"
      using c(3) age_ordered_map [OF that] by (simp add: store_map_def tree_disk_def tree_levels_def)
    then show ?thesis by simp
  qed
  have mem: "lt_memtable t2 = lt_memtable ?t" using run by (auto simp: eq compact_all_memtable)
  have "same_runs x (st_world (lt_store ?t)) (st_world (lt_store t2)) (mset (snapshot_handles (sy_snapshots s)))"
    using c(8) by (rule same_runs_mono) (simp add: others_def)
  then have "sys_invar x (s\<lparr>sy_tree := t', sy_bg := BgIdle\<rparr>)
    \<and> (step_fine s CompactAll \<longrightarrow> spec_of (s\<lparr>sy_tree := t', sy_bg := BgIdle\<rparr>) = spec_of s)"
    using bg_step [OF inv, of t' BgIdle] c(2,6,7) live mem t
    by (simp add: eq idle tree_ok_def same_shape_def bg_ok_def step_fine_def)
  moreover have "s\<lparr>sy_tree := t', sy_bg := BgIdle\<rparr> = s\<lparr>sy_tree := t'\<rparr>" using idle by simp
  ultimately show "sys_invar x (s\<lparr>sy_tree := t'\<rparr>)"
    and "step_fine s CompactAll \<longrightarrow> spec_of (s\<lparr>sy_tree := t'\<rparr>) = spec_of s" by simp_all
qed

section \<open>Every step\<close>

lemma wait_step:
  "sys_invar x s \<Longrightarrow> sys_invar x (s\<lparr>sy_tree := (sy_tree s)\<lparr>lt_waiting := False\<rparr>\<rparr>)"
  "spec_of (s\<lparr>sy_tree := (sy_tree s)\<lparr>lt_waiting := False\<rparr>\<rparr>) = spec_of s"
proof -
  show "sys_invar x s \<Longrightarrow> sys_invar x (s\<lparr>sy_tree := (sy_tree s)\<lparr>lt_waiting := False\<rparr>\<rparr>)"
    by (cases "sy_bg s") (auto simp: sys_invar_def Let_def tree_ok_def tree_levels_def snapshot_ok_def bg_ok_def)
  show "spec_of (s\<lparr>sy_tree := (sy_tree s)\<lparr>lt_waiting := False\<rparr>\<rparr>) = spec_of s"
    by (simp add: spec_of_def tree_view_def tree_map_def tree_disk_def)
qed

lemma sys_step_ok:
  assumes "sys_step x s e s'" and "sys_invar x s" and "codecs_total x" and "step_fits s e"
  shows "sys_invar x s' \<and> (step_fine s e \<longrightarrow> spec_of s' = spec_step e (spec_of s))"
  using assms
proof (induction rule: sys_step.induct)
  case (insert s k v r t')
  then show ?case using insert_step(2,3) by blast
next
  case (delete s k r t')
  then show ?case using delete_step(2,3) by blast
next
  case (insert_batch s kvs r t')
  then show ?case using batch_step(2,3) by blast
next
  case (delete_batch s ks r t')
  then show ?case using delete_batch_step(2,3) by blast
next
  case (compact s r t')
  then show ?case using compact_step [of x s r t'] by simp
next
  case (compact_all s r t')
  then show ?case using compact_all_step [of x s r t'] by simp
next
  case (snapshot s sn t')
  then show ?case using snapshot_step by blast
next
  case (rollback s i r t')
  then show ?case using rollback_step(2,3) by blast
next
  case (drop i s)
  then show ?case using drop_step by blast
next
  case (wait_done s)
  then show ?case using wait_step by simp
next
  case (wake s b t')
  then show ?case using wake_step [of x s b t'] by simp
next
  case (merge s p b t')
  then show ?case using merge_step [of x s p b t'] by simp
next
  case (commit s p r b t')
  then show ?case using commit_step [of x s p r b t'] by simp
qed

lemma reachable_invar:
  assumes "reachable step_fits x s0 es s" and "sys_invar x s0" and "codecs_total x"
  shows "sys_invar x s"
  using assms(1)
proof (induction rule: reachable.induct)
  case start
  then show ?case using assms(2) by simp
next
  case (step es s e s')
  with sys_step_ok [OF step.hyps(3) _ assms(3) step.hyps(2)] show ?case by simp
qed

lemma reachable_ok:
  assumes "reachable step_fine x s0 es s" and "sys_invar x s0" and "codecs_total x"
  shows "sys_invar x s \<and> spec_of s = fold spec_step es (spec_of s0)"
  using assms(1)
proof (induction rule: reachable.induct)
  case start
  then show ?case using assms(2) by simp
next
  case (step es s e s')
  with sys_step_ok [OF step.hyps(3) _ assms(3) step_fine_fits [OF step.hyps(2)]] show ?case by simp
qed

end
