(* ===== verification/CompactionProperties.thy ===== *)
theory CompactionProperties
  imports Samples UserCompaction
begin

text \<open>
  Properties of compaction as the user calls it: \<open>compact\<close> and \<open>compact_all\<close> of \<open>src/lib.rs\<close>,
  the selection of a level, and the two situations in which a compaction changes what readers
  see.
\<close>

section \<open>Compacting everything\<close>

text \<open>
  C11. \<open>compact_all\<close> merges every run into at most one at the bottom level. When the run numbers
  follow the age of the data, deeper levels holding lower numbers, it returns \<open>Ok\<close>, changes
  nothing a reader sees and leaves no tombstone on disk.
\<close>

theorem compact_all_preserves:
  assumes t: "tree_ok x t M" and total: "codecs_total x"
    and size: "mergeable (tree_disk t) (concat (tree_levels t))" and age: "age_ordered (tree_levels t)"
  shows "\<exists>t'. compact_all x t = (Inr (), t') \<and> tree_ok x t' M \<and> tree_view t' = tree_view t
    \<and> length (concat (tree_levels t')) \<le> 1 \<and> (\<forall>k. store_map (lt_store t') k \<noteq> Some None)"
proof -
  obtain t' where c: "compact_all x t = (Inr (), t')" "tree_ok x t' M"
      "store_map (lt_store t') = live_only (level_map (tree_disk t) (concat (tree_levels t)))"
      "tree_map t' = live_only (level_map (tree_disk t) (concat (tree_levels t)))
         ++ memtables_map (lt_memtable t # rev (lt_immutables t))"
      "length (concat (tree_levels t')) \<le> 1"
    by (rule compact_all_ok [OF t total size])
  have "store_map (lt_store t) = level_map (tree_disk t) (concat (tree_levels t))"
    using age_ordered_map [OF age] by (simp add: store_map_def tree_levels_def tree_disk_def)
  then have "tree_view t' = tree_view t"
    unfolding tree_view_def c(4) tree_map_def [of t] by (simp add: live_only_below)
  moreover have "store_map (lt_store t') k \<noteq> Some None" for k by (simp add: c(3) live_only_def)
  ultimately show ?thesis using c by blast
qed

text \<open>Two small tables with one key, and trees that hold them as runs 1 and 2.\<close>

definition table_7 :: "(key \<times> lsm_value option) list" where
  "table_7 = [(Key [1], Some (Value [7]))]"

definition table_8 :: "(key \<times> lsm_value option) list" where
  "table_8 = [(Key [1], Some (Value [8]))]"

definition table_gone :: "(key \<times> lsm_value option) list" where
  "table_gone = [(Key [1], None)]"

lemma tables_fine: "table_fine table_7" "table_fine table_8" "table_fine table_gone"
  by (simp_all add: table_fine_def table_7_def table_8_def table_gone_def fits_def key_size_def opt_bytes_def)

lemma tables_get [simp]:
  "bt_get table_7 (Key [1]) = Some (Some (Value [7]))" "bt_get table_8 (Key [1]) = Some (Some (Value [8]))"
  "bt_get table_gone (Key [1]) = Some None"
  by (simp_all add: table_7_def table_8_def table_gone_def bt_get_eq)

definition two_levels :: "bool \<Rightarrow> sst_handle list \<Rightarrow> sst_handle list list" where
  "two_levels flip hs =
     (if flip then [hs ! 1] # [hs ! 0] # replicate 5 [] else [hs ! 0] # [hs ! 1] # replicate 5 [])"

lemma two_runs:
  assumes "table_fine es" and "table_fine fs" and "length es = 1" and "length fs = 1"
  obtains a b where "tree_ok sample_codecs (tables_tree [es, fs] (two_levels flip)) {#}"
    and "tree_levels (tables_tree [es, fs] (two_levels flip)) =
      (if flip then [b] # [a] # replicate 5 [] else [a] # [b] # replicate 5 [])"
    and "h_run_number a = 1" and "h_run_number b = 2"
    and "run_map (tree_disk (tables_tree [es, fs] (two_levels flip))) a = bt_get es"
    and "run_map (tree_disk (tables_tree [es, fs] (two_levels flip))) b = bt_get fs"
    and "entries_of (tree_disk (tables_tree [es, fs] (two_levels flip))) a = es"
    and "entries_of (tree_disk (tables_tree [es, fs] (two_levels flip))) b = fs"
proof -
  let ?t = "tables_tree [es, fs] (two_levels flip)"
  have fine: "\<forall>gs \<in> set [es, fs]. table_fine gs" using assms by simp
  have place: "mset (concat (two_levels flip hs)) = mset hs \<and> length (two_levels flip hs) = 7
      \<and> length (two_levels flip hs ! 6) \<le> 1" if "length hs = length [es, fs]" for hs
    using that by (auto simp: two_levels_def nth_Cons' length_Suc_conv)
  obtain hs where hs: "tree_ok sample_codecs ?t {#}" "tree_levels ?t = two_levels flip hs"
      "list_all2 (run_ok sample_codecs (tree_disk ?t)) hs [es, fs]" "map h_run_number hs = [1..<1 + length [es, fs]]"
    by (rule tables_tree_ok [OF fine place])
  then obtain a b where ab: "hs = [a, b]" "run_ok sample_codecs (tree_disk ?t) a es"
      "run_ok sample_codecs (tree_disk ?t) b fs"
    by (auto simp: list_all2_Cons2)
  with hs show thesis
    by (intro that [of b a]) (auto simp: two_levels_def run_map_def entries_of_run upt_rec)
qed

lemma tree_view_tables:
  "tree_view (tables_tree ess place) = live (levels_map (tree_disk (tables_tree ess place)) (tree_levels (tables_tree ess place)))"
  by (simp add: tree_view_def tree_map_def store_map_def tree_levels_def tree_disk_def tables_tree_def
      sample_tree_def memtables_map_def)

lemma mergeable_small:
  assumes "entries_of d a = es" and "entries_of d b = fs" and "es \<in> {table_7, table_8, table_gone}"
    and "fs \<in> {table_7, table_8, table_gone}"
  shows "mergeable d [a, b]"
  using assms
  by (auto simp: mergeable_def run_bytes_def table_7_def table_8_def table_gone_def opt_bytes_def
      intro!: scannable_short simp: key_size_def)

theorem compact_all_preserves_witness:
  "\<exists>t t'. tree_view t (Key [1]) = Some (Value [8]) \<and> compact_all sample_codecs t = (Inr (), t')
     \<and> tree_view t' = tree_view t"
proof (rule two_runs [OF tables_fine(1,2), of True])
  let ?t = "tables_tree [table_7, table_8] (two_levels True)"
  fix a b
  assume ok: "tree_ok sample_codecs ?t {#}"
    and ls: "tree_levels ?t = (if True then [b] # [a] # replicate 5 [] else [a] # [b] # replicate 5 [])"
    and num: "h_run_number a = 1" "h_run_number b = 2"
    and map: "run_map (tree_disk ?t) a = bt_get table_7" "run_map (tree_disk ?t) b = bt_get table_8"
    and es: "entries_of (tree_disk ?t) a = table_7" "entries_of (tree_disk ?t) b = table_8"
  have cc: "concat (tree_levels ?t) = [b, a]" by (simp add: ls)
  have "mergeable (tree_disk ?t) [b, a]" by (rule mergeable_small [OF es(2,1)]) simp_all
  moreover have "age_ordered (tree_levels ?t)" by (simp add: ls num numeral_eq_Suc)
  moreover have "tree_view ?t (Key [1]) = Some (Value [8])"
    by (simp add: tree_view_tables ls map live_def)
  ultimately show ?thesis using compact_all_preserves [OF ok sample_codecs_total] unfolding cc by blast
qed (simp_all add: table_7_def table_8_def)

section \<open>Stale values after compacting everything\<close>

lemma overlay_first:
  "\<forall>m \<in> set pre. m k = None \<Longrightarrow> m k = Some x \<Longrightarrow> overlay (pre @ m # post) k = Some x"
  by (induction pre) (auto simp: map_add_def)

lemma level_map_top:
  assumes b: "b \<in> set hs" "run_map d b k = Some x"
    and top: "\<And>h. h \<in> set hs \<Longrightarrow> run_map d h k \<noteq> None \<Longrightarrow> h = b \<or> h_run_number h < h_run_number b"
  shows "level_map d hs k = Some x"
proof -
  from b(1) obtain pre post where s: "newest_first hs = pre @ b # post" "b \<notin> set pre"
    using split_list_first [of b "newest_first hs"] by auto
  have "sorted (map h_run_number (rev (newest_first hs)))" by (simp add: newest_first_def)
  then have "h_run_number b \<le> h_run_number h" if "h \<in> set pre" for h
    using that by (auto simp: s(1) sorted_append)
  moreover have "h \<in> set hs" if "h \<in> set pre" for h
    using that s(1) set_newest_first [of hs] by auto
  ultimately have "\<forall>h \<in> set pre. run_map d h k = None"
    using top s(2) by (metis leD)
  then show ?thesis
    using overlay_first [of "map (run_map d) pre" k "run_map d b" x "map (run_map d) post"] b(2)
    by (simp add: level_map_def s(1))
qed

text \<open>
  C12. \<open>compact_all\<close> orders the runs by run number alone. A compaction gives its output a new
  number although its data is old, so a run in a deeper level can have the higher number; then
  \<open>compact_all\<close> returns \<open>Ok\<close> and readers see the old value in place of the new one.
\<close>

theorem compact_all_stale:
  assumes t: "tree_ok x t M" and total: "codecs_total x"
    and size: "mergeable (tree_disk t) (concat (tree_levels t))"
    and levels: "tree_levels t = (l0 @ [a]) # (l1 @ [b]) # rest"
    and number: "h_run_number a < h_run_number b"
    and vals: "run_map (tree_disk t) a k = Some (Some new)" "run_map (tree_disk t) b k = Some (Some old)"
    and others: "\<forall>h \<in> set (l0 @ l1 @ concat rest). run_map (tree_disk t) h k = None"
    and mem: "mt_get (lt_memtable t) k = None"
  shows "tree_view t k = Some new
    \<and> (\<exists>t'. compact_all x t = (Inr (), t') \<and> tree_view t' k = Some old)"
proof -
  let ?d = "tree_disk t"
  have mems: "memtables_map (lt_memtable t # rev (lt_immutables t)) k = None"
    using t mem by (simp add: tree_ok_def memtables_map_def)
  have "level_map ?d (l0 @ [a]) k = Some (Some new)"
    by (rule level_map_top [of a]) (use vals others in auto)
  then have "store_map (lt_store t) k = Some (Some new)"
    using levels by (simp add: store_map_def tree_levels_def tree_disk_def)
  then have view: "tree_view t k = Some new"
    using mems by (simp add: tree_view_def tree_map_def live_def map_add_def)
  have all: "level_map ?d (concat (tree_levels t)) k = Some (Some old)"
    by (rule level_map_top [of b]) (use vals others number in \<open>force simp: levels\<close>)+
  obtain t' where c: "compact_all x t = (Inr (), t')"
      "tree_map t' = live_only (level_map ?d (concat (tree_levels t)))
         ++ memtables_map (lt_memtable t # rev (lt_immutables t))"
    by (rule compact_all_ok [OF t total size])
  have "tree_view t' k = Some old"
    unfolding tree_view_def c(2) using mems all by (simp add: live_def live_only_def map_add_def)
  with view c(1) show ?thesis by blast
qed

theorem compact_all_stale_witness:
  "\<exists>t t'. tree_view t (Key [1]) = Some (Value [7]) \<and> compact_all sample_codecs t = (Inr (), t')
     \<and> tree_view t' (Key [1]) = Some (Value [8])"
proof (rule two_runs [OF tables_fine(1,2), of False])
  let ?t = "tables_tree [table_7, table_8] (two_levels False)"
  fix a b
  assume ok: "tree_ok sample_codecs ?t {#}"
    and ls: "tree_levels ?t = (if False then [b] # [a] # replicate 5 [] else [a] # [b] # replicate 5 [])"
    and num: "h_run_number a = 1" "h_run_number b = 2"
    and map: "run_map (tree_disk ?t) a = bt_get table_7" "run_map (tree_disk ?t) b = bt_get table_8"
    and es: "entries_of (tree_disk ?t) a = table_7" "entries_of (tree_disk ?t) b = table_8"
  have cc: "concat (tree_levels ?t) = [a, b]" by (simp add: ls)
  have size: "mergeable (tree_disk ?t) (concat (tree_levels ?t))"
    unfolding cc by (rule mergeable_small [OF es]) simp_all
  have "tree_levels ?t = ([] @ [a]) # ([] @ [b]) # replicate 5 []" by (simp add: ls)
  moreover have "mt_get (lt_memtable ?t) (Key [1]) = None" by (simp add: tables_tree_def sample_tree_def)
  ultimately show ?thesis
    using compact_all_stale [OF ok sample_codecs_total size, of "[]" a "[]" b "replicate 5 []" "Key [1]" "Value [7]" "Value [8]"]
    by (auto simp: num map)
qed (simp_all add: table_7_def table_8_def)

section \<open>One round of level compaction\<close>

text \<open>
  C10. \<open>compact\<close> keeps the view: a round of level compaction that is not interrupted returns
  \<open>Ok\<close> and no reader can tell it happened, whatever level it picks, as long as the full scan
  reaches the keys of the runs it merges and a merge into a bottom level that holds a run
  leaves something to write.
\<close>

theorem compact_preserves_view:
  assumes t: "tree_ok x t M" and total: "codecs_total x" and size: "compactable t"
  shows "\<exists>t'. tree_compact x t = (Inr (), t') \<and> tree_ok x t' M \<and> tree_view t' = tree_view t
    \<and> (levels_ordered (tree_levels t) \<longrightarrow> levels_ordered (tree_levels t'))"
proof -
  obtain s' where c: "tree_compact x t = (Inr (), t\<lparr>lt_store := s'\<rparr>)" "tree_ok x (t\<lparr>lt_store := s'\<rparr>) M"
      "compactable t \<longrightarrow> live (store_map s') = live (store_map (lt_store t))"
      "levels_ordered (tree_levels t) \<longrightarrow> levels_ordered (st_levels s')"
    by (rule tree_compact_ok [OF t total compactable_fits [OF size]])
  have "tree_view (t\<lparr>lt_store := s'\<rparr>) = tree_view t"
    using c(3) size by (simp add: tree_view_def tree_map_def fun_eq_iff live_map_add split: option.split)
  with c show ?thesis by (auto simp: tree_levels_def)
qed

theorem compact_preserves_view_witness:
  "\<exists>t t'. tree_view t (Key [1]) = Some (Value [7]) \<and> tree_compact sample_codecs t = (Inr (), t')
     \<and> tree_view t' = tree_view t"
proof (rule two_runs [OF tables_fine(1,2), of False])
  let ?t = "tables_tree [table_7, table_8] (two_levels False)"
  fix a b
  assume ok: "tree_ok sample_codecs ?t {#}"
    and ls: "tree_levels ?t = (if False then [b] # [a] # replicate 5 [] else [a] # [b] # replicate 5 [])"
    and map: "run_map (tree_disk ?t) a = bt_get table_7" "run_map (tree_disk ?t) b = bt_get table_8"
    and es: "entries_of (tree_disk ?t) a = table_7" "entries_of (tree_disk ?t) b = table_8"
  have ls: "tree_levels ?t = [[a], [b], [], [], [], [], []]" by (simp add: ls numeral_eq_Suc)
  have max: "lt_max_level ?t = 6" by (simp add: tables_tree_def sample_tree_def)
  have ab: "mergeable (tree_disk ?t) [a, b]" by (rule mergeable_small [OF es]) simp_all
  have "mergeable (tree_disk ?t) (tree_levels ?t ! lj_source_level job @ lj_target_level_runs job)
      \<and> (lj_target_level job = 6 \<longrightarrow> lj_target_level_runs job = [])"
    if picked: "pick_job (tree_levels ?t) 6 trigger = Inr (Some job)" for job trigger
  proof -
    obtain i where i: "i < 6" "job = level_job_for (tree_levels ?t) i"
      using pick_job_ok [OF picked] by (auto simp: ls)
    from i(1) have "i \<in> {0, 1, 2, 3, 4, 5}" by auto
    then show ?thesis
      using ab mergeable_append [of "tree_disk ?t" "[a]" "[b]"] unfolding i(2) ls
      by (auto simp: level_job_for_def mergeable_def)
  qed
  then have "\<exists>t'. tree_compact sample_codecs ?t = (Inr (), t') \<and> tree_ok sample_codecs t' {#} \<and> tree_view t' = tree_view ?t
      \<and> (levels_ordered (tree_levels ?t) \<longrightarrow> levels_ordered (tree_levels t'))"
    by (intro compact_preserves_view [OF ok sample_codecs_total]) (auto simp: compactable_def max)
  moreover have "tree_view ?t (Key [1]) = Some (Value [7])"
    by (simp add: tree_view_tables ls map live_def)
  ultimately show ?thesis by blast
qed (simp_all add: table_7_def table_8_def)

section \<open>The bottom level\<close>

text \<open>
  C13. A compaction into the bottom level whose result is empty, because every key it merges is
  deleted, removes the tombstones of the source level but leaves the old run of the bottom
  level in place: a key that read as deleted reads as its old value again.
\<close>

theorem bottom_compaction_resurrects:
  assumes s: "store_ok x dir max_level s M" and total: "codecs_total x"
    and job: "pick_job (st_levels s) max_level trigger = Inr (Some job)" "lj_target_level job = max_level"
    and size: "mergeable (w_disk (st_world s)) (st_levels s ! lj_source_level job @ lj_target_level_runs job)"
    and dead: "live (level_map (w_disk (st_world s)) (lj_target_level_runs job)
        ++ level_map (w_disk (st_world s)) (st_levels s ! lj_source_level job)) = Map.empty"
    and above: "levels_map (w_disk (st_world s)) (take (lj_source_level job) (st_levels s)) k = None"
    and old: "level_map (w_disk (st_world s)) (lj_target_level_runs job) k = Some (Some v)"
  shows "live (store_map s) k = None
    \<and> (\<exists>s'. run_compaction x dir max_level trigger s = (Inr (), s') \<and> live (store_map s') k = Some v)"
proof (rule round_ok [OF s total job(1) size])
  let ?d = "w_disk (st_world s)" and ?i = "lj_source_level job" and ?ls = "st_levels s"
  note j = picked_job [OF s job(1)]
  fix p s1 r s2
  assume run: "run_compaction x dir max_level trigger s = compaction_commit max_level p r s2"
    and ok: "store_ok x dir max_level s2 (mset (option_handles (cr_output r)) + mset (pending_handles p) + M)"
    and pend: "pending_ok max_level p s2" and res: "result_ok max_level p r s2"
    and p: "pd_job p = job" "pd_levels p = ?ls" and ls: "st_levels s2 = ?ls"
    and gen: "st_generation s2 = pd_generation p"
    and maps: "\<And>h. h \<in> set (concat ?ls) \<Longrightarrow> run_map (w_disk (st_world s2)) h = run_map ?d h"
    and out: "cr_output r = None \<longleftrightarrow> merged_map ?d job (?ls ! ?i) max_level = Map.empty"
  have none: "cr_output r = None" using out dead by (simp add: j(4) [OF job(2)] live_only_empty_iff)
  have inputs: "cr_inputs_to_remove r = [0..<length (pd_source p)]" using res by (simp add: result_ok_def)
  note so = store_ok_runs [OF ok]
  obtain s' suf where c: "compaction_commit max_level p r s2 = (Inr (), s')"
      "st_levels s' = commit_levels max_level (cr_output r) suf ?i ?ls"
      "store_map s' = levels_map (w_disk (st_world s2)) (st_levels s')" "?ls ! ?i = pd_source p @ suf"
    by (rule commit_applies [OF conjunct1 [OF so] _ _ pend inputs gen]) (use so in \<open>auto simp: p ls\<close>)
  have "pd_source p = ?ls ! ?i" using pend by (simp add: pending_ok_def job_ok_def Let_def p)
  then have suf: "suf = []" using c(4) by simp
  have new: "st_levels s' = ?ls[?i := [], Suc ?i := ?ls ! Suc ?i]"
    by (simp add: c(2) commit_levels_def none suf)
  have same: "levels_map (w_disk (st_world s2)) (st_levels s') = levels_map ?d (st_levels s')"
  proof (rule levels_map_cong, rule maps)
    fix h
    assume h: "h \<in> set (concat (st_levels s'))"
    have "set (?ls[?i := [], Suc ?i := ?ls ! Suc ?i]) \<subseteq> insert (?ls ! Suc ?i) (insert [] (set ?ls))"
      by (meson insert_mono order_trans set_update_subset_insert)
    moreover have "?ls ! Suc ?i \<in> set ?ls" using j(2) by (rule nth_mem)
    ultimately show "h \<in> set (concat ?ls)" using h unfolding new by auto
  qed
  have split: "levels_map ?d ?ls = levels_map ?d (drop (Suc (Suc ?i)) ?ls) ++ level_map ?d (?ls ! Suc ?i)
      ++ level_map ?d (?ls ! ?i) ++ levels_map ?d (take ?i ?ls)"
    using levels_map_at [OF j(2), of ?d "?ls ! ?i" "?ls ! Suc ?i"] by simp
  have T: "level_map ?d (?ls ! Suc ?i) k = Some (Some v)" using old by (simp add: j(3))
  have "live (level_map ?d (?ls ! Suc ?i) ++ level_map ?d (?ls ! ?i)) k = None" using dead by (simp add: j(3))
  then have "level_map ?d (?ls ! ?i) k = Some None"
    using T by (auto simp: live_def map_add_def split: option.splits)
  then have "live (store_map s) k = None"
    using split above by (simp add: store_map_def live_def map_add_def)
  moreover have "live (store_map s') k = Some v"
    using levels_map_at [OF j(2), of ?d "[]" "?ls ! Suc ?i"] T above
    by (simp add: c(3) new same [unfolded new] live_def map_add_def)
  ultimately show ?thesis using run c(1) by auto
qed

lemma pick_job_some:
  "trigger \<le> l0_len ls \<Longrightarrow> l0_len ls \<noteq> 0 \<Longrightarrow> pick_job ls max_level trigger \<noteq> Inr None"
  by (auto simp: pick_job_def res_bind_eq_Inr split: option.splits)

theorem bottom_compaction_resurrects_witness:
  "\<exists>s s'. live (store_map s) (Key [1]) = None
     \<and> run_compaction sample_codecs [''active''] 1 1 s = (Inr (), s')
     \<and> live (store_map s') (Key [1]) = Some (Value [7])"
proof -
  obtain hs w where hs: "write_tables sample_codecs [''active''] 1 [table_7, table_gone] sample_world = (hs, w)"
    by (cases "write_tables sample_codecs [''active''] 1 [table_7, table_gone] sample_world")
  have "\<forall>es \<in> set [table_7, table_gone]. table_fine es" using tables_fine by simp
  from write_tables_ok [OF runs_ok_sample sample_codecs_total this hs] obtain a b where
    ab: "hs = [a, b]" "run_ok sample_codecs (w_disk w) a table_7" "run_ok sample_codecs (w_disk w) b table_gone"
      "runs_ok sample_codecs [''active''] 3 w {#a, b#}"
    by (auto simp: list_all2_Cons2 numeral_3_eq_3)
  let ?s = "\<lparr>st_world = w, st_levels = [[b], [a]], st_next_run = 3, st_generation = 0\<rparr>"
  have s: "store_ok sample_codecs [''active''] 1 ?s {#}" using ab by (simp add: store_ok_def add_mset_commute)
  have maps: "run_map (w_disk w) a = bt_get table_7" "run_map (w_disk w) b = bt_get table_gone"
    using ab by (simp_all add: run_map_def entries_of_run)
  obtain r where "pick_job [[b], [a]] 1 1 = Inr r" using pick_job_total [of "[[b], [a]]" 1 1] by auto
  with pick_job_some [of 1 "[[b], [a]]" 1] obtain job where job: "pick_job [[b], [a]] 1 1 = Inr (Some job)"
    by (cases r) (auto simp: l0_len_def)
  with pick_job_ok [OF this] have j: "job = level_job_for [[b], [a]] 0" by auto
  have "mergeable (w_disk w) [b, a]"
    using ab by (intro mergeable_small [of _ _ table_gone _ table_7]) (simp_all add: entries_of_run)
  moreover have "live (bt_get table_7 ++ bt_get table_gone) = Map.empty"
    by (auto simp: fun_eq_iff live_def map_add_def table_7_def table_gone_def bt_get_eq split: option.split)
  ultimately show ?thesis
    using bottom_compaction_resurrects [OF s sample_codecs_total, of 1 job "Key [1]" "Value [7]"] job
    by (auto simp: j level_job_for_def maps)
qed

section \<open>Selecting a level\<close>

lemma select_among_iff:
  "\<forall>i \<in> set is. i < length levels \<Longrightarrow>
   select_among levels ratio is =
     Inr (map_option (level_job_for levels)
       (List.find (\<lambda>i. level_target_size i ratio < level_size (levels ! i)) is))"
  by (induction "is") auto

lemma find_upt_iff:
  "List.find P [0..<n] = Some i \<longleftrightarrow> i < n \<and> P i \<and> (\<forall>j < i. \<not> P j)"
  "List.find P [0..<n] = None \<longleftrightarrow> (\<forall>i < n. \<not> P i)"
  by (auto simp: find_Some_iff find_None_iff)

text \<open>
  The level selection is exact: it never fails on levels 0 to \<open>max_level\<close>, answers with a
  job for the topmost level above its size target, all of whose runs it merges into the next
  level together with that level's runs, and answers \<open>None\<close> just when every level above the
  bottom is within its target.
\<close>

lemma select_level_compaction_exact:
  assumes len: "length levels = Suc max_level"
  shows "(select_level_compaction levels max_level ratio = Inr None \<longleftrightarrow>
      (\<forall>i < max_level. level_size (levels ! i) \<le> level_target_size i ratio))
    \<and> (select_level_compaction levels max_level ratio = Inr (Some job) \<longleftrightarrow>
      (\<exists>i < max_level. level_target_size i ratio < level_size (levels ! i)
        \<and> (\<forall>j < i. level_size (levels ! j) \<le> level_target_size j ratio)
        \<and> job = \<lparr>lj_source_level = i, lj_target_level = i + 1, lj_source_runs = [0..<length (levels ! i)],
                  lj_target_level_runs = levels ! (i + 1)\<rparr>))"
proof -
  let ?P = "\<lambda>i. level_target_size i ratio < level_size (levels ! i)"
  have sel: "select_level_compaction levels max_level ratio =
      Inr (map_option (level_job_for levels) (List.find ?P [0..<max_level]))"
    using len by (simp add: select_level_compaction_def select_among_iff)
  have job: "level_job_for levels i = \<lparr>lj_source_level = i, lj_target_level = i + 1,
      lj_source_runs = [0..<length (levels ! i)], lj_target_level_runs = levels ! (i + 1)\<rparr>"
    if "i < max_level" for i
    using that len by (simp add: level_job_for_def)
  have "(\<exists>i. List.find ?P [0..<max_level] = Some i \<and> job = level_job_for levels i) \<longleftrightarrow>
      (\<exists>i < max_level. ?P i \<and> (\<forall>j < i. \<not> ?P j) \<and> job = level_job_for levels i)"
    unfolding find_upt_iff by blast
  then show ?thesis
    using job by (auto simp: sel find_upt_iff not_less eq_commute [of _ job] simp del: find_None_iff)
qed

end
