(* ===== verification/Rounds.thy ===== *)
theory Rounds
  imports Background_Correct CompactionProperties
begin

text \<open>
  Runs of the system: sequences of steps, what a flush leaves for the compaction thread, and the
  round of the thread that follows, from its waking up to its write-back, when nothing comes in
  between.
\<close>

section \<open>Sequences of steps\<close>

inductive sys_steps :: "codecs \<Rightarrow> system \<Rightarrow> event list \<Rightarrow> system \<Rightarrow> bool" for x where
  none: "sys_steps x s [] s"
| more: "sys_step x s e s1 \<Longrightarrow> sys_steps x s1 es s2 \<Longrightarrow> sys_steps x s (e # es) s2"

text \<open>A tree, no snapshot and an idle thread.\<close>

definition start_system :: "lsm_tree \<Rightarrow> system" where
  "start_system t = \<lparr>sy_tree = t, sy_bg = BgIdle, sy_snapshots = []\<rparr>"

lemma start_invar:
  assumes "tree_ok x t {#}" and "levels_ordered (tree_levels t)"
  shows "sys_invar x (start_system t)"
  using assms by (simp add: sys_invar_def start_system_def others_def bg_handles_def
      snapshot_handles_def bg_ok_def)

section \<open>A flush\<close>

lemma flush_effect:
  assumes "flush_memtable x t = (Inr (), t')" and "mt_data (lt_memtable t) \<noteq> []"
  shows "\<exists>h. tree_levels t' = (hd (tree_levels t) @ [h]) # tl (tree_levels t)"
    and "lt_waiting t' \<longleftrightarrow> level0_compaction_trigger (lt_config t) * 4 < Suc (l0_len (tree_levels t))"
    and "lt_should_run t'" and "lt_shutdown t' = lt_shutdown t" and "lt_memtable t' = mt_new (lt_sequence t)"
  using assms
  by (auto simp: flush_memtable_def Let_def io_bind_def on_store_def alloc_run_def on_world_def push_l0_def
      tree_levels_def l0_len_def mt_is_empty_def split: prod.splits sum.splits list.splits)

section \<open>The level that a round picks\<close>

text \<open>L0 is above its target size, or no level between L0 and the last one is.\<close>

definition l0_first :: "sst_handle list list \<Rightarrow> nat \<Rightarrow> bool" where
  "l0_first levels max_level \<longleftrightarrow>
     level_target_size 0 4 < level_size (levels ! 0)
     \<or> (\<forall>i \<in> {1..<max_level}. level_size (levels ! i) \<le> level_target_size i 4)"

lemma level_job_source [simp]: "lj_source_level (level_job_for levels i) = i"
  by (simp add: level_job_for_def)

lemma pick_job_source:
  assumes len: "length levels = Suc max_level" "1 \<le> max_level" and l0: "trigger \<le> l0_len levels" "0 < l0_len levels"
  obtains job where "pick_job levels max_level trigger = Inr (Some job)" and "lj_source_level job = 0 \<longleftrightarrow> l0_first levels max_level"
proof (cases "\<forall>i < max_level. level_size (levels ! i) \<le> level_target_size i 4")
  case True
  then have "select_level_compaction levels max_level 4 = Inr None" using select_level_compaction_exact [OF len(1)] by blast
  then show thesis using True l0 by (intro that) (auto simp: pick_job_def result_simps l0_first_def)
next
  case False
  then obtain i where i: "i < max_level" "level_target_size i 4 < level_size (levels ! i)"
      "\<forall>j < i. level_size (levels ! j) \<le> level_target_size j 4"
    using exists_least_iff [of "\<lambda>i. i < max_level \<and> level_target_size i 4 < level_size (levels ! i)"] by (auto simp: not_le not_less)
  then have "select_level_compaction levels max_level 4 = Inr (Some (level_job_for levels i))"
    using select_level_compaction_exact [OF len(1), of 4 "level_job_for levels i"] len(1) by (auto simp: level_job_for_def)
  then have "pick_job levels max_level trigger = Inr (Some (level_job_for levels i))" by (simp add: pick_job_def result_simps)
  moreover have "i = 0 \<longleftrightarrow> l0_first levels max_level"
  proof (cases "i = 0")
    case False
    then have "level_size (levels ! 0) \<le> level_target_size 0 4" "i \<in> {1..<max_level}" using i(1,3) by simp_all
    with i(2) have "\<not> l0_first levels max_level" by (auto simp: l0_first_def not_less not_le)
    with False show ?thesis by simp
  qed (use i(2) in \<open>simp add: l0_first_def\<close>)
  ultimately show thesis by (intro that [of "level_job_for levels i"]) simp_all
qed

section \<open>The round after the flush\<close>

lemma wake_and_round:
  assumes inv: "sys_invar x s" and total: "codecs_total x" and idle: "sy_bg s = BgIdle"
    and signal: "lt_should_run (sy_tree s)" "\<not> lt_shutdown (sy_tree s)"
    and ready: "level0_compaction_trigger (lt_config (sy_tree s)) \<le> l0_len (tree_levels (sy_tree s))"
    and job: "pick_job (tree_levels (sy_tree s)) (lt_max_level (sy_tree s)) (level0_compaction_trigger (lt_config (sy_tree s)))
      = Inr (Some job)"
    and size: "mergeable (tree_disk (sy_tree s)) (tree_levels (sy_tree s) ! lj_source_level job @ lj_target_level_runs job)"
  obtains s' where "sys_steps x s [BgWake, BgMerge, BgCommit] s'" and "sy_bg s' = BgIdle"
    and "lt_waiting (sy_tree s') = lt_waiting (sy_tree s)" and "\<not> lt_should_run (sy_tree s')"
    and "lt_config (sy_tree s') = lt_config (sy_tree s)"
    and "l0_len (tree_levels (sy_tree s')) = (if lj_source_level job = 0 then 0 else l0_len (tree_levels (sy_tree s)))"
    and "lt_memtable (sy_tree s') = lt_memtable (sy_tree s)" and "sy_snapshots s' = sy_snapshots s"
    and "\<exists>out. tree_levels (sy_tree s') = commit_levels (lt_max_level (sy_tree s)) out [] (lj_source_level job) (tree_levels (sy_tree s))"
    and "lj_target_level job \<noteq> lt_max_level (sy_tree s) \<longrightarrow>
      (\<forall>s0 es. reachable step_fine x s0 es s \<longrightarrow> reachable step_fine x s0 (es @ [BgWake, BgMerge, BgCommit]) s')"
proof -
  let ?t = "sy_tree s" and ?s = "lt_store (sy_tree s)" and ?M = "others (sy_bg s) (sy_snapshots s)"
  let ?trigger = "level0_compaction_trigger (lt_config ?t)" and ?i = "lj_source_level job"
  have store: "store_ok x (lt_active_dir ?t) (lt_max_level ?t) ?s ?M"
    using inv by (simp add: sys_invar_def Let_def tree_ok_def)
  obtain p s1 r s2 where
    b: "compaction_begin (lt_max_level ?t) ?trigger ?s = (Inr (Some p), s1)" and
    m: "compaction_merge x (lt_active_dir ?t) (lt_max_level ?t) p s1 = (Inr r, s2)" and
    ok: "store_ok x (lt_active_dir ?t) (lt_max_level ?t) s2 (mset (option_handles (cr_output r)) + mset (pending_handles p) + ?M)"
      "pending_ok (lt_max_level ?t) p s2" "result_ok (lt_max_level ?t) p r s2" and
    p: "pd_job p = job" "pd_levels p = st_levels ?s" "st_levels s2 = st_levels ?s" "st_generation s2 = pd_generation p"
    by (rule round_ok [OF store total job [unfolded tree_levels_def] size [unfolded tree_levels_def tree_disk_def]])
  have disk: "w_disk (st_world s1) = w_disk (st_world ?s)" by (rule begin_disk [OF b])
  have jok: "job_ok (lt_max_level ?t) p" using ok(2) by (simp add: pending_ok_def)
  have runs: "runs_ok x (lt_active_dir ?t) (st_next_run s2) (st_world s2)
      (mset (concat (st_levels s2)) + (mset (option_handles (cr_output r)) + mset (pending_handles p) + ?M))"
    and len: "length (st_levels s2) = Suc (lt_max_level ?t)" "length (st_levels s2 ! lt_max_level ?t) \<le> 1"
    using ok(1) by (simp_all add: store_ok_def)
  have inputs: "cr_inputs_to_remove r = [0..<length (pd_source p)]" using ok(3) by (simp add: result_ok_def)
  obtain s3 suf where
    c: "compaction_commit (lt_max_level ?t) p r s2 = (Inr (), s3)" and
    ls: "st_levels s3 = commit_levels (lt_max_level ?t) (cr_output r) suf (lj_source_level (pd_job p)) (st_levels s2)" and
    suf: "st_levels s2 ! lj_source_level (pd_job p) = pd_source p @ suf"
    by (rule commit_applies [OF runs len ok(2) inputs p(4)])
  have "pd_source p = st_levels ?s ! ?i" "?i < lt_max_level ?t"
    using jok by (simp_all add: job_ok_def Let_def p(1,2))
  then have empty: "suf = []" and i: "Suc ?i < length (st_levels ?s)" using suf len(1) by (simp_all add: p)
  have l0: "l0_len (st_levels s3) = (if ?i = 0 then 0 else l0_len (st_levels ?s))"
  proof -
    have nth: "l0_len levels = length (levels ! 0)" if "levels \<noteq> []" for levels
      using that by (cases levels) (simp_all add: l0_len_def)
    have "st_levels ?s \<noteq> []" using i by auto
    then show ?thesis using i by (simp add: nth ls p commit_levels_def empty)
  qed
  let ?t1 = "?t\<lparr>lt_should_run := False\<rparr>"
  let ?a = "s\<lparr>sy_tree := ?t1\<lparr>lt_store := s1\<rparr>, sy_bg := BgRunning p\<rparr>"
  let ?b = "?a\<lparr>sy_tree := ?t1\<lparr>lt_store := s2\<rparr>, sy_bg := BgMerged p r\<rparr>"
  let ?c = "?b\<lparr>sy_tree := spend_credits (?t1\<lparr>lt_store := s3\<rparr>), sy_bg := BgIdle\<rparr>"
  have "tree_levels ?t \<noteq> []" using i by (auto simp: tree_levels_def)
  then have "bg_ready ?t1" using ready by (cases "tree_levels ?t") (auto simp: bg_ready_def l0_len_def tree_levels_def)
  then have "bg_wake ?t = (BgRunning p, ?t1\<lparr>lt_store := s1\<rparr>)"
    using b by (simp add: bg_wake_def Let_def on_store_def)
  then have 1: "sys_step x s BgWake ?a" using idle signal by (intro sys_step.wake) simp_all
  have "bg_merge x p (sy_tree ?a) = (BgMerged p r, ?t1\<lparr>lt_store := s2\<rparr>)" using m by (simp add: bg_merge_def)
  then have 2: "sys_step x ?a BgMerge ?b" by (intro sys_step.merge) simp_all
  have "bg_commit p r (sy_tree ?b) = (BgIdle, spend_credits (?t1\<lparr>lt_store := s3\<rparr>))"
    using c by (simp add: bg_commit_def on_store_def)
  then have 3: "sys_step x ?b BgCommit ?c" by (intro sys_step.commit) simp_all
  from 1 2 3 have steps: "sys_steps x s [BgWake, BgMerge, BgCommit] ?c" by (blast intro: sys_steps.intros)
  have "pd_source p @ lj_target_level_runs (pd_job p) = tree_levels ?t ! ?i @ lj_target_level_runs job"
    using jok by (simp add: job_ok_def Let_def p(1,2) tree_levels_def)
  moreover have "tree_disk (sy_tree ?a) = tree_disk ?t" by (simp add: tree_disk_def disk)
  ultimately have "step_fine ?a BgMerge" using size by (simp add: step_fine_def step_fits_def)
  moreover have "step_fine s BgWake" by (simp add: step_fine_def step_fits_def)
  moreover have "step_fine ?b BgCommit" if "lj_target_level job \<noteq> lt_max_level ?t"
    using that by (simp add: step_fine_def step_fits_def loses_bottom_def p(1))
  ultimately have reach: "reachable step_fine x s0 (((es @ [BgWake]) @ [BgMerge]) @ [BgCommit]) ?c"
    if "lj_target_level job \<noteq> lt_max_level ?t" "reachable step_fine x s0 es s" for s0 es
    using that 1 2 3 by (blast intro: reachable.step)
  have levels: "st_levels s3 = commit_levels (lt_max_level ?t) (cr_output r) [] ?i (st_levels ?s)"
    by (simp only: ls empty p)
  show thesis
    by (rule that [OF steps])
      (use l0 reach levels in \<open>auto simp: spend_credits_def Let_def tree_levels_def\<close>)
qed

end
