(* ===== verification/TreeSamples.thy ===== *)
theory TreeSamples
  imports Rounds
begin

text \<open>
  Reachable states of the system from an empty tree: one insertion that stays in the memtable,
  and a longer run with two flushes, a snapshot and a round of the compaction thread.
\<close>

section \<open>One insertion\<close>

lemma levels_ordered_sample [simp]: "levels_ordered (tree_levels sample_tree)"
  by (simp add: levels_ordered_def tree_levels_def sample_tree_def sample_store_def)

lemma sample_invar: "sys_invar x (start_system sample_tree)"
  by (rule start_invar) (simp_all add: tree_ok_sample)

lemma sample_fits: "fits (mt_data (mt_insert (Key [1]) (Value [a]) (mt_new n)))"
  by (simp add: fits_def mt_insert_def mt_new_def Let_def key_size_def opt_bytes_def)

lemma sample_spec: "spec_of (start_system sample_tree) = (Map.empty, [])"
  by (simp add: spec_of_def start_system_def tree_view_def tree_map_sample)

text \<open>The empty tree after one insertion, which stays in the memtable.\<close>

definition one_key_tree :: lsm_tree where
  "one_key_tree = sample_tree\<lparr>lt_memtable := mt_insert (Key [1]) (Value [2]) (mt_new 0)\<rparr>"

lemma one_key_insert:
  "tree_insert sample_codecs (Key [1]) (Value [2]) sample_tree = (Inr (), one_key_tree)"
  by (simp add: tree_insert_def flush_if_full_def sample_tree_def one_key_tree_def sample_config_def
      mt_insert_def mt_new_def Let_def key_size_def value_size_def)

lemma one_key_levels [simp]: "concat (tree_levels one_key_tree) = []"
  by (simp add: one_key_tree_def tree_levels_def sample_tree_def sample_store_def)

lemma one_key_reachable:
  "reachable step_fits sample_codecs (start_system sample_tree) [Insert (Key [1]) (Value [2])]
     (start_system one_key_tree)"
proof -
  have "\<not> lt_waiting sample_tree" by (simp add: sample_tree_def)
  then have "sys_step sample_codecs (start_system sample_tree) (Insert (Key [1]) (Value [2]))
      ((start_system sample_tree)\<lparr>sy_tree := one_key_tree\<rparr>)"
    using one_key_insert by (intro sys_step.insert) (simp_all add: start_system_def)
  moreover have "step_fits (start_system sample_tree) (Insert (Key [1]) (Value [2]))"
    using sample_fits by (simp add: step_fits_def start_system_def sample_tree_def)
  ultimately have "reachable step_fits sample_codecs (start_system sample_tree) ([] @ [Insert (Key [1]) (Value [2])])
      ((start_system sample_tree)\<lparr>sy_tree := one_key_tree\<rparr>)"
    by (intro reachable.step [OF reachable.start])
  then show ?thesis by (simp add: start_system_def)
qed

section \<open>A flush, a snapshot, a round and another flush\<close>

text \<open>A tree that flushes at every write.\<close>

definition eager_tree :: lsm_tree where
  "eager_tree = sample_tree\<lparr>lt_config := sample_config\<lparr>memtable_size := 0\<rparr>\<rparr>"

lemma eager_tree_ok: "tree_ok x eager_tree {#}"
  using tree_ok_sample [of x] by (simp add: eager_tree_def tree_ok_def)

lemma eager_levels: "tree_levels eager_tree = replicate 7 []"
  by (simp add: eager_tree_def tree_levels_def sample_tree_def sample_store_def)

lemma eager_invar: "sys_invar x (start_system eager_tree)"
  by (rule start_invar [OF eager_tree_ok]) (simp add: eager_levels levels_ordered_def)

lemma eager_map: "tree_map eager_tree = Map.empty"
  using tree_map_sample by (simp add: eager_tree_def tree_map_def)

lemma eager_spec: "spec_of (start_system eager_tree) = (Map.empty, [])"
  by (simp add: spec_of_def start_system_def tree_view_def eager_map)

lemma bt_insert_nonempty: "bt_insert k v m \<noteq> []"
  by (cases m) (auto split: if_splits)

lemma insert_and_flush:
  assumes t: "tree_ok x t M" and total: "codecs_total x" and fits: "fits (mt_data (mt_insert k v (lt_memtable t)))"
    and size: "memtable_size (lt_config t) = 0"
  obtains t' h where "tree_insert x k v t = (Inr (), t')" and "tree_map t' = (tree_map t)(k \<mapsto> Some v)"
    and "tree_levels t' = (hd (tree_levels t) @ [h]) # tl (tree_levels t)" and "lt_memtable t' = mt_new (lt_sequence t)"
    and "lt_waiting t' \<longleftrightarrow> level0_compaction_trigger (lt_config t) * 4 < Suc (l0_len (tree_levels t))"
    and "lt_should_run t'" and "lt_shutdown t' = lt_shutdown t"
    and "same_shape t t'" and "same_runs x (st_world (lt_store t)) (st_world (lt_store t')) (mset (concat (tree_levels t)) + M)"
proof -
  let ?t = "t\<lparr>lt_memtable := mt_insert k v (lt_memtable t)\<rparr>"
  obtain t' where f: "tree_insert x k v t = (Inr (), t')" "flushed x ?t t' M" "tree_map t' = (tree_map t)(k \<mapsto> Some v)"
    by (rule tree_insert_ok [OF t total fits])
  have "flush_memtable x ?t = (Inr (), t')" using f(1) size by (simp add: tree_insert_def flush_if_full_def)
  moreover have "mt_data (lt_memtable ?t) \<noteq> []" by (simp add: mt_insert_def Let_def bt_insert_nonempty)
  ultimately have e: "\<exists>h. tree_levels t' = (hd (tree_levels t) @ [h]) # tl (tree_levels t)"
      "lt_waiting t' \<longleftrightarrow> level0_compaction_trigger (lt_config t) * 4 < Suc (l0_len (tree_levels t))"
      "lt_should_run t'" "lt_shutdown t' = lt_shutdown t" "lt_memtable t' = mt_new (lt_sequence t)"
    using flush_effect [of x ?t t'] by (simp_all add: tree_levels_def)
  from f(2) have "same_shape t t'"
      "same_runs x (st_world (lt_store t)) (st_world (lt_store t')) (mset (concat (tree_levels t)) + M)"
    by (simp_all add: flushed_def same_shape_def tree_levels_def)
  with e f(1,3) show thesis by (auto intro: that)
qed

lemma single_entry: "bt_wf es \<Longrightarrow> bt_get es = [k \<mapsto> v] \<Longrightarrow> es = [(k, v)]"
  by (rule btree.bindings_determined) (simp_all add: bt_get_eq fun_eq_iff)

lemma single_run:
  assumes t: "tree_ok x t M" and ls: "tree_levels t = [h] # replicate n []" and mem: "lt_memtable t = mt_new q"
    and map: "tree_map t = [k \<mapsto> Some v]"
  shows "run_map (tree_disk t) h = [k \<mapsto> Some v]" and "entries_of (tree_disk t) h = [(k, Some v)]"
proof -
  have none: "levels_map d (replicate n []) = Map.empty" for d by (induction n) simp_all
  show run: "run_map (tree_disk t) h = [k \<mapsto> Some v]"
    using tree_map_store [OF t] ls none mem map by (simp add: store_map_def tree_levels_def tree_disk_def)
  obtain es where es: "run_ok x (tree_disk t) h es"
    using tree_runs_ok [OF t] by (auto simp: runs_ok_def ls tree_disk_def)
  then have "entries_of (tree_disk t) h = es" "bt_wf es" by (simp_all add: entries_of_run) (simp add: run_ok_def table_ok_def)
  with run show "entries_of (tree_disk t) h = [(k, Some v)]" by (simp add: run_map_def single_entry)
qed

definition sample_trace :: "event list" where
  "sample_trace = [Insert (Key [1]) (Value [2]), TakeSnapshot, BgWake, BgMerge, BgCommit, Insert (Key [1]) (Value [3])]"

lemma sample_trace_spec:
  "fold spec_step sample_trace (Map.empty, []) = ([Key [1] \<mapsto> Value [3]], [[Key [1] \<mapsto> Value [2]]])"
  by (simp add: sample_trace_def)

lemma level_map_none: "level_map d [] = Map.empty"
  by (simp add: level_map_def newest_first_def)

text \<open>Up to the snapshot: the run of the first flush is in L0, and the snapshot shares it.\<close>

lemma flushed_and_shared:
  obtains s h where "reachable step_fine sample_codecs (start_system eager_tree) [Insert (Key [1]) (Value [2]), TakeSnapshot] s"
    and "tree_levels (sy_tree s) = [h] # replicate 6 []" and "mergeable (tree_disk (sy_tree s)) [h]"
    and "\<exists>sn. sy_snapshots s = [sn] \<and> sn_levels sn = [h] # replicate 6 [] \<and> mt_get (sn_memtable sn) = Map.empty"
    and "sy_bg s = BgIdle" and "lt_should_run (sy_tree s)" and "\<not> lt_shutdown (sy_tree s)" and "\<not> lt_waiting (sy_tree s)"
    and "lt_memtable (sy_tree s) = mt_new 0" and "lt_config (sy_tree s) = sample_config\<lparr>memtable_size := 0\<rparr>"
    and "lt_max_level (sy_tree s) = 6"
proof -
  have c: "lt_config eager_tree = sample_config\<lparr>memtable_size := 0\<rparr>" "lt_memtable eager_tree = mt_new 0" "lt_sequence eager_tree = 0"
      "lt_max_level eager_tree = 6" "\<not> lt_waiting eager_tree" "\<not> lt_shutdown eager_tree" "l0_len (tree_levels eager_tree) = 0"
    by (simp_all add: eager_levels l0_len_def numeral_eq_Suc) (simp_all add: eager_tree_def sample_tree_def)
  have fits: "fits (mt_data (mt_insert (Key [1]) (Value [2]) (lt_memtable eager_tree)))" by (simp add: c sample_fits)
  have size: "memtable_size (lt_config eager_tree) = 0" by (simp add: c)
  obtain t h where t: "tree_insert sample_codecs (Key [1]) (Value [2]) eager_tree = (Inr (), t)"
      "tree_map t = (tree_map eager_tree)(Key [1] \<mapsto> Some (Value [2]))"
      "tree_levels t = (hd (tree_levels eager_tree) @ [h]) # tl (tree_levels eager_tree)" "lt_memtable t = mt_new (lt_sequence eager_tree)"
      "lt_waiting t \<longleftrightarrow> level0_compaction_trigger (lt_config eager_tree) * 4 < Suc (l0_len (tree_levels eager_tree))"
      "lt_should_run t" "lt_shutdown t = lt_shutdown eager_tree" "same_shape eager_tree t"
    by (rule insert_and_flush [OF eager_tree_ok sample_codecs_total fits size])
  have ls: "tree_levels t = [h] # replicate 6 []" using t(3) by (simp add: eager_levels numeral_eq_Suc)
  have idle: "\<not> lt_waiting t" using t(5) by (simp add: c sample_config_def)
  let ?s0 = "start_system eager_tree" and ?s1 = "(start_system eager_tree)\<lparr>sy_tree := t\<rparr>"
  have "sys_step sample_codecs ?s0 (Insert (Key [1]) (Value [2])) ?s1"
    using t(1) c by (intro sys_step.insert) (simp_all add: start_system_def)
  moreover have "step_fine ?s0 (Insert (Key [1]) (Value [2]))"
    using fits by (simp add: step_fine_def step_fits_def start_system_def)
  ultimately have r1: "reachable step_fine sample_codecs ?s0 ([] @ [Insert (Key [1]) (Value [2])]) ?s1"
    by (intro reachable.step [OF reachable.start])
  have "sys_invar sample_codecs ?s1" using reachable_ok [OF r1 eager_invar sample_codecs_total] by simp
  then have ok: "tree_ok sample_codecs t (others BgIdle [])" by (simp add: sys_invar_def Let_def start_system_def)
  have map: "tree_map t = [Key [1] \<mapsto> Some (Value [2])]" by (simp add: t(2) eager_map)
  have "entries_of (tree_disk t) h = [(Key [1], Some (Value [2]))]"
    by (rule single_run(2) [OF ok ls t(4) map])
  then have merge: "mergeable (tree_disk t) [h]"
    by (simp add: mergeable_def run_bytes_def opt_bytes_def scannable_short key_size_def)
  let ?sn = "fst (tree_snapshot t)" and ?t2 = "snd (tree_snapshot t)"
  let ?s2 = "?s1\<lparr>sy_tree := ?t2, sy_snapshots := sy_snapshots ?s1 @ [?sn]\<rparr>"
  have "sys_step sample_codecs ?s1 TakeSnapshot ?s2" using idle by (intro sys_step.snapshot) simp_all
  moreover have "step_fine ?s1 TakeSnapshot" by (simp add: step_fine_def step_fits_def)
  ultimately have r2: "reachable step_fine sample_codecs ?s0 (([] @ [Insert (Key [1]) (Value [2])]) @ [TakeSnapshot]) ?s2"
    by (intro reachable.step [OF r1])
  have same: "tree_levels ?t2 = tree_levels t" "tree_disk ?t2 = tree_disk t" "lt_memtable ?t2 = mt_new 0"
      "lt_config ?t2 = lt_config t" "lt_waiting ?t2 = lt_waiting t" "lt_shutdown ?t2 = lt_shutdown t" "lt_should_run ?t2 = lt_should_run t"
      "lt_max_level ?t2 = lt_max_level t" "sn_levels ?sn = tree_levels t" "sn_memtable ?sn = mt_new 0"
    by (simp_all add: tree_snapshot_def tree_levels_def tree_disk_def t(4) c)
  show thesis
    by (rule that [of ?s2 h]) (use r2 merge ls idle t(6,7,8) c in \<open>simp_all add: same start_system_def same_shape_def\<close>)
qed

text \<open>The round moves what the flush wrote to L1.\<close>

lemma round_done:
  obtains s h out where "reachable step_fine sample_codecs (start_system eager_tree)
      [Insert (Key [1]) (Value [2]), TakeSnapshot, BgWake, BgMerge, BgCommit] s"
    and "tree_levels (sy_tree s) = [] # option_handles out # replicate 5 []"
    and "\<exists>sn. sy_snapshots s = [sn] \<and> sn_levels sn = [h] # replicate 6 [] \<and> mt_get (sn_memtable sn) = Map.empty"
    and "\<not> lt_waiting (sy_tree s)" and "lt_memtable (sy_tree s) = mt_new 0"
    and "lt_config (sy_tree s) = sample_config\<lparr>memtable_size := 0\<rparr>"
proof -
  obtain s h where s: "reachable step_fine sample_codecs (start_system eager_tree) [Insert (Key [1]) (Value [2]), TakeSnapshot] s"
      "tree_levels (sy_tree s) = [h] # replicate 6 []" "mergeable (tree_disk (sy_tree s)) [h]"
      "\<exists>sn. sy_snapshots s = [sn] \<and> sn_levels sn = [h] # replicate 6 [] \<and> mt_get (sn_memtable sn) = Map.empty"
      "sy_bg s = BgIdle" "lt_should_run (sy_tree s)" "\<not> lt_shutdown (sy_tree s)" "\<not> lt_waiting (sy_tree s)"
      "lt_memtable (sy_tree s) = mt_new 0" "lt_config (sy_tree s) = sample_config\<lparr>memtable_size := 0\<rparr>" "lt_max_level (sy_tree s) = 6"
    by (rule flushed_and_shared)
  have trigger: "level0_compaction_trigger (lt_config (sy_tree s)) = 1" by (simp add: s(10) sample_config_def)
  have l0: "l0_len (tree_levels (sy_tree s)) = 1" by (simp add: s(2) l0_len_def)
  have inv: "sys_invar sample_codecs s" using reachable_ok [OF s(1) eager_invar sample_codecs_total] by simp
  have first: "l0_first (tree_levels (sy_tree s)) 6"
    by (auto simp: l0_first_def s(2) level_size_def nth_Cons')
  obtain job where job: "pick_job (tree_levels (sy_tree s)) 6 1 = Inr (Some job)" "lj_source_level job = 0"
    using pick_job_source [of "tree_levels (sy_tree s)" 6 1] first l0 s(2) by auto
  obtain i where "i < 6" "job = level_job_for (tree_levels (sy_tree s)) i"
    by (rule pick_job_ok [OF job(1)]) (simp_all add: s(2))
  then have j: "lj_target_level_runs job = []" "lj_target_level job = 1"
    using job(2) by (simp_all add: level_job_for_def s(2))
  have pick: "pick_job (tree_levels (sy_tree s)) (lt_max_level (sy_tree s)) (level0_compaction_trigger (lt_config (sy_tree s)))
      = Inr (Some job)" using job(1) by (simp add: s(11) trigger)
  have ready: "level0_compaction_trigger (lt_config (sy_tree s)) \<le> l0_len (tree_levels (sy_tree s))" by (simp add: trigger l0)
  have size: "mergeable (tree_disk (sy_tree s)) (tree_levels (sy_tree s) ! lj_source_level job @ lj_target_level_runs job)"
    using s(3) by (simp add: job(2) j s(2))
  obtain s' where s': "lt_waiting (sy_tree s') = lt_waiting (sy_tree s)" "lt_config (sy_tree s') = lt_config (sy_tree s)"
      "lt_memtable (sy_tree s') = lt_memtable (sy_tree s)" "sy_snapshots s' = sy_snapshots s"
      "\<exists>out. tree_levels (sy_tree s') = commit_levels (lt_max_level (sy_tree s)) out [] (lj_source_level job) (tree_levels (sy_tree s))"
      "lj_target_level job \<noteq> lt_max_level (sy_tree s) \<longrightarrow> (\<forall>s0 es. reachable step_fine sample_codecs s0 es s \<longrightarrow>
        reachable step_fine sample_codecs s0 (es @ [BgWake, BgMerge, BgCommit]) s')"
    by (rule wake_and_round [OF inv sample_codecs_total s(5,6,7) ready pick size]) auto
  obtain out where "tree_levels (sy_tree s') = commit_levels 6 out [] 0 ([h] # replicate 6 [])"
    using s'(5) by (auto simp: s(2,11) job(2))
  then have ls: "tree_levels (sy_tree s') = [] # option_handles out # replicate 5 []"
    by (cases out) (simp_all add: commit_levels_def option_handles_def numeral_eq_Suc)
  have "reachable step_fine sample_codecs (start_system eager_tree)
      ([Insert (Key [1]) (Value [2]), TakeSnapshot] @ [BgWake, BgMerge, BgCommit]) s'"
    using s'(6) [rule_format, OF _ s(1)] by (simp add: j(2) s(11))
  then show thesis using s' s ls by (intro that [of s' out h]) simp_all
qed

text \<open>The whole trace: a new value in L0 over the old one in L1, which the snapshot still has.\<close>

lemma sample_run:
  obtains s sn where "reachable step_fine sample_codecs (start_system eager_tree) sample_trace s"
    and "sy_snapshots s = [sn]" and "concat (tree_levels (sy_tree s)) \<noteq> []" and "concat (sn_levels sn) \<noteq> []"
    and "no_tombstone (tree_disk (sy_tree s)) (tree_levels (sy_tree s)) (Key [1])"
    and "no_tombstone (tree_disk (sy_tree s)) (sn_levels sn) (Key [1])" and "\<exists>q. lt_memtable (sy_tree s) = mt_new q"
proof -
  have none: "levels_map d (replicate n []) = Map.empty" for d n by (induction n) simp_all
  obtain s0 h out where s0: "reachable step_fine sample_codecs (start_system eager_tree)
      [Insert (Key [1]) (Value [2]), TakeSnapshot, BgWake, BgMerge, BgCommit] s0"
      "tree_levels (sy_tree s0) = [] # option_handles out # replicate 5 []"
      "\<exists>sn. sy_snapshots s0 = [sn] \<and> sn_levels sn = [h] # replicate 6 [] \<and> mt_get (sn_memtable sn) = Map.empty"
      "\<not> lt_waiting (sy_tree s0)" "lt_memtable (sy_tree s0) = mt_new 0"
      "lt_config (sy_tree s0) = sample_config\<lparr>memtable_size := 0\<rparr>"
    by (rule round_done)
  let ?t0 = "sy_tree s0" and ?M = "others (sy_bg s0) (sy_snapshots s0)"
  from reachable_ok [OF s0(1) eager_invar sample_codecs_total]
  have t0: "tree_ok sample_codecs ?t0 ?M" and view0: "tree_view ?t0 = [Key [1] \<mapsto> Value [2]]"
    by (simp_all add: sys_invar_def Let_def eager_spec) (simp add: spec_of_def)
  have fits: "fits (mt_data (mt_insert (Key [1]) (Value [3]) (lt_memtable ?t0)))" by (simp add: s0(5) sample_fits)
  have size: "memtable_size (lt_config ?t0) = 0" by (simp add: s0(6))
  obtain t g where t: "tree_insert sample_codecs (Key [1]) (Value [3]) ?t0 = (Inr (), t)"
      "tree_map t = (tree_map ?t0)(Key [1] \<mapsto> Some (Value [3]))"
      "tree_levels t = (hd (tree_levels ?t0) @ [g]) # tl (tree_levels ?t0)" "lt_memtable t = mt_new (lt_sequence ?t0)"
      "same_runs sample_codecs (st_world (lt_store ?t0)) (st_world (lt_store t)) (mset (concat (tree_levels ?t0)) + ?M)"
    by (rule insert_and_flush [OF t0 sample_codecs_total fits size])
  have ls: "tree_levels t = [g] # option_handles out # replicate 5 []" using t(3) by (simp add: s0(2))
  let ?s = "s0\<lparr>sy_tree := t\<rparr>"
  have "sys_step sample_codecs s0 (Insert (Key [1]) (Value [3])) ?s" using t(1) s0(4) by (intro sys_step.insert)
  moreover have "step_fine s0 (Insert (Key [1]) (Value [3]))" using fits by (simp add: step_fine_def step_fits_def)
  ultimately have "reachable step_fine sample_codecs (start_system eager_tree)
      ([Insert (Key [1]) (Value [2]), TakeSnapshot, BgWake, BgMerge, BgCommit] @ [Insert (Key [1]) (Value [3])]) ?s"
    by (intro reachable.step [OF s0(1)])
  then have reach: "reachable step_fine sample_codecs (start_system eager_tree) sample_trace ?s" by (simp add: sample_trace_def)
  from reachable_ok [OF reach eager_invar sample_codecs_total]
  have ok: "tree_ok sample_codecs t ?M" and spec: "spec_of ?s = ([Key [1] \<mapsto> Value [3]], [[Key [1] \<mapsto> Value [2]]])"
    by (simp_all add: sys_invar_def Let_def eager_spec sample_trace_spec)
  obtain sn where sn: "sy_snapshots s0 = [sn]" "sn_levels sn = [h] # replicate 6 []" "mt_get (sn_memtable sn) = Map.empty"
    using s0(3) by blast
  have "live (run_map (tree_disk t) h) (Key [1]) = Some (Value [2])"
    using spec by (simp add: spec_of_def snapshot_map_def sn none)
  then have "run_map (tree_disk t) h (Key [1]) \<noteq> Some None" by (auto simp: live_def)
  then have shared: "no_tombstone (tree_disk t) (sn_levels sn) (Key [1])" by (simp add: no_tombstone_def sn(2))
  have old: "run_map (tree_disk t) a (Key [1]) = Some (Some (Value [2]))" if "out = Some a" for a
  proof -
    have "live (run_map (tree_disk ?t0) a) (Key [1]) = Some (Value [2])"
      using view0 tree_map_store [OF t0] that s0(2,5) none
      by (simp add: tree_view_def store_map_def tree_levels_def tree_disk_def option_handles_def)
    moreover have "run_map (tree_disk t) a = run_map (tree_disk ?t0) a"
      by (rule kept_run_map [OF t0 t(5)]) (simp_all add: s0(2) that option_handles_def)
    ultimately show ?thesis by (auto simp: live_def split: option.splits)
  qed
  have "store_map (lt_store t) (Key [1]) = Some (Some (Value [3]))"
    using t(2,4) tree_map_store [OF ok] by simp
  then have "run_map (tree_disk t) g (Key [1]) \<noteq> Some None"
    using ls none by (auto simp: store_map_def tree_levels_def tree_disk_def map_add_def split: option.splits)
  then have "no_tombstone (tree_disk t) (tree_levels t) (Key [1])"
    using old by (cases out) (simp_all add: no_tombstone_def ls option_handles_def)
  moreover have "\<exists>q. lt_memtable t = mt_new q" using t(4) by blast
  ultimately show thesis using reach shared sn by (intro that [of ?s sn]) (simp_all add: ls)
qed

end
