(* ===== verification/TreeProperties.thy ===== *)
theory TreeProperties
  imports TreeSamples
begin

text \<open>
  Properties of the tree as a whole: the refinement of the abstract map by every interleaving
  of the writer and the compaction thread, the queries, the snapshots, and what a flush does
  to a deletion.
\<close>

section \<open>The system\<close>

text \<open>
  C1. Interleavings of the writer (insertions and deletions, alone and in batches, with the
  flushes they trigger, in-memory snapshots, rollbacks, \<open>compact\<close>, \<open>compact_all\<close>) with the three
  phases of background compaction refine the abstract machine whose state is one map and the
  maps of the snapshots, under the conditions of \<open>step_fine\<close> on each step: (1) the next memtable
  fits the run format, and the runs a compaction merges are \<open>mergeable\<close>; (2) the user compacts
  only while the thread is idle; (3) no compaction into the bottom level, by the user or by the
  thread, comes out empty while that level holds a run; (4) \<open>compact_all\<close> is called only when
  the run numbers follow the age of the runs (\<open>age_ordered\<close>). At any moment a range query then
  enumerates, in key order and without duplicates, exactly the bindings of the abstract map
  between its bounds. Without (2), (3) or (4) the code does not do so: see C7, C13 and C12.
\<close>

theorem range_refines_map:
  assumes "reachable step_fine x s0 es s" and "sys_invar x s0" and "codecs_total x"
  shows "sorted_wrt (<) (map fst (ri_entries (tree_range (sy_tree s) lo hi)))
    \<and> (\<forall>k v. (k, v) \<in> set (ri_entries (tree_range (sy_tree s) lo hi)) \<longleftrightarrow>
          lo \<le> k \<and> k \<le> hi \<and> fst (fold spec_step es (spec_of s0)) k = Some v)"
proof -
  from reachable_ok [OF assms] have inv: "sys_invar x s"
    and spec: "spec_of s = fold spec_step es (spec_of s0)" by simp_all
  from inv have t: "tree_ok x (sy_tree s) (others (sy_bg s) (sy_snapshots s))"
    by (simp add: sys_invar_def Let_def)
  have view: "tree_view (sy_tree s) = fst (fold spec_step es (spec_of s0))"
    using spec by (metis fst_conv spec_of_def)
  show ?thesis using tree_range_entries [OF t] by (simp add: view)
qed

text \<open>Two flushes, a snapshot and a round: the query sees the new value and not the old one.\<close>

theorem range_refines_map_witness:
  "\<exists>s. reachable step_fine sample_codecs (start_system eager_tree) sample_trace s \<and> concat (tree_levels (sy_tree s)) \<noteq> []
    \<and> (Key [1], Value [3]) \<in> set (ri_entries (tree_range (sy_tree s) (Key []) (Key [9])))
    \<and> (Key [1], Value [2]) \<notin> set (ri_entries (tree_range (sy_tree s) (Key []) (Key [9])))"
proof -
  obtain s sn where s: "reachable step_fine sample_codecs (start_system eager_tree) sample_trace s"
      "concat (tree_levels (sy_tree s)) \<noteq> []"
    by (rule sample_run)
  from range_refines_map [OF s(1) eager_invar sample_codecs_total, of "Key []" "Key [9]"]
  have "(Key [1], Value [3]) \<in> set (ri_entries (tree_range (sy_tree s) (Key []) (Key [9])))"
      "(Key [1], Value [2]) \<notin> set (ri_entries (tree_range (sy_tree s) (Key []) (Key [9])))"
    by (simp_all add: eager_spec sample_trace_spec)
  with s show ?thesis by blast
qed

text \<open>
  C2. Point lookups and in-memory snapshots under the same interleavings and conditions as C1
  (capacity, user compactions only while the thread is idle, no compaction that empties the
  bottom level, \<open>compact_all\<close> only when the run numbers follow age): a lookup in the tree gives
  the abstract map's value, and a lookup in a held snapshot the value of the map at the time it
  was taken, for every key of which no run of the tree and of the snapshots holds a tombstone
  (C3 shows what a tombstone in a run does).
\<close>

theorem get_and_snapshots_refine:
  assumes "reachable step_fine x s0 es s" and "sys_invar x s0" and "codecs_total x"
    and "no_tombstone (tree_disk (sy_tree s)) (tree_levels (sy_tree s)) k"
    and "\<forall>sn \<in> set (sy_snapshots s). no_tombstone (tree_disk (sy_tree s)) (sn_levels sn) k"
  shows "tree_get x (sy_tree s) k = Inr (fst (fold spec_step es (spec_of s0)) k)
    \<and> map (\<lambda>sn. snapshot_get x (tree_disk (sy_tree s)) sn k) (sy_snapshots s)
        = map (\<lambda>m. Inr (m k)) (snd (fold spec_step es (spec_of s0)))"
proof -
  let ?t = "sy_tree s"
  from reachable_ok [OF assms(1-3)] have inv: "sys_invar x s"
    and spec: "spec_of s = fold spec_step es (spec_of s0)" by simp_all
  from inv have t: "tree_ok x ?t (others (sy_bg s) (sy_snapshots s))"
    and ord: "levels_ordered (tree_levels ?t)" and sns: "\<forall>sn \<in> set (sy_snapshots s). snapshot_ok ?t sn"
    by (simp_all add: sys_invar_def Let_def)
  have get: "tree_get x ?t k = Inr (fst (spec_of s) k)"
    using tree_get_view [OF t ord] assms(4) by (simp add: spec_of_def)
  have "snapshot_get x (tree_disk ?t) sn k = Inr (live (snapshot_map (tree_disk ?t) sn) k)"
    if sn: "sn \<in> set (sy_snapshots s)" for sn
  proof -
    have "set (concat (sn_levels sn)) \<subseteq> set_mset (mset (concat (tree_levels ?t)) + others (sy_bg s) (sy_snapshots s))"
      using snapshot_handles_in [OF sn] by (auto simp: others_def)
    then have "present x (tree_disk ?t) (concat (sn_levels sn))"
      using present_runs_ok [OF tree_runs_ok [OF t]] by (simp add: tree_disk_def)
    moreover have "levels_ordered (sn_levels sn)" "sn_immutables sn = []"
      using sns sn by (auto simp: snapshot_ok_def)
    ultimately show ?thesis
      using search_levels_view [of x "tree_disk ?t" "sn_levels sn" k] assms(5) sn
      by (auto simp: snapshot_get_def snapshot_map_def live_map_add split: option.split)
  qed
  then show ?thesis using get by (simp add: spec [symmetric]) (simp add: spec_of_def)
qed

text \<open>The same trace: the tree has the new value in a run above the old one, the snapshot the old value.\<close>

theorem get_and_snapshots_refine_witness:
  "\<exists>s sn. reachable step_fine sample_codecs (start_system eager_tree) sample_trace s \<and> sy_snapshots s = [sn]
    \<and> concat (tree_levels (sy_tree s)) \<noteq> [] \<and> concat (sn_levels sn) \<noteq> []
    \<and> tree_get sample_codecs (sy_tree s) (Key [1]) = Inr (Some (Value [3]))
    \<and> snapshot_get sample_codecs (tree_disk (sy_tree s)) sn (Key [1]) = Inr (Some (Value [2]))"
proof -
  obtain s sn where s: "reachable step_fine sample_codecs (start_system eager_tree) sample_trace s"
      "sy_snapshots s = [sn]" "concat (tree_levels (sy_tree s)) \<noteq> []" "concat (sn_levels sn) \<noteq> []"
      "no_tombstone (tree_disk (sy_tree s)) (tree_levels (sy_tree s)) (Key [1])"
      "no_tombstone (tree_disk (sy_tree s)) (sn_levels sn) (Key [1])"
    by (rule sample_run)
  then have "\<forall>sn \<in> set (sy_snapshots s). no_tombstone (tree_disk (sy_tree s)) (sn_levels sn) (Key [1])" by simp
  from get_and_snapshots_refine [OF s(1) eager_invar sample_codecs_total s(5) this]
  have "tree_get sample_codecs (sy_tree s) (Key [1]) = Inr (Some (Value [3]))"
      "snapshot_get sample_codecs (tree_disk (sy_tree s)) sn (Key [1]) = Inr (Some (Value [2]))"
    by (simp_all add: eager_spec sample_trace_spec s(2))
  with s show ?thesis by blast
qed

text \<open>
  C5. Every state that is reached by steps within the capacity of the formats (\<open>step_fits\<close>: the
  memtables fit, the merged runs are \<open>mergeable\<close>), with the user's compactions only while the
  thread is idle, is well formed. There are \<open>max_level + 1\<close> levels, the last of at
  most one run, each in the order of its run numbers; the memtable is in key order and its byte
  counter exact; no immutable memtable is left over. Every handle that the levels, the snapshots
  and the thread hold has a number below the next one, the file names of its number, all its
  files on the disk and at least one entry, and its counter is the number of handles that
  share it.
\<close>

theorem reachable_well_formed:
  assumes "reachable step_fits x s0 es s" and "sys_invar x s0" and "codecs_total x"
  shows "length (tree_levels (sy_tree s)) = Suc (lt_max_level (sy_tree s)) \<and> length (last (tree_levels (sy_tree s))) \<le> 1
    \<and> (\<forall>l \<in> set (tree_levels (sy_tree s)). sorted (map h_run_number l))
    \<and> lt_immutables (sy_tree s) = [] \<and> sorted_wrt (<) (map fst (mt_data (lt_memtable (sy_tree s))))
    \<and> mt_size_bytes (lt_memtable (sy_tree s)) = of_nat (mt_bytes (mt_data (lt_memtable (sy_tree s))))
    \<and> (\<forall>h \<in># mset (concat (tree_levels (sy_tree s))) + others (sy_bg s) (sy_snapshots s).
         h_run_number h < st_next_run (lt_store (sy_tree s))
         \<and> h_paths h = run_paths_new (lt_active_dir (sy_tree s)) (h_run_number h)
         \<and> (\<forall>p \<in> files_of h. path_exists (tree_disk (sy_tree s)) p) \<and> entries_of (tree_disk (sy_tree s)) h \<noteq> []
         \<and> w_refs (st_world (lt_store (sy_tree s))) (h_arc h) =
              sharing (h_arc h) (mset (concat (tree_levels (sy_tree s))) + others (sy_bg s) (sy_snapshots s)))"
proof -
  let ?t = "sy_tree s" and ?N = "mset (concat (tree_levels (sy_tree s))) + others (sy_bg s) (sy_snapshots s)"
  from reachable_invar [OF assms] have inv: "sys_invar x s" .
  then have t: "tree_ok x ?t (others (sy_bg s) (sy_snapshots s))" and ord: "levels_ordered (tree_levels ?t)"
    by (simp_all add: sys_invar_def Let_def)
  have levels: "length (tree_levels ?t) = Suc (lt_max_level ?t)" "length (tree_levels ?t ! lt_max_level ?t) \<le> 1"
    and mem: "lt_immutables ?t = []" "bt_wf (mt_data (lt_memtable ?t))"
      "mt_size_bytes (lt_memtable ?t) = of_nat (mt_bytes (mt_data (lt_memtable ?t)))"
    using t by (simp_all add: tree_ok_def store_ok_def tree_levels_def mt_ok_def)
  then have "length (last (tree_levels ?t)) \<le> 1" by (cases "tree_levels ?t" rule: rev_cases) (auto simp: nth_append)
  moreover have "h_run_number h < st_next_run (lt_store ?t)
      \<and> h_paths h = run_paths_new (lt_active_dir ?t) (h_run_number h)
      \<and> (\<forall>p \<in> files_of h. path_exists (tree_disk ?t) p) \<and> entries_of (tree_disk ?t) h \<noteq> []
      \<and> w_refs (st_world (lt_store ?t)) (h_arc h) = sharing (h_arc h) ?N" if "h \<in># ?N" for h
  proof -
    have r: "runs_ok x (lt_active_dir ?t) (st_next_run (lt_store ?t)) (st_world (lt_store ?t)) ?N" by (rule tree_runs_ok [OF t])
    then have own: "w_refs (st_world (lt_store ?t)) (h_arc h) = sharing (h_arc h) ?N"
      using that by (simp add: runs_ok_def owned_def del: union_iff set_mset_union)
    have h: "h_paths h = run_paths_new (lt_active_dir ?t) (h_run_number h)" "h_run_number h < st_next_run (lt_store ?t)"
        "\<exists>es. run_ok x (tree_disk ?t) h es"
      using r that by (simp_all add: runs_ok_def tree_disk_def del: union_iff set_mset_union)
    obtain es where es: "run_ok x (tree_disk ?t) h es" using h(3) by blast
    then have "entries_of (tree_disk ?t) h \<noteq> []" by (simp add: entries_of_run) (simp add: run_ok_def table_ok_def)
    moreover have "\<forall>p \<in> files_of h. path_exists (tree_disk ?t) p"
      using es by (auto simp: run_ok_def stored_run_def files_of_def run_files_def path_exists_contents)
    ultimately show ?thesis using h(1,2) own by (intro conjI)
  qed
  ultimately show ?thesis using levels(1) mem ord by (simp add: bt_wf_def levels_ordered_def)
qed

theorem reachable_well_formed_witness:
  "length (tree_levels one_key_tree) = 7 \<and> mt_size_bytes (lt_memtable one_key_tree) = of_nat (mt_bytes (mt_data (lt_memtable one_key_tree)))"
proof -
  have "lt_max_level one_key_tree = 6" by (simp add: one_key_tree_def sample_tree_def)
  then show ?thesis
    using reachable_well_formed [OF one_key_reachable sample_invar sample_codecs_total]
    by (simp add: start_system_def)
qed

text \<open>
  C4. No call of the writer fails in a state reached by steps within capacity, with the user's
  compactions while the thread is idle (\<open>step_fits\<close>), whether or not the steps refine the
  abstract map: an insertion, a deletion and batches of them return \<open>Ok\<close>, including the flush
  they may trigger, if the memtable with the new entries fits the run format; \<open>compact\<close> if the
  runs of the level it picks and of the next one are mergeable; \<open>compact_all\<close> if all runs
  together are, in whatever order their numbers are; a rollback to any held snapshot always.
\<close>

theorem writer_operations_succeed:
  assumes reach: "reachable step_fits x s0 es s" and inv0: "sys_invar x s0" and total: "codecs_total x"
  shows "(fits (mt_data (mt_insert k v (lt_memtable (sy_tree s)))) \<longrightarrow> fst (tree_insert x k v (sy_tree s)) = Inr ())
    \<and> (fits (mt_data (mt_delete k (lt_memtable (sy_tree s)))) \<longrightarrow> fst (tree_delete x k (sy_tree s)) = Inr ())
    \<and> (fits (mt_data (fold (\<lambda>(k, v). mt_insert k v) kvs (lt_memtable (sy_tree s)))) \<longrightarrow>
        fst (insert_batch x kvs (sy_tree s)) = Inr ())
    \<and> (fits (mt_data (fold mt_delete ks (lt_memtable (sy_tree s)))) \<longrightarrow> fst (delete_batch x ks (sy_tree s)) = Inr ())
    \<and> (round_fits (sy_tree s) \<longrightarrow> fst (tree_compact x (sy_tree s)) = Inr ())
    \<and> (mergeable (tree_disk (sy_tree s)) (concat (tree_levels (sy_tree s))) \<longrightarrow> fst (compact_all x (sy_tree s)) = Inr ())
    \<and> (\<forall>i < length (sy_snapshots s). fst (tree_rollback (sy_snapshots s ! i) (sy_tree s)) = Inr ())"
proof -
  from reachable_invar [OF assms] have inv: "sys_invar x s" .
  then have t: "tree_ok x (sy_tree s) (others (sy_bg s) (sy_snapshots s))" by (simp add: sys_invar_def Let_def)
  note run = prod.collapse [symmetric]
  have "fst (tree_compact x (sy_tree s)) = Inr ()" if "round_fits (sy_tree s)"
    by (rule tree_compact_ok [OF t total that]) simp
  moreover have "fst (compact_all x (sy_tree s)) = Inr ()"
    if "mergeable (tree_disk (sy_tree s)) (concat (tree_levels (sy_tree s)))"
    by (rule compact_all_ok [OF t total that]) simp
  moreover have "fst (tree_rollback (sy_snapshots s ! i) (sy_tree s)) = Inr ()" if "i < length (sy_snapshots s)" for i
    by (rule rollback_step(1) [OF inv that run])
  ultimately show ?thesis
    using insert_step(1) [OF inv total _ run] delete_step(1) [OF inv total _ run]
      batch_step(1) [OF inv total _ run] delete_batch_step(1) [OF inv total _ run]
    by (simp add: step_fits_def)
qed

text \<open>After two flushes, a snapshot and a round, another insertion, and a rollback.\<close>

theorem writer_operations_succeed_witness:
  "\<exists>s. reachable step_fits sample_codecs (start_system eager_tree) sample_trace s
    \<and> fst (tree_insert sample_codecs (Key [1]) (Value [4]) (sy_tree s)) = Inr ()
    \<and> fst (tree_rollback (sy_snapshots s ! 0) (sy_tree s)) = Inr ()"
proof -
  obtain s sn where s: "reachable step_fine sample_codecs (start_system eager_tree) sample_trace s" "sy_snapshots s = [sn]"
      "\<exists>q. lt_memtable (sy_tree s) = mt_new q"
    by (rule sample_run)
  have reach: "reachable step_fits sample_codecs (start_system eager_tree) sample_trace s"
    by (rule reachable_mono [OF s(1)]) (rule step_fine_fits)
  have "fits (mt_data (mt_insert (Key [1]) (Value [4]) (lt_memtable (sy_tree s))))" using s(3) by (auto simp: sample_fits)
  with writer_operations_succeed [OF reach eager_invar sample_codecs_total, of "Key [1]" "Value [4]"] reach s(2)
  show ?thesis by auto
qed

section \<open>A deletion that was flushed\<close>

text \<open>
  C3. A deletion stops working once it is flushed: \<open>get\<close> answers \<open>None\<close> for a key whose
  tombstone is in the memtable, but when the memtable becomes a run, \<open>SsTableHandle::get\<close> gives
  \<open>None\<close> for the tombstone, the search takes that for "not here" and goes on, and returns the
  older value. A range query still omits the key.
\<close>

theorem flush_resurfaces:
  assumes t: "tree_ok x t M" and total: "codecs_total x" and ord: "levels_ordered (tree_levels t)"
    and fits: "fits (mt_data (lt_memtable t))" and del: "mt_get (lt_memtable t) k = Some None"
    and tomb: "no_tombstone (tree_disk t) (tree_levels t) k"
    and old: "live (store_map (lt_store t)) k = Some v"
  shows "tree_get x t k = Inr None
    \<and> (\<exists>t'. flush_memtable x t = (Inr (), t') \<and> tree_get x t' k = Inr (Some v)
          \<and> tree_view t' k = None)"
proof -
  obtain t' where f: "flush_memtable x t = (Inr (), t')" "flushed x t t' M"
      "lt_memtable t' = mt_new (lt_sequence t)"
    by (rule flush_ok [OF t total fits])
  have t': "tree_ok x t' M" and map: "tree_map t' = tree_map t"
    and same: "same_runs x (st_world (lt_store t)) (st_world (lt_store t')) (mset (concat (tree_levels t)) + M)"
    using f(2) by (auto simp: flushed_def)
  obtain extra where ls: "tree_levels t' = (hd (tree_levels t) @ extra) # tl (tree_levels t)"
      "\<forall>h \<in> set extra. st_next_run (lt_store t) \<le> h_run_number h" "length extra \<le> 1"
    using f(2) by (auto simp: flushed_def)
  obtain l0 lr where lt: "tree_levels t = l0 # lr"
    using t by (cases "tree_levels t") (auto simp: tree_ok_def store_ok_def tree_levels_def)
  have kept: "run_map (tree_disk t') h = run_map (tree_disk t) h" if "h \<in> set (concat (tree_levels t))" for h
    using that by (intro kept_run_map [OF t same]) auto
  have below: "\<forall>a \<in> set l0. \<forall>b \<in> set extra. h_run_number a \<le> h_run_number b"
  proof (intro ballI)
    fix a b
    assume "a \<in> set l0" "b \<in> set extra"
    moreover from this(1) have "h_run_number a < st_next_run (lt_store t)"
      using tree_runs_ok [OF t] lt by (auto simp: runs_ok_def)
    ultimately show "h_run_number a \<le> h_run_number b" using ls(2) by force
  qed
  have gone: "tree_map t k = Some None"
    using del t by (simp add: tree_map_def memtables_map_def tree_ok_def)
  have store': "store_map (lt_store t') k = Some None"
    using tree_map_store [OF t'] gone map f(3) by simp
  have eq: "levels_map (tree_disk t') (tree_levels t') =
      levels_map (tree_disk t) (tree_levels t) ++ level_map (tree_disk t') extra"
  proof -
    have "level_map (tree_disk t') l0 = level_map (tree_disk t) l0"
      "levels_map (tree_disk t') lr = levels_map (tree_disk t) lr"
      using kept by (auto simp: lt intro!: level_map_cong levels_map_cong)
    then show ?thesis using ls(1) lt level_map_append [OF below, of "tree_disk t'"] by simp
  qed
  have "store_map (lt_store t) k = Some (Some v)"
    using old by (simp add: live_def)
  then obtain h where h: "extra = [h]" "run_map (tree_disk t') h k = Some None"
    using store' eq ls(3)
    by (cases extra) (auto simp: store_map_def tree_disk_def tree_levels_def map_add_def split: option.splits)
  have p: "present x (tree_disk t) (concat (tree_levels t))" "present x (tree_disk t') (concat (tree_levels t'))"
    using tree_runs_present [OF t] tree_runs_present [OF t'] by simp_all
  have runs: "map (run_map (tree_disk t')) (concat (map rev (tree_levels t'))) =
      run_map (tree_disk t') h # map (run_map (tree_disk t)) (concat (map rev (tree_levels t)))"
    using kept by (auto simp: ls(1) lt h(1))
  have "search_levels x (tree_disk t') (tree_levels t') k = search_levels x (tree_disk t) (tree_levels t) k"
    by (simp add: search_levels_eq [OF p(1)] search_levels_eq [OF p(2)] runs h(2) del: map_map)
  also have "\<dots> = Inr (Some v)"
    using search_levels_view [OF p(1) ord tomb] old
    by (simp add: store_map_def tree_disk_def tree_levels_def)
  finally have "tree_get x t' k = Inr (Some v)"
    using t' f(3) by (simp add: tree_get_def tree_ok_def)
  moreover have "tree_view t' k = None" using gone map by (simp add: tree_view_def live_def)
  moreover have "tree_get x t k = Inr None" using del by (simp add: tree_get_def)
  ultimately show ?thesis using f(1) by blast
qed

definition old_value_table :: "(key \<times> lsm_value option) list" where
  "old_value_table = [(Key [1], Some (Value [7]))]"

definition deleted_tree :: lsm_tree where
  "deleted_tree = (tables_tree [old_value_table] (\<lambda>hs. hs # replicate 6 []))
     \<lparr>lt_memtable := mt_delete (Key [1]) (mt_new 0)\<rparr>"

lemma old_value_fine: "table_fine old_value_table"
  by (simp add: table_fine_def old_value_table_def fits_def key_size_def opt_bytes_def)

lemma deleted_tree_props:
  "tree_ok sample_codecs deleted_tree {#}"
  "levels_ordered (tree_levels deleted_tree)"
  "no_tombstone (tree_disk deleted_tree) (tree_levels deleted_tree) (Key [1])"
  "live (store_map (lt_store deleted_tree)) (Key [1]) = Some (Value [7])"
proof -
  let ?place = "\<lambda>hs :: sst_handle list. hs # replicate 6 []"
  let ?t = "tables_tree [old_value_table] ?place"
  have place: "mset (concat (?place hs)) = mset hs \<and> length (?place hs) = 7 \<and> length (?place hs ! 6) \<le> 1" for hs
    by (simp add: nth_Cons')
  have fine: "\<forall>es \<in> set [old_value_table]. table_fine es" by (simp add: old_value_fine)
  obtain hs where ok: "tree_ok sample_codecs ?t {#}" "tree_levels ?t = ?place hs"
      "list_all2 (run_ok sample_codecs (tree_disk ?t)) hs [old_value_table]"
    by (rule tables_tree_ok [OF fine place])
  then obtain h where h: "hs = [h]" "run_ok sample_codecs (tree_disk ?t) h old_value_table"
    by (auto simp: list_all2_Cons2)
  have map: "run_map (tree_disk ?t) h = [Key [1] \<mapsto> Some (Value [7])]"
    unfolding run_map_def entries_of_run [OF h(2)] by (simp add: old_value_table_def bt_get_eq)
  have same: "tree_levels deleted_tree = tree_levels ?t" "tree_disk deleted_tree = tree_disk ?t"
      "lt_store deleted_tree = lt_store ?t"
    by (simp_all add: deleted_tree_def tree_levels_def tree_disk_def)
  show "tree_ok sample_codecs deleted_tree {#}" using ok(1) by (simp add: deleted_tree_def tree_ok_def)
  show "levels_ordered (tree_levels deleted_tree)" by (simp add: same ok(2) h(1) levels_ordered_def)
  show "no_tombstone (tree_disk deleted_tree) (tree_levels deleted_tree) (Key [1])"
    by (simp add: no_tombstone_def same ok(2) h(1) map)
  have "levels_map d (replicate n []) = Map.empty" for d n by (induction n) simp_all
  then show "live (store_map (lt_store deleted_tree)) (Key [1]) = Some (Value [7])"
    using ok(2) h(1) map by (simp add: store_map_def same tree_levels_def tree_disk_def live_def)
qed

theorem flush_resurfaces_witness:
  "tree_get sample_codecs deleted_tree (Key [1]) = Inr None
   \<and> (\<exists>t'. flush_memtable sample_codecs deleted_tree = (Inr (), t')
         \<and> tree_get sample_codecs t' (Key [1]) = Inr (Some (Value [7])))"
proof -
  have "fits (mt_data (lt_memtable deleted_tree))"
    by (simp add: deleted_tree_def mt_delete_def mt_new_def fits_def Let_def key_size_def opt_bytes_def)
  moreover have "mt_get (lt_memtable deleted_tree) (Key [1]) = Some None"
    by (simp add: deleted_tree_def)
  ultimately show ?thesis
    using flush_resurfaces [OF deleted_tree_props(1) sample_codecs_total deleted_tree_props(2) _ _
        deleted_tree_props(3,4)] by blast
qed

end
