(* ===== verification/Backpressure.thy ===== *)
theory Backpressure
  imports TreeProperties
begin

text \<open>
  The back-pressure of a flush. A writer that has filled L0 beyond four times the trigger waits
  until the compaction thread has brought it down to twice the trigger. The flush wakes the
  thread once; whether the one round that follows ends the wait depends on the level it picks.
\<close>

section \<open>A waiting writer\<close>

text \<open>The writer waits, and nothing will wake the thread.\<close>

definition stuck :: "system \<Rightarrow> bool" where
  "stuck s \<longleftrightarrow> sy_bg s = BgIdle \<and> lt_waiting (sy_tree s) \<and> \<not> lt_should_run (sy_tree s) \<and> \<not> l0_drained (sy_tree s)"

lemma stuck_step:
  assumes "sys_step x s e s'" and "stuck s"
  shows "e \<in> range DropSnapshot \<and> stuck s'"
  using assms(1)
proof (cases rule: sys_step.cases)
  case (drop i)
  then show ?thesis
    using assms(2) by (simp add: stuck_def drop_snapshot_def l0_drained_def tree_levels_def)
qed (use assms(2) in \<open>simp_all add: stuck_def\<close>)

lemma stuck_steps: "sys_steps x s es s' \<Longrightarrow> stuck s \<Longrightarrow> set es \<subseteq> range DropSnapshot \<and> stuck s'"
proof (induction rule: sys_steps.induct)
  case (more s e s1 es s2)
  with stuck_step [OF more.hyps(1)] show ?case by simp
qed simp

section \<open>The round after the flush\<close>

text \<open>
  C6. When a flush makes the writer wait for L0 to drain, the thread is woken once and runs one
  round. If L0 is above its target size, or no deeper level that can be picked is, the round
  takes all of L0 and the wait ends. Otherwise the round picks a deeper level, L0 stays as it
  is and nothing wakes the thread again: the writer waits for ever, whatever happens then.
\<close>

theorem backpressure_wait:
  assumes inv: "sys_invar x s" and total: "codecs_total x" and idle: "sy_bg s = BgIdle"
    and signal: "lt_should_run (sy_tree s)" "\<not> lt_shutdown (sy_tree s)"
    and wait: "lt_waiting (sy_tree s)" "\<not> l0_drained (sy_tree s)"
    and size: "\<forall>job. pick_job (tree_levels (sy_tree s)) (lt_max_level (sy_tree s)) (level0_compaction_trigger (lt_config (sy_tree s)))
        = Inr (Some job) \<longrightarrow>
      mergeable (tree_disk (sy_tree s)) (tree_levels (sy_tree s) ! lj_source_level job @ lj_target_level_runs job)"
  shows "\<exists>s'. sys_steps x s [BgWake, BgMerge, BgCommit] s'
    \<and> (l0_first (tree_levels (sy_tree s)) (lt_max_level (sy_tree s)) \<longrightarrow>
        (\<exists>s''. sys_step x s' WaitDone s'' \<and> \<not> lt_waiting (sy_tree s'')))
    \<and> (\<not> l0_first (tree_levels (sy_tree s)) (lt_max_level (sy_tree s)) \<longrightarrow>
        (\<forall>es s''. sys_steps x s' es s'' \<longrightarrow> lt_waiting (sy_tree s'') \<and> set es \<subseteq> range DropSnapshot))"
proof -
  let ?t = "sy_tree s" and ?trigger = "level0_compaction_trigger (lt_config (sy_tree s))"
  have len: "length (tree_levels ?t) = Suc (lt_max_level ?t)" "1 \<le> lt_max_level ?t"
    using inv by (simp_all add: sys_invar_def Let_def tree_ok_def store_ok_def tree_levels_def)
  have l0: "?trigger \<le> l0_len (tree_levels ?t)" "0 < l0_len (tree_levels ?t)"
    using wait(2) by (simp_all add: l0_drained_def)
  obtain job where job: "pick_job (tree_levels ?t) (lt_max_level ?t) ?trigger = Inr (Some job)"
      "lj_source_level job = 0 \<longleftrightarrow> l0_first (tree_levels ?t) (lt_max_level ?t)"
    by (rule pick_job_source [OF len l0])
  have merge: "mergeable (tree_disk ?t) (tree_levels ?t ! lj_source_level job @ lj_target_level_runs job)"
    using size job(1) by blast
  obtain s' where s': "sys_steps x s [BgWake, BgMerge, BgCommit] s'" "sy_bg s' = BgIdle"
      "lt_waiting (sy_tree s') = lt_waiting ?t" "\<not> lt_should_run (sy_tree s')" "lt_config (sy_tree s') = lt_config ?t"
      "l0_len (tree_levels (sy_tree s')) = (if lj_source_level job = 0 then 0 else l0_len (tree_levels ?t))"
    by (rule wake_and_round [OF inv total idle signal l0(1) job(1) merge])
  show ?thesis
  proof (rule exI [of _ s'], intro conjI impI s'(1))
    assume "l0_first (tree_levels ?t) (lt_max_level ?t)"
    then have "l0_drained (sy_tree s')" using s'(6) job(2) by (simp add: l0_drained_def)
    then have "sys_step x s' WaitDone (s'\<lparr>sy_tree := (sy_tree s')\<lparr>lt_waiting := False\<rparr>\<rparr>)"
      using s'(3) wait(1) by (intro sys_step.wait_done) simp_all
    then show "\<exists>s''. sys_step x s' WaitDone s'' \<and> \<not> lt_waiting (sy_tree s'')" by force
  next
    assume "\<not> l0_first (tree_levels ?t) (lt_max_level ?t)"
    then have "stuck s'" using s' wait job(2) by (simp add: stuck_def l0_drained_def)
    then show "\<forall>es s''. sys_steps x s' es s'' \<longrightarrow> lt_waiting (sy_tree s'') \<and> set es \<subseteq> range DropSnapshot"
      using stuck_steps by (auto simp: stuck_def)
  qed
qed

section \<open>A writer that waits for ever\<close>

text \<open>A table with a given number of entries and no bytes of values.\<close>

definition long_table :: "nat \<Rightarrow> (key \<times> lsm_value option) list" where
  "long_table n = map (\<lambda>i. (Key (replicate i 0), Some (Value []))) [0..<n]"

lemma replicate_less: "i < j \<Longrightarrow> replicate i (b :: byte) < replicate j b"
proof (induction i arbitrary: j)
  case 0
  then show ?case by (cases j) simp_all
next
  case (Suc i)
  then show ?case by (cases j) simp_all
qed

lemma replicate_le: "0 < m \<Longrightarrow> replicate i (0 :: byte) \<le> replicate m 0xFF"
  by (cases i; cases m) simp_all

lemma replicate_scannable: "scannable (Key (replicate i 0))"
  unfolding scannable_def max_scan_key_def Key_le by (rule replicate_le) simp

lemma enc_blobs_empty: "\<forall>(k, v) \<in> set es. v = Some (Value []) \<Longrightarrow> enc_blobs es = []"
  by (induction es rule: enc_blobs.induct) (auto simp: opt_bytes_def)

lemma long_table_blobs: "enc_blobs (long_table n) = []"
  by (rule enc_blobs_empty) (auto simp: long_table_def)

lemma length_long_table [simp]: "length (long_table n) = n"
  by (simp add: long_table_def)

lemma long_table_fine:
  assumes "0 < n" and "n < 2 ^ 32"
  shows "table_fine (long_table n)"
proof -
  have "bt_wf (long_table n)"
    by (simp add: bt_wf_def long_table_def sorted_wrt_map sorted_wrt_upt less_key_def replicate_less
        sorted_wrt_mono_rel [OF _ sorted_wrt_upt])
  moreover have "fits (long_table n)"
    using assms(2) by (auto simp: fits_def long_table_blobs) (auto simp: long_table_def key_size_def)
  moreover have "long_table n \<noteq> []" using assms(1) by (simp add: long_table_def)
  ultimately show ?thesis by (simp add: table_fine_def)
qed

definition jam_levels :: "sst_handle list \<Rightarrow> sst_handle list list" where
  "jam_levels hs = [take 5 hs, drop 5 hs, [], [], [], [], []]"

definition jammed_tree :: lsm_tree where
  "jammed_tree = tables_tree (replicate 5 table_7 @ [long_table 40001]) jam_levels\<lparr>lt_waiting := True, lt_should_run := True\<rparr>"

lemma small_runs_mergeable:
  assumes "\<forall>h \<in> set hs. run_bytes d h \<le> 1 \<and> (\<forall>(k, v) \<in> set (entries_of d h). scannable k)" and "length hs < 2 ^ 64"
  shows "mergeable d hs"
proof -
  have "sum_list (map (run_bytes d) hs) \<le> length hs" using assms(1) by (induction hs) auto
  then show ?thesis using assms by (auto simp: mergeable_def)
qed

text \<open>Five runs of one entry in L0, with a trigger of one, above a run of 40001 entries in L1.\<close>

theorem backpressure_wait_witness:
  "\<exists>s s'. sys_invar sample_codecs s \<and> sys_steps sample_codecs s [BgWake, BgMerge, BgCommit] s'
     \<and> (\<forall>es s''. sys_steps sample_codecs s' es s'' \<longrightarrow> lt_waiting (sy_tree s''))"
proof -
  let ?ess = "replicate 5 table_7 @ [long_table 40001]" and ?t = jammed_tree
  have fine: "\<forall>es \<in> set ?ess. table_fine es"
    using tables_fine(1) long_table_fine [of 40001] by auto
  have place: "mset (concat (jam_levels hs)) = mset hs \<and> length (jam_levels hs) = 7 \<and> length (jam_levels hs ! 6) \<le> 1"
    if "length hs = length ?ess" for hs
    by (simp add: jam_levels_def flip: mset_append)
  obtain hs where hs: "tree_ok sample_codecs (tables_tree ?ess jam_levels) {#}"
      "tree_levels (tables_tree ?ess jam_levels) = jam_levels hs"
      "list_all2 (run_ok sample_codecs (tree_disk (tables_tree ?ess jam_levels))) hs ?ess" "map h_run_number hs = [1..<1 + length ?ess]"
    by (rule tables_tree_ok [OF fine place])
  have t: "tree_ok sample_codecs ?t {#}" "tree_levels ?t = jam_levels hs" "tree_disk ?t = tree_disk (tables_tree ?ess jam_levels)"
      "lt_max_level ?t = 6" "level0_compaction_trigger (lt_config ?t) = 1"
    using hs(1,2) by (simp_all add: jammed_tree_def tree_ok_def tree_levels_def tree_disk_def)
      (simp_all add: tables_tree_def sample_tree_def sample_config_def)
  obtain as l where hs_eq: "hs = as @ [l]" and as: "list_all2 (run_ok sample_codecs (tree_disk ?t)) as (replicate 5 table_7)"
      and l: "run_ok sample_codecs (tree_disk ?t) l (long_table 40001)"
    using hs(3) by (auto simp: t(3) list_all2_append2 list_all2_Cons2)
  have len: "length as = 5" using list_all2_lengthD [OF as] by simp
  then have ls: "tree_levels ?t = [as, [l], [], [], [], [], []]" by (simp add: t(2) jam_levels_def hs_eq)
  have small: "run_ok sample_codecs (tree_disk ?t) h table_7" if "h \<in> set as" for h
    using as that by (auto simp: list_all2_conv_all_nth in_set_conv_nth)
  have nums: "sorted (map h_run_number hs)" unfolding hs(4) by simp
  then have "levels_ordered (tree_levels ?t)" by (simp add: ls hs_eq levels_ordered_def sorted_append)
  then have inv: "sys_invar sample_codecs (start_system ?t)" using t(1) by (intro start_invar)
  have num: "h_num_entries l = 40001" and num1: "\<And>h. h \<in> set as \<Longrightarrow> h_num_entries h = 1"
    using l small by (auto simp: run_ok_def table_ok_def table_7_def)
  have "map (\<lambda>h. of_nat (h_num_entries h) :: u64) as = map (\<lambda>_. 1) as" using num1 by simp
  then have "level_size as = 5" by (simp only: level_size_def sum_list_triv len) simp
  moreover have "level_size [l] = 40001" by (simp add: level_size_def num)
  ultimately have "\<not> l0_first (tree_levels ?t) 6"
    by (simp add: l0_first_def ls level_target_size_def) (intro bexI [of _ 1], simp_all)
  moreover have "mergeable (tree_disk ?t) (tree_levels ?t ! lj_source_level job @ lj_target_level_runs job)"
    if picked: "pick_job (tree_levels ?t) 6 1 = Inr (Some job)" for job
  proof -
    obtain i where i: "i < 6" "job = level_job_for (tree_levels ?t) i"
      by (rule pick_job_ok [OF picked]) (simp_all add: ls)
    have "run_bytes (tree_disk ?t) h \<le> 1 \<and> (\<forall>(k, v) \<in> set (entries_of (tree_disk ?t) h). scannable k)"
      if "h \<in> set (as @ [l])" for h
      using that entries_of_run [OF l] entries_of_run [OF small, of h]
      by (auto simp: run_bytes_def long_table_blobs table_7_def opt_bytes_def scannable_short key_size_def)
        (auto simp: long_table_def replicate_scannable)
    moreover have "set (tree_levels ?t ! i @ tree_levels ?t ! Suc i) \<subseteq> set (as @ [l])"
        "length (tree_levels ?t ! i @ tree_levels ?t ! Suc i) < 2 ^ 64"
      using i(1) by (auto simp: ls nth_Cons' len)
    ultimately have "mergeable (tree_disk ?t) (tree_levels ?t ! i @ tree_levels ?t ! Suc i)"
      by (intro small_runs_mergeable) blast+
    then show ?thesis using i by (simp add: ls level_job_for_def)
  qed
  moreover have "lt_waiting ?t" "lt_should_run ?t" "\<not> lt_shutdown ?t" "\<not> l0_drained ?t"
    by (simp_all add: l0_drained_def ls t(5) l0_len_def len) (simp_all add: jammed_tree_def tables_tree_def sample_tree_def)
  ultimately show ?thesis
    using backpressure_wait [OF inv sample_codecs_total] inv
    by (simp add: start_system_def t(4,5)) blast
qed

end
