(* ===== verification/CompactionRace.thy ===== *)
theory CompactionRace
  imports Backpressure
begin

text \<open>
  Two rounds of compaction at once. \<open>compact\<close> and the background thread share
  \<open>run_compaction\<close>, and nothing keeps a second round from beginning while the thread is in one.
  A round removes its inputs by their positions, and the generation it checks before is only
  raised by a rollback.
\<close>

section \<open>Writing back to levels that have changed\<close>

lemma remove_all_at_all: "length xs \<le> n \<Longrightarrow> remove_all_at (rev [0..<n]) xs = (rev xs, [])"
proof (induction n)
  case (Suc n)
  show ?case
  proof (cases "length xs = Suc n")
    case True
    then show ?thesis using remove_all_at_prefix [of "Suc n" xs] by simp
  next
    case False
    then show ?thesis using Suc by simp
  qed
qed simp

text \<open>The stale positions hit the runs flushed since.\<close>

lemma stale_commit:
  assumes gen: "st_generation s = pd_generation p"
    and job: "lj_source_level (pd_job p) = 0" "lj_target_level (pd_job p) = 1" "1 < max_level"
    and inputs: "cr_inputs_to_remove r = [0..<n]" "length l0 \<le> n"
    and ls: "st_levels s = l0 # l1 # rest"
  shows "compaction_commit max_level p r s =
    (Inr (), drop_in (rev l0 @ pending_handles p)
       (s\<lparr>st_levels := [] # (l1 @ option_handles (cr_output r)) # rest\<rparr>))"
  using assms remove_all_at_all [OF inputs(2)]
  by (simp add: compaction_commit_def Let_def install_output_def option_handles_def split: option.split)

lemma stale_commit_ok:
  assumes s: "store_ok x dir max_level s (mset (option_handles (cr_output r)) + mset (pending_handles p) + M)"
    and res: "result_ok max_level p r s" and target: "lj_target_level (pd_job p) \<noteq> max_level"
    and ls: "st_levels s = l0 # l1 # rest"
    and above: "\<And>h. cr_output r = Some h \<Longrightarrow> \<forall>a \<in> set l1. h_run_number a < h_run_number h"
  shows "store_map (drop_in (rev l0 @ pending_handles p)
       (s\<lparr>st_levels := [] # (l1 @ option_handles (cr_output r)) # rest\<rparr>)) =
    levels_map (w_disk (st_world s)) (l1 # rest) ++ level_map (w_disk (st_world s)) (pd_source p)"
proof -
  let ?d = "w_disk (st_world s)" and ?out = "option_handles (cr_output r)"
  let ?new = "[] # (l1 @ ?out) # rest" and ?hs = "rev l0 @ pending_handles p"
  let ?s' = "drop_in ?hs (s\<lparr>st_levels := ?new\<rparr>)"
  have "runs_ok x dir (st_next_run s) (st_world (s\<lparr>st_levels := ?new\<rparr>)) (mset ?hs + (mset (concat ?new) + M))"
    using s by (simp add: store_ok_def ls ac_simps)
  note d = drop_in_ok(3) [OF this]
  have "levels_map (w_disk (st_world ?s')) ?new = levels_map ?d ?new"
    by (rule levels_map_cong) (use d in auto)
  then have "store_map ?s' = levels_map ?d ?new" by (simp add: store_map_def)
  moreover have "level_map ?d ?out = level_map ?d (pd_source p)"
    using res target by (auto simp: result_ok_def Let_def merged_map_def option_handles_def split: option.splits)
  moreover have "level_map ?d (l1 @ ?out) = level_map ?d l1 ++ level_map ?d ?out"
    using above by (intro level_map_append) (auto simp: option_handles_def less_imp_le split: option.splits)
  ultimately show ?thesis by simp
qed

text \<open>A round over all of L0 while another one is pending: what it leaves, and what the other sees.\<close>

lemma second_round:
  assumes s: "store_ok x dir max_level s M" and total: "codecs_total x" and max: "1 < max_level"
    and job: "pick_job (st_levels s) max_level trigger = Inr (Some job)" "lj_source_level job = 0"
    and size: "mergeable (w_disk (st_world s)) (st_levels s ! lj_source_level job @ lj_target_level_runs job)"
    and ls: "st_levels s = l0 # l1 # rest"
  obtains s' out where "run_compaction x dir max_level trigger s = (Inr (), s')" and "store_ok x dir max_level s' M"
    and "st_levels s' = [] # (l1 @ out) # rest" and "store_map s' = store_map s"
    and "st_generation s' = st_generation s" and "same_runs x (st_world s) (st_world s') M"
    and "st_next_run s \<le> st_next_run s'"
proof -
  obtain p s1 r s2 where b: "compaction_begin max_level trigger s = (Inr (Some p), s1)" and
    run: "run_compaction x dir max_level trigger s = compaction_commit max_level p r s2" and
    ok: "store_ok x dir max_level s2 (mset (option_handles (cr_output r)) + mset (pending_handles p) + M)"
      "pending_ok max_level p s2" "result_ok max_level p r s2" "store_map s2 = store_map s" and
    p: "pd_job p = job" "pd_levels p = st_levels s" "st_levels s2 = st_levels s" "st_generation s2 = pd_generation p" and
    same: "same_runs x (st_world s) (st_world s2) (mset (concat (st_levels s)) + M)" "st_next_run s2 = Suc (st_next_run s)"
    by (rule round_ok [OF s total job(1) size])
  have gen: "pd_generation p = st_generation s" using b job(1) by (auto simp: compaction_begin_def Let_def)
  have runs: "runs_ok x dir (st_next_run s2) (st_world s2)
      (mset (concat (st_levels s2)) + (mset (option_handles (cr_output r)) + mset (pending_handles p) + M))"
    and len: "length (st_levels s2) = Suc max_level" "length (st_levels s2 ! max_level) \<le> 1"
    using ok(1) by (simp_all add: store_ok_def)
  have inputs: "cr_inputs_to_remove r = [0..<length (pd_source p)]" using ok(3) by (simp add: result_ok_def)
  have jok: "lj_target_level job = 1" "pd_source p = l0"
    using ok(2) job(2) by (simp_all add: pending_ok_def job_ok_def Let_def p ls)
  have "\<not> loses_bottom max_level p r" using max by (simp add: loses_bottom_def p jok)
  then obtain s' where c: "compaction_commit max_level p r s2 = (Inr (), s')" "store_ok x dir max_level s' M"
      "store_map s' = store_map s2" "same_runs x (st_world s2) (st_world s') (mset (concat (st_levels s')) + M)"
      "st_generation s' = st_generation s2" "st_next_run s' = st_next_run s2"
    using commit_ok [OF runs len ok(2,3)] max by (metis jok(1) nat_neq_iff p(1))
  have "st_levels s' = [] # (l1 @ option_handles (cr_output r)) # rest"
    using stale_commit [of s2 p max_level r "length l0" l0 l1 rest] c(1) max inputs job(2) jok p ls by auto
  moreover have "same_runs x (st_world s) (st_world s') M"
    by (rule same_runs_trans [OF same_runs_mono [OF same(1)] same_runs_mono [OF c(4)]]) auto
  ultimately show thesis
    using run c ok(4) p(4) gen same(2) by (intro that [of s' "option_handles (cr_output r)"]) simp_all
qed

text \<open>The round of the thread, after its inputs have gone from L0.\<close>

lemma stale_round:
  assumes s: "store_ok x dir max_level s (mset (pending_handles p) + M)" and total: "codecs_total x"
    and pend: "job_ok max_level p" "st_generation s = pd_generation p"
      "\<forall>a \<in> set (concat (pd_levels p)). h_run_number a < st_next_run s"
    and job: "lj_source_level (pd_job p) = 0" "1 < max_level"
    and size: "mergeable (w_disk (st_world s)) (pd_source p @ lj_target_level_runs (pd_job p))"
    and ls: "st_levels s = l0 # l1 # rest" "length l0 \<le> length (pd_source p)"
  obtains r s2 s3 where "compaction_merge x dir max_level p s = (Inr r, s2)"
    and "compaction_commit max_level p r s2 = (Inr (), s3)"
    and "store_map s3 = levels_map (w_disk (st_world s)) (l1 # rest) ++ level_map (w_disk (st_world s)) (pd_source p)"
proof -
  obtain r s2 where m: "compaction_merge x dir max_level p s = (Inr r, s2)"
      "store_ok x dir max_level s2 (mset (option_handles (cr_output r)) + mset (pending_handles p) + M)"
      "result_ok max_level p r s2" "st_levels s2 = st_levels s" "st_generation s2 = st_generation s"
      "same_runs x (st_world s) (st_world s2) (mset (concat (st_levels s)) + (mset (pending_handles p) + M))"
      "\<forall>h. cr_output r = Some h \<longrightarrow> h_run_number h = st_next_run s"
    by (rule merge_ok [OF s total pend(1) size pend(3)])
  have runs: "runs_ok x dir (st_next_run s) (st_world s) (mset (concat (st_levels s)) + (mset (pending_handles p) + M))"
    using s by (simp add: store_ok_def)
  have kept: "run_map (w_disk (st_world s2)) h = run_map (w_disk (st_world s)) h"
    if "h \<in> set (concat (l1 # rest)) \<union> set (pd_source p)" for h
    using that by (intro same_runs_map [OF m(6) runs]) (auto simp: ls pending_handles_def)
  have target: "lj_target_level (pd_job p) = 1" using pend(1) job by (simp add: job_ok_def Let_def)
  have above: "\<forall>a \<in> set l1. h_run_number a < h_run_number h" if "cr_output r = Some h" for h
    using runs that m(7) by (auto simp: runs_ok_def ls)
  let ?s3 = "drop_in (rev l0 @ pending_handles p) (s2\<lparr>st_levels := [] # (l1 @ option_handles (cr_output r)) # rest\<rparr>)"
  have "compaction_commit max_level p r s2 = (Inr (), ?s3)"
    using m(3-5) pend(2) job target ls by (intro stale_commit) (simp_all add: result_ok_def)
  moreover have "store_map ?s3 =
      levels_map (w_disk (st_world s2)) (l1 # rest) ++ level_map (w_disk (st_world s2)) (pd_source p)"
    using target job(2) m(4) ls(1) by (intro stale_commit_ok [OF m(2,3) _ _ above]) simp_all
  moreover have "levels_map (w_disk (st_world s2)) (l1 # rest) = levels_map (w_disk (st_world s)) (l1 # rest)"
    by (rule levels_map_cong) (use kept in auto)
  moreover have "level_map (w_disk (st_world s2)) (pd_source p) = level_map (w_disk (st_world s)) (pd_source p)"
    by (rule level_map_cong) (use kept in auto)
  ultimately show thesis using m(1) by (intro that [of r s2 ?s3]) simp_all
qed

text \<open>An insertion that fills the memtable.\<close>

lemma insert_flushes:
  assumes t: "tree_ok x t M" and total: "codecs_total x" and fits: "fits (mt_data (mt_insert k v (lt_memtable t)))"
    and full: "memtable_size (lt_config t) \<le> mt_size_bytes (mt_insert k v (lt_memtable t))"
  obtains t' where "tree_insert x k v t = (Inr (), t')"
    and "flushed x (t\<lparr>lt_memtable := mt_insert k v (lt_memtable t)\<rparr>) t' M" and "lt_memtable t' = mt_new (lt_sequence t)"
proof -
  let ?t = "t\<lparr>lt_memtable := mt_insert k v (lt_memtable t)\<rparr>"
  have "mt_ok (lt_memtable t)" using t by (simp add: tree_ok_def)
  then have t': "tree_ok x ?t M" by (intro write_memtable(1) [OF t] mt_ok_insert)
  have fits': "fits (mt_data (lt_memtable ?t))" using fits by simp
  obtain t' where "flush_memtable x ?t = (Inr (), t')" "flushed x ?t t' M" "lt_memtable t' = mt_new (lt_sequence ?t)"
    by (rule flush_ok [OF t' total fits'])
  with full show thesis by (intro that [of t']) (simp_all add: tree_insert_def flush_if_full_def)
qed

lemma same_runs_mergeable:
  assumes "same_runs x w w' N" and "runs_ok x dir n w M" and "set hs \<subseteq> set_mset N" "set hs \<subseteq> set_mset M"
    and "mergeable (w_disk w) hs"
  shows "mergeable (w_disk w') hs"
proof -
  have same: "entries_of (w_disk w') h = entries_of (w_disk w) h" if "h \<in> set hs" for h
  proof -
    have h: "h \<in># N" "h \<in># M" using assms(3,4) that by auto
    then obtain es where "run_ok x (w_disk w) h es" using assms(2) unfolding runs_ok_def by blast
    moreover from this have "run_ok x (w_disk w') h es" using assms(1) h by (auto simp: same_runs_def)
    ultimately show ?thesis by (simp add: entries_of_run)
  qed
  have "map (run_bytes (w_disk w')) hs = map (run_bytes (w_disk w)) hs"
    by (intro map_cong refl) (simp add: run_bytes_def same)
  then show ?thesis using assms(5) same unfolding mergeable_def by metis
qed

text \<open>The user compacts, taking all of L0 to L1, and an insertion flushes the memtable.\<close>

lemma compact_and_insert:
  assumes t: "tree_ok x t M" and total: "codecs_total x" and max: "1 < lt_max_level t"
    and job: "pick_job (tree_levels t) (lt_max_level t) (level0_compaction_trigger (lt_config t)) = Inr (Some job)"
      "lj_source_level job = 0"
    and size: "mergeable (tree_disk t) (tree_levels t ! 0 @ lj_target_level_runs job)"
    and ls: "tree_levels t = l0 # l1 # rest"
    and fits: "fits (mt_data (mt_insert k v (lt_memtable t)))"
    and full: "memtable_size (lt_config t) \<le> mt_size_bytes (mt_insert k v (lt_memtable t))"
  obtains t2 t3 extra out where "tree_compact x t = (Inr (), t2)" and "lt_waiting t2 = lt_waiting t"
    and "tree_insert x k v t2 = (Inr (), t3)" and "lt_memtable t3 = mt_new (lt_sequence t)"
    and "tree_ok x t3 M" and "same_shape t t3" and "tree_levels t3 = extra # (l1 @ out) # rest" and "length extra \<le> 1"
    and "levels_map (tree_disk t3) ((l1 @ out) # rest) = store_map (lt_store t)"
    and "same_runs x (st_world (lt_store t)) (st_world (lt_store t3)) M"
proof -
  let ?s = "lt_store t" and ?max = "lt_max_level t" and ?dir = "lt_active_dir t"
  have store: "store_ok x ?dir ?max ?s M" using t by (simp add: tree_ok_def)
  have size': "mergeable (w_disk (st_world ?s)) (st_levels ?s ! lj_source_level job @ lj_target_level_runs job)"
    using size by (simp add: job(2) tree_disk_def tree_levels_def)
  obtain s3 out where c: "run_compaction x ?dir ?max (level0_compaction_trigger (lt_config t)) ?s = (Inr (), s3)"
      "store_ok x ?dir ?max s3 M" "st_levels s3 = [] # (l1 @ out) # rest" "store_map s3 = store_map ?s"
      "st_generation s3 = st_generation ?s" "same_runs x (st_world ?s) (st_world s3) M" "st_next_run ?s \<le> st_next_run s3"
    by (rule second_round [OF store total max job(1) [unfolded tree_levels_def] job(2) size' ls [unfolded tree_levels_def]])
  let ?t2 = "t\<lparr>lt_store := s3\<rparr>"
  have t2: "tree_ok x ?t2 M" using t c(2) by (simp add: tree_ok_def)
  obtain t3 where i: "tree_insert x k v ?t2 = (Inr (), t3)" "flushed x (?t2\<lparr>lt_memtable := mt_insert k v (lt_memtable ?t2)\<rparr>) t3 M"
      "lt_memtable t3 = mt_new (lt_sequence ?t2)"
    by (rule insert_flushes [OF t2 total, of k v]) (use fits full in simp_all)
  obtain extra where t3: "tree_ok x t3 M" "same_shape t t3" "tree_levels t3 = extra # (l1 @ out) # rest" "length extra \<le> 1"
      "same_runs x (st_world s3) (st_world (lt_store t3)) (mset (concat (st_levels s3)) + M)"
    using i(2) c(7) by (auto simp: flushed_def same_shape_def tree_levels_def c(3,5))
  have "levels_map (tree_disk t3) ((l1 @ out) # rest) = levels_map (tree_disk ?t2) ((l1 @ out) # rest)"
    using t3(5) by (intro levels_map_cong kept_run_map [OF t2]) (auto simp: c(3) tree_levels_def)
  also have "\<dots> = store_map ?s" using c(3,4) by (simp add: store_map_def tree_disk_def)
  finally have "levels_map (tree_disk t3) ((l1 @ out) # rest) = store_map ?s" .
  moreover have "same_runs x (st_world ?s) (st_world (lt_store t3)) M"
    by (rule same_runs_trans [OF c(6) same_runs_mono [OF t3(5)]]) simp
  ultimately show thesis
    using c(1) i t3 by (intro that [of ?t2 t3 extra out]) (simp_all add: tree_compact_def on_store_def)
qed

text \<open>The calls of the user and the rest of the round, from a tree whose round has begun.\<close>

lemma map_add_again: "(m :: 'a \<rightharpoonup> 'b) ++ a ++ a = m ++ a"
  by (simp add: fun_eq_iff map_add_def split: option.split)

lemma rounds_overlap:
  assumes t: "tree_ok x t (mset (pending_handles p) + M)" and total: "codecs_total x"
    and pend: "job_ok (lt_max_level t) p" "pd_levels p = tree_levels t" "pd_generation p = st_generation (lt_store t)"
    and job: "pick_job (tree_levels t) (lt_max_level t) (level0_compaction_trigger (lt_config t)) = Inr (Some (pd_job p))"
      "lj_source_level (pd_job p) = 0" "1 < lt_max_level t" and l0: "tree_levels t ! 0 \<noteq> []"
    and size: "mergeable (tree_disk t) (tree_levels t ! 0 @ tree_levels t ! 1)"
    and fits: "fits (mt_data (mt_insert k v (lt_memtable t)))"
    and full: "memtable_size (lt_config t) \<le> mt_size_bytes (mt_insert k v (lt_memtable t))"
  obtains t2 t3 r s4 s5 where "tree_compact x t = (Inr (), t2)" and "lt_waiting t2 = lt_waiting t"
    and "tree_insert x k v t2 = (Inr (), t3)"
    and "compaction_merge x (lt_active_dir t3) (lt_max_level t3) p (lt_store t3) = (Inr r, s4)"
    and "compaction_commit (lt_max_level t3) p r s4 = (Inr (), s5)" and "store_map s5 = store_map (lt_store t)"
    and "lt_immutables t3 = []" and "lt_memtable t3 = mt_new (lt_sequence t)"
proof -
  let ?s = "lt_store t" and ?M = "mset (pending_handles p) + M"
  have "length (tree_levels t) = Suc (lt_max_level t)" using t by (simp add: tree_ok_def store_ok_def tree_levels_def)
  then obtain l0 l1 rest where ls: "tree_levels t = l0 # l1 # rest"
    using job(3) by (cases "tree_levels t"; cases "tl (tree_levels t)") auto
  have src: "pd_source p = l0" "lj_target_level_runs (pd_job p) = l1"
    using pend(1,2) job(2) ls by (auto simp: job_ok_def Let_def)
  obtain t2 t3 extra out where o: "tree_compact x t = (Inr (), t2)" "lt_waiting t2 = lt_waiting t"
      "tree_insert x k v t2 = (Inr (), t3)" "lt_memtable t3 = mt_new (lt_sequence t)" "tree_ok x t3 ?M" "same_shape t t3"
      "tree_levels t3 = extra # (l1 @ out) # rest" "length extra \<le> 1"
      "levels_map (tree_disk t3) ((l1 @ out) # rest) = store_map ?s" "same_runs x (st_world ?s) (st_world (lt_store t3)) ?M"
    by (rule compact_and_insert [OF t total job(3,1,2) _ ls fits full]) (use size ls src in simp_all)
  have shape: "lt_active_dir t3 = lt_active_dir t" "lt_max_level t3 = lt_max_level t" "lt_immutables t3 = []"
      "st_generation (lt_store t3) = st_generation ?s"
    using o(5,6) by (simp_all add: same_shape_def tree_ok_def)
  have store: "store_ok x (lt_active_dir t3) (lt_max_level t3) (lt_store t3) ?M" using o(5) by (simp add: tree_ok_def)
  then have old: "\<forall>a \<in> set (concat (pd_levels p)). h_run_number a < st_next_run (lt_store t3)"
    by (auto simp: store_ok_def runs_ok_def pending_handles_def)
  have "mergeable (w_disk (st_world (lt_store t3))) (l0 @ l1)"
    by (rule same_runs_mergeable [OF o(10) tree_runs_ok [OF t]])
      (use size ls in \<open>auto simp: pending_handles_def src tree_disk_def\<close>)
  then have size3: "mergeable (w_disk (st_world (lt_store t3))) (pd_source p @ lj_target_level_runs (pd_job p))"
    by (simp add: src)
  have "l0 \<noteq> []" using l0 ls by simp
  then have few: "length extra \<le> length (pd_source p)" using o(8) src(1) by (cases l0) auto
  obtain r s4 s5 where m: "compaction_merge x (lt_active_dir t3) (lt_max_level t3) p (lt_store t3) = (Inr r, s4)"
      "compaction_commit (lt_max_level t3) p r s4 = (Inr (), s5)"
      "store_map s5 = levels_map (tree_disk t3) ((l1 @ out) # rest) ++ level_map (tree_disk t3) (pd_source p)"
    unfolding tree_disk_def
    by (rule stale_round [OF store total _ _ old job(2) _ size3 o(7) [unfolded tree_levels_def] few])
      (use shape pend(1,3) job(3) in simp_all)
  have "level_map (tree_disk t3) l0 = level_map (tree_disk t) l0"
    by (rule level_map_cong, rule kept_run_map [OF t o(10)]) (auto simp: pending_handles_def src)
  with m(3) o(9) have "store_map s5 = store_map ?s ++ level_map (tree_disk t) l0" by (simp only: src)
  moreover have "store_map ?s = levels_map (tree_disk t) (l1 # rest) ++ level_map (tree_disk t) l0"
    using ls by (simp add: store_map_def tree_levels_def tree_disk_def)
  ultimately have "store_map s5 = store_map ?s" by (simp only: map_add_again)
  then show thesis using o(1-4) m(1,2) shape(3) by (intro that [of t2 t3 r s4 s5])
qed

text \<open>The five steps, given what each of them computes.\<close>

lemma race_steps:
  assumes idle: "sy_bg s = BgIdle"
    and signal: "lt_should_run (sy_tree s)" "\<not> lt_shutdown (sy_tree s)" "\<not> lt_waiting (sy_tree s)"
    and ready: "bg_ready ((sy_tree s)\<lparr>lt_should_run := False\<rparr>)"
    and b: "compaction_begin (lt_max_level (sy_tree s)) (level0_compaction_trigger (lt_config (sy_tree s))) (lt_store (sy_tree s))
      = (Inr (Some p), s1)"
    and c: "tree_compact x ((sy_tree s)\<lparr>lt_should_run := False, lt_store := s1\<rparr>) = (Inr (), t2)"
      "lt_waiting t2 = lt_waiting (sy_tree s)"
    and i: "tree_insert x k v t2 = (Inr (), t3)"
    and m: "compaction_merge x (lt_active_dir t3) (lt_max_level t3) p (lt_store t3) = (Inr r, s4)"
      "compaction_commit (lt_max_level t3) p r s4 = (Inr (), s5)"
  shows "sys_steps x s [BgWake, Compact, Insert k v, BgMerge, BgCommit]
    (s\<lparr>sy_tree := spend_credits (t3\<lparr>lt_store := s5\<rparr>), sy_bg := BgIdle\<rparr>)"
proof -
  let ?a = "s\<lparr>sy_tree := (sy_tree s)\<lparr>lt_should_run := False, lt_store := s1\<rparr>, sy_bg := BgRunning p\<rparr>"
  let ?d = "s\<lparr>sy_tree := t3\<lparr>lt_store := s4\<rparr>, sy_bg := BgMerged p r\<rparr>"
  have 1: "sys_step x s BgWake ?a"
    using idle signal(1,2) b ready by (intro sys_step.wake) (simp_all add: bg_wake_def Let_def on_store_def)
  have 2: "sys_step x ?a Compact (?a\<lparr>sy_tree := t2\<rparr>)"
    by (rule sys_step.compact) (use signal(3) c(1) in simp_all)
  have 3: "sys_step x (?a\<lparr>sy_tree := t2\<rparr>) (Insert k v) (?a\<lparr>sy_tree := t3\<rparr>)"
    using sys_step.insert [of "?a\<lparr>sy_tree := t2\<rparr>" x k v "Inr ()" t3] signal(3) c(2) i by simp
  have 4: "sys_step x (?a\<lparr>sy_tree := t3\<rparr>) BgMerge ?d"
    using sys_step.merge [of "?a\<lparr>sy_tree := t3\<rparr>" p x "BgMerged p r" "t3\<lparr>lt_store := s4\<rparr>"] m(1) by (simp add: bg_merge_def)
  have 5: "sys_step x ?d BgCommit (s\<lparr>sy_tree := spend_credits (t3\<lparr>lt_store := s5\<rparr>), sy_bg := BgIdle\<rparr>)"
    using sys_step.commit [of ?d p r BgIdle "spend_credits (t3\<lparr>lt_store := s5\<rparr>)" x] m(2)
    by (simp add: bg_commit_def on_store_def)
  show ?thesis
    by (intro sys_steps.more [OF 1] sys_steps.more [OF 2] sys_steps.more [OF 3] sys_steps.more [OF 4]
        sys_steps.more [OF 5] sys_steps.none)
qed

section \<open>The race\<close>

text \<open>
  C7. A compaction called by the user while the background thread is in a round can lose
  writes. Both rounds take all of L0; the first to finish moves it to L1. When the memtable is
  flushed before the second one writes its result back, the positions that one removes are
  those of the new run: the tree shows what the runs of the levels showed before, and no write
  of the flushed memtable is left.
\<close>

theorem compaction_race_loses_flush:
  assumes inv: "sys_invar x s" and total: "codecs_total x" and idle: "sy_bg s = BgIdle"
    and signal: "lt_should_run (sy_tree s)" "\<not> lt_shutdown (sy_tree s)" "\<not> lt_waiting (sy_tree s)"
    and ready: "level0_compaction_trigger (lt_config (sy_tree s)) \<le> l0_len (tree_levels (sy_tree s))"
      "0 < l0_len (tree_levels (sy_tree s))"
    and first: "l0_first (tree_levels (sy_tree s)) (lt_max_level (sy_tree s))" "1 < lt_max_level (sy_tree s)"
    and size: "mergeable (tree_disk (sy_tree s)) (tree_levels (sy_tree s) ! 0 @ tree_levels (sy_tree s) ! 1)"
    and fits: "fits (mt_data (mt_insert k v (lt_memtable (sy_tree s))))"
    and full: "memtable_size (lt_config (sy_tree s)) \<le> mt_size_bytes (mt_insert k v (lt_memtable (sy_tree s)))"
  shows "\<exists>s'. sys_steps x s [BgWake, Compact, Insert k v, BgMerge, BgCommit] s'
    \<and> tree_view (sy_tree s') = live (store_map (lt_store (sy_tree s)))"
proof -
  let ?t = "sy_tree s" and ?s = "lt_store (sy_tree s)" and ?M = "others (sy_bg s) (sy_snapshots s)"
  let ?trigger = "level0_compaction_trigger (lt_config ?t)" and ?max = "lt_max_level ?t" and ?dir = "lt_active_dir ?t"
  have t: "tree_ok x ?t ?M" using inv by (simp add: sys_invar_def Let_def)
  then have store: "store_ok x ?dir ?max ?s ?M" by (simp add: tree_ok_def)
  then have len: "length (st_levels ?s) = Suc ?max" "1 \<le> ?max" by (simp_all add: store_ok_def)
  then obtain l0 l1 rest where ls: "st_levels ?s = l0 # l1 # rest"
    by (cases "st_levels ?s"; cases "tl (st_levels ?s)") auto
  obtain job where job: "pick_job (st_levels ?s) ?max ?trigger = Inr (Some job)" "lj_source_level job = 0"
    using pick_job_source [OF len ready [unfolded tree_levels_def]] first(1) by (auto simp: tree_levels_def)
  obtain p s1 where b: "compaction_begin ?max ?trigger ?s = (Inr (Some p), s1)"
    and s1: "store_ok x ?dir ?max s1 (mset (pending_handles p) + ?M)" "pending_ok ?max p s1" "store_map s1 = store_map ?s"
      "st_levels s1 = st_levels ?s" "pd_levels p = st_levels ?s" "st_generation s1 = st_generation ?s"
      "w_disk (st_world s1) = w_disk (st_world ?s)"
    using begin_ok [OF store, of ?trigger] job(1) by (auto simp: compaction_begin_def Let_def)
  have p: "pd_job p = job" "pd_generation p = st_generation ?s"
    using b job(1) by (auto simp: compaction_begin_def Let_def)
  let ?t1 = "?t\<lparr>lt_should_run := False, lt_store := s1\<rparr>"
  have t1: "tree_ok x ?t1 (mset (pending_handles p) + ?M)" using t s1(1) by (simp add: tree_ok_def)
  have jok: "job_ok ?max p" using s1(2) by (simp add: pending_ok_def)
  obtain t2 t3 r s4 s5 where o: "tree_compact x ?t1 = (Inr (), t2)" "lt_waiting t2 = lt_waiting ?t1"
      "tree_insert x k v t2 = (Inr (), t3)"
      "compaction_merge x (lt_active_dir t3) (lt_max_level t3) p (lt_store t3) = (Inr r, s4)"
      "compaction_commit (lt_max_level t3) p r s4 = (Inr (), s5)" "store_map s5 = store_map (lt_store ?t1)"
      "lt_immutables t3 = []" "lt_memtable t3 = mt_new (lt_sequence ?t1)"
    by (rule rounds_overlap [OF t1 total, of k v])
      (use jok s1 p job first(2) ready(2) size fits full ls in \<open>simp_all add: tree_levels_def tree_disk_def l0_len_def\<close>)
  have ready': "bg_ready (?t\<lparr>lt_should_run := False\<rparr>)"
    using ready(1) by (simp add: bg_ready_def l0_len_def tree_levels_def ls)
  have wait: "lt_waiting t2 = lt_waiting ?t" using o(2) by simp
  have "tree_view (spend_credits (t3\<lparr>lt_store := s5\<rparr>)) = live (store_map ?s)"
    using o(6-8) s1(3) by (simp add: tree_view_def tree_map_def memtables_map_def)
  then show ?thesis
    using race_steps [OF idle signal ready' b o(1) wait o(3-5)]
    by (intro exI [of _ "s\<lparr>sy_tree := spend_credits (t3\<lparr>lt_store := s5\<rparr>), sy_bg := BgIdle\<rparr>"] conjI) simp_all
qed

text \<open>One run in L0, and a memtable that every write fills.\<close>

definition all_in_l0 :: "sst_handle list \<Rightarrow> sst_handle list list" where
  "all_in_l0 hs = hs # replicate 6 []"

definition race_tree :: lsm_tree where
  "race_tree = tables_tree [table_7] all_in_l0
     \<lparr>lt_config := sample_config\<lparr>memtable_size := 0\<rparr>, lt_should_run := True\<rparr>"

theorem compaction_race_loses_flush_witness:
  "\<exists>s s'. sys_invar sample_codecs s
     \<and> sys_steps sample_codecs s [BgWake, Compact, Insert (Key [2]) (Value [9]), BgMerge, BgCommit] s'
     \<and> tree_view (sy_tree s') (Key [2]) = None"
proof -
  let ?base = "tables_tree [table_7] all_in_l0" and ?t = race_tree
  have fine: "\<forall>es \<in> set [table_7]. table_fine es" using tables_fine(1) by simp
  have place: "mset (concat (all_in_l0 hs)) = mset hs \<and> length (all_in_l0 hs) = 7 \<and> length (all_in_l0 hs ! 6) \<le> 1" for hs
    by (simp add: all_in_l0_def numeral_eq_Suc)
  obtain hs where hs: "tree_ok sample_codecs ?base {#}" "tree_levels ?base = all_in_l0 hs"
      "list_all2 (run_ok sample_codecs (tree_disk ?base)) hs [table_7]" "map h_run_number hs = [1..<1 + length [table_7]]"
    by (rule tables_tree_ok [OF fine place])
  then obtain h where h: "hs = [h]" "run_ok sample_codecs (tree_disk ?base) h table_7" by (auto simp: list_all2_Cons2)
  then have es: "entries_of (tree_disk ?base) h = table_7" by (simp add: entries_of_run)
  have t: "tree_ok sample_codecs ?t {#}" "tree_levels ?t = [h] # replicate 6 []" "tree_disk ?t = tree_disk ?base"
      "lt_max_level ?t = 6" "level0_compaction_trigger (lt_config ?t) = 1" "memtable_size (lt_config ?t) = 0"
      "lt_memtable ?t = mt_new 0" "lt_should_run ?t" "\<not> lt_shutdown ?t" "\<not> lt_waiting ?t"
    using hs(1,2) h(1) by (simp_all add: race_tree_def tree_ok_def tree_levels_def tree_disk_def all_in_l0_def)
      (simp_all add: tables_tree_def sample_tree_def sample_config_def)
  have ordered: "levels_ordered (tree_levels ?t)" by (simp add: t(2) levels_ordered_def)
  have inv: "sys_invar sample_codecs (start_system ?t)" by (rule start_invar [OF t(1) ordered])
  have merge: "mergeable (tree_disk ?t) [h]"
    using es by (simp add: t(3) mergeable_def run_bytes_def table_7_def opt_bytes_def scannable_short key_size_def)
  have first: "l0_first (tree_levels ?t) 6"
    by (auto simp: t(2) l0_first_def nth_Cons' level_size_def)
  have fits: "fits (mt_data (mt_insert (Key [2]) (Value [9]) (mt_new 0)))"
    by (simp add: fits_def mt_insert_def mt_new_def Let_def key_size_def opt_bytes_def)
  have "store_map (lt_store ?t) = run_map (tree_disk ?t) h"
    using t(2) by (simp add: store_map_def tree_levels_def tree_disk_def levels_map_no_runs)
  then have "store_map (lt_store ?t) (Key [2]) = None"
    using es by (simp add: t(3) run_map_def table_7_def bt_get_eq)
  then have "live (store_map (lt_store ?t)) (Key [2]) = None" by (simp add: live_def)
  moreover have "\<exists>s'. sys_steps sample_codecs (start_system ?t) [BgWake, Compact, Insert (Key [2]) (Value [9]), BgMerge, BgCommit] s'
      \<and> tree_view (sy_tree s') = live (store_map (lt_store ?t))"
    using compaction_race_loses_flush [OF inv sample_codecs_total, of "Key [2]" "Value [9]"] t(2,4-10) merge first fits
    by (simp add: start_system_def l0_len_def)
  ultimately show ?thesis using inv by metis
qed

end
