(* ===== verification/RunProperties.thy ===== *)
theory RunProperties
  imports Samples
begin

text \<open>
  Properties of one run on disk: writing and reading it, reopening it, refusing a damaged one,
  and the reference count that decides when its files go.
\<close>

section \<open>Writing, reading, reopening\<close>

lemma written_answers:
  assumes "table_ok x d h (sort_key fst es)" and "distinct (map fst es)"
  shows "sst_get x h k d = Inr (Option.bind (map_of es k) id)"
    and "range_with_tombstones h lo hi Sync d = Inr (filter (\<lambda>(k, v). lo \<le> k \<and> k \<le> hi) (sort_key fst es))"
  using get_ok [OF assms(1), of k] range_ok [OF assms(1), of lo hi]
  by (simp_all add: bt_get_eq in_range_def map_of_sort_key [OF assms(2)])

text \<open>
  C14. A run gives back what was written to it. For entries in any order with distinct keys
  that fit the format, the writer returns a handle; a point lookup in it is the lookup in the
  entries, and a scan is the entries between the bounds in key order, tombstones included. The
  same holds for the handle that \<open>SsTableHandle::open\<close> returns for the files afterwards.
\<close>

theorem run_roundtrip:
  assumes disk: "disk_ok (w_disk w)" and fresh: "run_fresh (w_disk w) dir n"
    and es: "es \<noteq> []" "distinct (map fst es)" "fits (sort_key fst es)"
    and codecs: "codecs_ok x" "codecs_total x"
  shows "\<exists>h w' g w''. write_run x dir n es level w = (Inr h, w') \<and> sst_open x dir n w' = (Inr g, w'')
    \<and> (\<forall>j \<in> {h, g}. \<forall>k lo hi.
          sst_get x j k (w_disk w'') = Inr (Option.bind (map_of es k) id)
          \<and> range_with_tombstones j lo hi Sync (w_disk w'')
              = Inr (filter (\<lambda>(k, v). lo \<le> k \<and> k \<le> hi) (sort_key fst es)))"
proof -
  obtain sw d where new: "sw_new dir n (w_disk w) = (Inr sw, d)"
      "writer_at (w_disk w) dir n d sw" "sw_entries sw = []"
    using sw_new_total [OF disk fresh] by blast
  obtain h w' where fin: "sw_finish x (fold sw_add es sw) level (w\<lparr>w_disk := d\<rparr>) = (Inr h, w')"
      "run_written x (w_disk w) (w\<lparr>w_disk := d\<rparr>) dir n (sort_key fst es) level h w'"
    using sw_finish_total [OF fresh, of "w\<lparr>w_disk := d\<rparr>" "fold sw_add es sw" es x level] new es codecs
    by auto
  have run: "write_run x dir n es level w = (Inr h, w')"
    using new(1) fin(1) by (simp add: write_run_def result_simps)
  have h: "table_ok x (w_disk w') h (sort_key fst es)"
    and st: "stored_run x (file_contents (w_disk w')) (run_paths_new dir n) (sort_key fst es)"
    using fin(2) by (auto simp: run_written_def)
  obtain g where g: "sst_open x dir n w' = (Inr g, snd (new_arc w'))" "table_ok x (w_disk w') g (sort_key fst es)"
    by (rule sst_open_total [OF codecs(1) st])
  have "w_disk (snd (new_arc w')) = w_disk w'" by (simp add: new_arc_def)
  then show ?thesis
    using run g written_answers [OF h es(2)] written_answers [OF g(2) es(2)]
    by (intro exI [of _ h] exI [of _ w'] exI [of _ g] exI [of _ "snd (new_arc w')"]) auto
qed

definition sample_entries :: "(key \<times> lsm_value option) list" where
  "sample_entries = [(Key [5], Some (Value [7])), (Key [2], None), (Key [3], Some (Value []))]"

lemma sample_entries_fit: "fits (sort_key fst sample_entries)"
  by (simp add: fits_def sample_entries_def key_size_def opt_bytes_def)

theorem run_roundtrip_witness:
  "\<exists>h w' g w''. write_run sample_codecs [''active''] 1 sample_entries 0 sample_world = (Inr h, w')
     \<and> sst_open sample_codecs [''active''] 1 w' = (Inr g, w'')
     \<and> sst_get sample_codecs g (Key [5]) (w_disk w'') = Inr (Some (Value [7]))
     \<and> range_with_tombstones g (Key [2]) (Key [4]) Sync (w_disk w'')
         = Inr [(Key [2], None), (Key [3], Some (Value []))]"
proof -
  have "disk_ok (w_disk sample_world)" "run_fresh (w_disk sample_world) [''active''] 1"
    by (simp_all add: sample_world_def run_fresh_sample)
  from run_roundtrip [OF this, of sample_entries sample_codecs 0] show ?thesis
    using sample_entries_fit by (fastforce simp: sample_entries_def)
qed

section \<open>A damaged run\<close>

lemma verify_mismatch:
  assumes "file_contents d p = Some bs" and "map_of cs name = Some c" and "cd_crc x bs \<noteq> c"
  shows "verify_component x cs name p d = Inl (Io InvalidData)"
  using assms
  by (simp add: verify_component_def get_checksum_def check_crc_def read_file_crc32c_eq fs_read_def)

lemma open_fails_at:
  assumes exist: "all_exist (run_paths_new dir n) (w_disk w)"
    and cs: "read_checksums_file (run_file dir n ''checksums'') (w_disk w) = Inr cs"
    and ext: "ext \<in> {''keyops'', ''blobs'', ''filter'', ''index''}"
    and bad: "verify_component x cs ext (run_file dir n ext) (w_disk w) = Inl e"
    and fine: "\<And>f. f \<in> {''keyops'', ''blobs'', ''filter'', ''index''} \<Longrightarrow> f \<noteq> ext \<Longrightarrow>
      verify_component x cs f (run_file dir n f) (w_disk w) = Inr ()"
  shows "sst_open x dir n w = (Inl e, w)"
proof -
  consider "ext = ''keyops''" | "ext = ''blobs''" | "ext = ''filter''" | "ext = ''index''"
    using ext by blast
  then show ?thesis
    by cases (use exist cs bad fine [of "''keyops''"] fine [of "''blobs''"] fine [of "''filter''"] in
      \<open>simp_all add: sst_open_def Let_def result_simps\<close>)
qed

text \<open>
  C15. Damage is detected: when one of the four component files of a written run is replaced by
  bytes with another checksum, \<open>open\<close> refuses the run with an invalid-data error and makes
  no handle. Whatever the disk holds, a run that does open has four components whose checksums
  are those its checksums file states.
\<close>

theorem open_refuses_damage:
  assumes st: "stored_run x view (run_paths_new dir n) es"
    and ext: "ext \<in> {''keyops'', ''blobs'', ''filter'', ''index''}"
    and damaged: "view (run_file dir n ext) = Some good" "cd_crc x bad \<noteq> cd_crc x good"
    and disk: "file_contents (w_disk w) = view(run_file dir n ext \<mapsto> bad)"
  shows "sst_open x dir n w = (Inl (Io InvalidData), w)
    \<and> (\<forall>m v h v'. sst_open x dir m v = (Inr h, v') \<longrightarrow>
         (\<exists>cs. read_checksums_file (run_file dir m ''checksums'') (w_disk v) = Inr cs
           \<and> (\<forall>name \<in> {''keyops'', ''blobs'', ''filter'', ''index''}. \<exists>bs.
                 file_contents (w_disk v) (run_file dir m name) = Some bs
                 \<and> map_of cs name = Some (cd_crc x bs))))"
proof -
  let ?d = "w_disk w" and ?f = "\<lambda>e. run_file dir n e"
  obtain b fb ib where
    files: "view (?f ''keyops'') = Some (enc_keyops 0 es)" "view (?f ''blobs'') = Some (enc_blobs es)"
      "view (?f ''filter'') = Some fb" "view (?f ''index'') = Some ib"
      "view (?f ''checksums'') = Some (string_bytes (format_checksums_file
         (sw_checksums (cd_crc x (enc_keyops 0 es)) (cd_crc x (enc_blobs es)) (cd_crc x fb) (cd_crc x ib))))"
    using st unfolding stored_run_def run_paths_new_simps by blast
  have "file_contents ?d (?f ''checksums'') = view (?f ''checksums'')" using ext by (auto simp: disk)
  from read_formatted [OF this [unfolded files(5)] sw_checksums_props(1,2)] obtain cs where
    cs: "read_checksums_file (?f ''checksums'') ?d = Inr cs"
      "map_of cs = [''keyops'' \<mapsto> cd_crc x (enc_keyops 0 es), ''blobs'' \<mapsto> cd_crc x (enc_blobs es),
         ''filter'' \<mapsto> cd_crc x fb, ''index'' \<mapsto> cd_crc x ib]"
    unfolding sw_checksums_props(3) by blast
  have good: "\<exists>c. map_of cs e = Some c \<and> view (?f e) \<noteq> None
      \<and> (\<forall>bs. view (?f e) = Some bs \<longrightarrow> cd_crc x bs = c)"
    if "e \<in> {''keyops'', ''blobs'', ''filter'', ''index''}" for e
    using that by (auto simp: cs(2) files)
  have exist: "all_exist (run_paths_new dir n) ?d"
    using ext by (auto simp: all_exist_def path_exists_contents disk files)
  have bad: "verify_component x cs ext (?f ext) ?d = Inl (Io InvalidData)"
    using good [OF ext] damaged by (auto intro!: verify_mismatch [of _ _ bad] simp: disk)
  have fine: "verify_component x cs e (?f e) ?d = Inr ()"
    if "e \<in> {''keyops'', ''blobs'', ''filter'', ''index''}" "e \<noteq> ext" for e
    using good [OF that(1)] that(2) by (auto simp: verify_component_iff disk)
  from open_fails_at [OF exist _ ext] cs(1) bad fine
  have "sst_open x dir n w = (Inl (Io InvalidData), w)" by simp
  then show ?thesis using sst_open_verified by blast
qed

theorem open_refuses_damage_witness:
  "\<exists>w. file_contents (w_disk w) (run_file [''active''] 1 ''blobs'') = Some []
     \<and> sst_open sample_codecs [''active''] 1 w = (Inl (Io InvalidData), w)"
proof -
  let ?es = "[(Key [1], Some (Value [7]))]" and ?p = "run_file [''active''] 1 ''blobs''"
  have "table_fine ?es" by (simp add: table_fine_def fits_def key_size_def opt_bytes_def)
  from stored_files_run [OF this sample_codecs_total, of "[''active'']" 1] obtain fb ib where
    st: "stored_run sample_codecs (map_of (stored_files sample_codecs [''active''] 1 ?es fb ib))
           (run_paths_new [''active''] 1) ?es" by blast
  let ?fs = "stored_files sample_codecs [''active''] 1 ?es fb ib"
  let ?w = "sample_world\<lparr>w_disk := disk_of [] ((?p, []) # ?fs)\<rparr>"
  have "map_of ?fs ?p = Some [7]" by (simp add: stored_files_def opt_bytes_def)
  moreover have "cd_crc sample_codecs [] \<noteq> cd_crc sample_codecs [7]" by (simp add: sample_codecs_def)
  ultimately have "sst_open sample_codecs [''active''] 1 ?w = (Inl (Io InvalidData), ?w)"
    using open_refuses_damage [OF st, of "''blobs''" "[7]" "[]" ?w] by simp
  then show ?thesis by (intro exI [of _ ?w]) simp
qed

section \<open>Point lookups and scans\<close>

text \<open>
  The point lookup is an optimised scan: on every run that represents some entries, going
  through the Bloom filter, the binary search in the index and the direct reads at the offset
  gives what scanning the whole keyops file for the one key gives, and the range query without
  tombstones is the scan with the tombstones filtered out.
\<close>

lemma get_agrees_with_scan:
  assumes "table_ok x d h es"
  shows "sst_get x h k d =
      res_bind (range_with_tombstones h k k Sync d) (\<lambda>r. Inr (case r of [] \<Rightarrow> None | (_, v) # _ \<Rightarrow> v))
    \<and> sst_range h lo hi Sync d = Inr (filter (\<lambda>(k, v). lo \<le> k \<and> k \<le> hi \<and> v \<noteq> None) es)"
proof -
  have wf: "bt_wf es" using assms by (simp add: table_ok_def)
  have "(case in_range k k es of [] \<Rightarrow> None | (_, v) # _ \<Rightarrow> v) = Option.bind (bt_get es k) id"
  proof (cases "in_range k k es")
    case Nil
    then have "map_of es k = None" by (auto simp: in_range_def filter_empty_conv map_of_eq_fst_set)
    then show ?thesis using Nil by (simp add: bt_get_eq)
  next
    case (Cons e rest)
    obtain k' v where e: "e = (k', v)" by (cases e)
    with Cons have "(k', v) \<in> set (in_range k k es)" by simp
    then have "k' = k" "(k, v) \<in> set es" by (auto simp: in_range_def)
    then have "bt_get es k = Some v" using bt_mem_get [OF wf] by blast
    then show ?thesis using Cons e by simp
  qed
  moreover have "filter (\<lambda>(_, v). v \<noteq> None) (in_range lo hi es)
      = filter (\<lambda>(k, v). lo \<le> k \<and> k \<le> hi \<and> v \<noteq> None) es"
    by (auto simp: in_range_def intro!: filter_cong)
  ultimately show ?thesis
    using get_ok [OF assms, of k] range_ok [OF assms, of k k] range_ok [OF assms, of lo hi]
    by (simp add: sst_range_def)
qed

section \<open>Reference counts\<close>

datatype handle_op = CloneHandle sst_handle | DropHandle sst_handle

fun apply_handle_op :: "handle_op \<Rightarrow> world \<Rightarrow> world" where
  "apply_handle_op (CloneHandle h) w = clone_handle h w"
| "apply_handle_op (DropHandle h) w = drop_handle h w"

fun handles_after :: "handle_op \<Rightarrow> sst_handle multiset \<Rightarrow> sst_handle multiset" where
  "handles_after (CloneHandle h) M = add_mset h M"
| "handles_after (DropHandle h) M = M - {#h#}"

text \<open>Each operation is on a handle that is alive, as the borrow checker ensures.\<close>

fun history_ok :: "handle_op list \<Rightarrow> sst_handle multiset \<Rightarrow> bool" where
  "history_ok [] M \<longleftrightarrow> True"
| "history_ok (e # es) M \<longleftrightarrow>
     (case e of CloneHandle h \<Rightarrow> h \<in># M | DropHandle h \<Rightarrow> h \<in># M) \<and> history_ok es (handles_after e M)"

definition counter_alive :: "nat \<Rightarrow> sst_handle multiset \<Rightarrow> bool" where
  "counter_alive a M \<longleftrightarrow> (\<exists>g \<in># M. h_arc g = a)"

lemma apply_handle_op_ok:
  assumes own: "owned w M" and ok: "disk_ok (w_disk w)" and e: "history_ok [e] M"
  shows "owned (apply_handle_op e w) (handles_after e M)" and "disk_ok (w_disk (apply_handle_op e w))"
    and "set_mset (handles_after e M) \<subseteq> set_mset M"
    and "keeps_files (w_disk w) (w_disk (apply_handle_op e w)) (handles_after e M)"
    and "counter_alive a M \<Longrightarrow> \<not> counter_alive a (handles_after e M) \<Longrightarrow>
      \<exists>h \<in># M. h_arc h = a \<and> (\<forall>p \<in> files_of h. file_contents (w_disk (apply_handle_op e w)) p = None)"
proof -
  have "owned (apply_handle_op e w) (handles_after e M) \<and> disk_ok (w_disk (apply_handle_op e w))
     \<and> set_mset (handles_after e M) \<subseteq> set_mset M
     \<and> keeps_files (w_disk w) (w_disk (apply_handle_op e w)) (handles_after e M)
     \<and> (counter_alive a M \<longrightarrow> \<not> counter_alive a (handles_after e M) \<longrightarrow>
      (\<exists>h \<in># M. h_arc h = a \<and> (\<forall>p \<in> files_of h. file_contents (w_disk (apply_handle_op e w)) p = None)))"
  proof (cases e)
    case (CloneHandle h)
    then show ?thesis
      using e own ok by (auto simp: owned_clone counter_alive_def)
  next
    case (DropHandle h)
    then have h: "h \<in># M" using e by simp
    have own': "owned w (add_mset h (M - {#h#}))" using own h by simp
    note d = owned_drop [OF own' ok]
    have gone: "\<exists>f \<in># M. h_arc f = a \<and> (\<forall>p \<in> files_of f. file_contents (w_disk (drop_handle h w)) p = None)"
      if "counter_alive a M" "\<not> counter_alive a (M - {#h#})"
    proof -
      from that(1) obtain g where g: "g \<in># M" "h_arc g = a" by (auto simp: counter_alive_def)
      have "g = h"
      proof (rule ccontr)
        assume "g \<noteq> h"
        then have "g \<in># M - {#h#}" using g(1) by (simp add: in_diff_count)
        with g(2) that(2) show False by (auto simp: counter_alive_def)
      qed
      then have "h_arc h = a" "\<forall>g \<in># M - {#h#}. h_arc g \<noteq> h_arc h"
        using g that(2) by (auto simp: counter_alive_def)
      with d(7) h show ?thesis by blast
    qed
    have "set_mset (M - {#h#}) \<subseteq> set_mset M" by (auto dest: in_diffD)
    note sub = this
    show ?thesis
      unfolding DropHandle apply_handle_op.simps handles_after.simps
      by (intro conjI impI sub d(1,2) drop_handle_keeps [OF own' ok] gone)
  qed
  then show "owned (apply_handle_op e w) (handles_after e M)" and "disk_ok (w_disk (apply_handle_op e w))"
    and "set_mset (handles_after e M) \<subseteq> set_mset M"
    and "keeps_files (w_disk w) (w_disk (apply_handle_op e w)) (handles_after e M)"
    and "counter_alive a M \<Longrightarrow> \<not> counter_alive a (handles_after e M) \<Longrightarrow>
      \<exists>h \<in># M. h_arc h = a \<and> (\<forall>p \<in> files_of h. file_contents (w_disk (apply_handle_op e w)) p = None)"
    by blast+
qed

lemma handles_after_same:
  "set_mset (handles_after e M) \<subseteq> set_mset M \<Longrightarrow>
   \<forall>f \<in># M. \<forall>g \<in># M. h_arc f = h_arc g \<longrightarrow> files_of f = files_of g \<Longrightarrow>
   \<forall>f \<in># handles_after e M. \<forall>g \<in># handles_after e M. h_arc f = h_arc g \<longrightarrow> files_of f = files_of g"
  by blast

lemma history_dead:
  assumes "owned w M" and "disk_ok (w_disk w)" and "history_ok es M" and "file_contents (w_disk w) p = None"
    and "\<not> counter_alive a M"
  shows "file_contents (w_disk (fold apply_handle_op es w)) p = None
    \<and> \<not> counter_alive a (fold handles_after es M)"
  using assms
proof (induction es arbitrary: w M)
  case (Cons e es)
  have e: "history_ok [e] M" and es: "history_ok es (handles_after e M)" using Cons.prems(3) by simp_all
  note s = apply_handle_op_ok [OF Cons.prems(1,2) e]
  have "file_contents (w_disk (apply_handle_op e w)) p = None"
    using s(4) Cons.prems(4) by (simp add: keeps_files_def)
  moreover have "\<not> counter_alive a (handles_after e M)"
    using s(3) Cons.prems(5) by (auto simp: counter_alive_def)
  ultimately show ?case using Cons.IH [OF s(1,2) es] by simp
qed simp

lemma history_files:
  assumes "owned w M" and "disk_ok (w_disk w)" and "history_ok es M" and "h \<in># M" and "p \<in> files_of h"
    and "\<forall>f \<in># M. \<forall>g \<in># M. h_arc f = h_arc g \<longrightarrow> files_of f = files_of g"
  shows "file_contents (w_disk (fold apply_handle_op es w)) p =
    (if counter_alive (h_arc h) (fold handles_after es M) then file_contents (w_disk w) p else None)"
  using assms
proof (induction es arbitrary: w M h)
  case Nil
  have "counter_alive (h_arc h) M" using Nil.prems(4) by (auto simp: counter_alive_def)
  then show ?case by simp
next
  case (Cons e es)
  have e: "history_ok [e] M" and es: "history_ok es (handles_after e M)" using Cons.prems(3) by simp_all
  note s = apply_handle_op_ok [OF Cons.prems(1,2) e]
  note same = handles_after_same [OF s(3) Cons.prems(6)]
  show ?case
  proof (cases "counter_alive (h_arc h) (handles_after e M)")
    case True
    then obtain g where g: "g \<in># handles_after e M" "h_arc g = h_arc h" by (auto simp: counter_alive_def)
    have "g \<in># M" using s(3) g(1) by (rule subsetD)
    from Cons.prems(6) [rule_format, OF this Cons.prems(4) g(2)] have p: "p \<in> files_of g"
      using Cons.prems(5) by simp
    have "file_contents (w_disk (apply_handle_op e w)) p = file_contents (w_disk w) p"
      using s(4) g(1) p by (simp add: keeps_files_def)
    with Cons.IH [OF s(1,2) es g(1) p same] g(2) show ?thesis by simp
  next
    case False
    moreover have "counter_alive (h_arc h) M" using Cons.prems(4) by (auto simp: counter_alive_def)
    ultimately obtain f where f: "f \<in># M" "h_arc f = h_arc h"
        "\<forall>p \<in> files_of f. file_contents (w_disk (apply_handle_op e w)) p = None"
      using s(5) [of "h_arc h"] by blast
    from Cons.prems(6) [rule_format, OF f(1) Cons.prems(4) f(2)] Cons.prems(5) f(3)
    have "file_contents (w_disk (apply_handle_op e w)) p = None" by simp
    from history_dead [OF s(1,2) es this False] show ?thesis by simp
  qed
qed

text \<open>
  C16. The files of a run live exactly as long as its handles. Over any history of clones and
  drops of live handles, a file of a run has its original bytes while some handle that shares
  the run's counter is alive, and is gone once the last of them was dropped; no drop of a
  handle of another run touches it.
\<close>

theorem files_live_exactly:
  assumes "owned w M" and "disk_ok (w_disk w)" and "history_ok es M" and "h \<in># M" and "p \<in> files_of h"
    and "\<forall>f \<in># M. \<forall>g \<in># M. h_arc f = h_arc g \<longrightarrow> files_of f = files_of g"
  shows "file_contents (w_disk (fold apply_handle_op es w)) p =
    (if counter_alive (h_arc h) (fold handles_after es M) then file_contents (w_disk w) p else None)"
  by (rule history_files [OF assms])

theorem files_live_exactly_witness:
  "\<exists>h w. run_ok sample_codecs (w_disk w) h [(Key [1], Some (Value [7]))]
     \<and> (\<forall>p \<in> files_of h.
           file_contents (w_disk (drop_handle h (clone_handle h w))) p = file_contents (w_disk w) p
           \<and> file_contents (w_disk (drop_handle h (drop_handle h (clone_handle h w)))) p = None)"
proof -
  have fits: "fits [(Key [1], Some (Value [7]))]" by (simp add: fits_def key_size_def opt_bytes_def)
  obtain h w where run: "run_ok sample_codecs (w_disk w) h [(Key [1], Some (Value [7]))]"
    and ok: "runs_ok sample_codecs [''active''] (Suc 1) w {#h#}"
    by (rule write_run_total [OF runs_ok_sample sample_codecs_total _ _ fits]) simp_all
  have own: "owned w {#h#}" and disk: "disk_ok (w_disk w)" using ok by (auto simp: runs_ok_def)
  have "file_contents (w_disk (drop_handle h (clone_handle h w))) p = file_contents (w_disk w) p
      \<and> file_contents (w_disk (drop_handle h (drop_handle h (clone_handle h w)))) p = None"
    if "p \<in> files_of h" for p
    using files_live_exactly [OF own disk _ _ that, of "[CloneHandle h, DropHandle h]"]
      files_live_exactly [OF own disk _ _ that, of "[CloneHandle h, DropHandle h, DropHandle h]"]
    by (simp add: counter_alive_def)
  with run show ?thesis by blast
qed

end
