(* ===== verification/QueryProperties.thy ===== *)
theory QueryProperties
  imports Samples "HOL-Library.Sublist"
begin

text \<open>
  Properties of the queries and the batch operations of one tree: prefix scans, batches, the
  iterator.
\<close>

section \<open>A tree with some keys in its memtable\<close>

definition memtable_tree :: "(key \<times> lsm_value) list \<Rightarrow> lsm_tree" where
  "memtable_tree es = sample_tree\<lparr>lt_memtable := fold (\<lambda>(k, v). mt_insert k v) es (mt_new 0)\<rparr>"

lemma memtable_tree_ok: "tree_ok x (memtable_tree es) {#}"
proof -
  have "mt_ok (fold (\<lambda>(k, v). mt_insert k v) es (mt_new 0))" using fold_mt_insert [of "mt_new 0"] by simp
  then show ?thesis using tree_ok_sample by (simp add: memtable_tree_def tree_ok_def)
qed

lemma memtable_tree_view: "tree_view (memtable_tree es) = map_of (rev es)"
proof -
  have "store_map (lt_store sample_tree) = Map.empty"
    using tree_map_sample by (simp add: tree_map_def memtables_map_def sample_tree_def mt_new_def mt_get_def bt_get_eq)
  moreover have "mt_get (fold (\<lambda>(k, v). mt_insert k v) es (mt_new 0)) = (\<lambda>k. map_option Some (map_of (rev es) k))"
    using fold_mt_insert [of "mt_new 0" es] by (simp add: map_add_def option.case_eq_if)
  moreover have "lt_immutables sample_tree = []" by (simp add: sample_tree_def)
  ultimately show ?thesis
    by (auto simp: fun_eq_iff tree_view_def tree_map_def memtable_tree_def memtables_map_def live_def
        map_add_def split: option.split)
qed

section \<open>Prefix scans\<close>

lemma byte_less_Suc: "(b :: byte) \<noteq> 0xFF \<Longrightarrow> c < b + 1 \<longleftrightarrow> c \<le> b"
proof -
  assume "b \<noteq> 0xFF"
  then have "unat b \<noteq> 255" by (simp add: word_unat_eq_iff)
  moreover have "unat b < 2 ^ LENGTH(8)" by (rule unsigned_less)
  ultimately have "unat b < 255" by simp
  then have "unat (b + 1) = unat b + 1" by (simp add: unat_word_ariths)
  then show ?thesis by (simp add: word_less_nat_alt word_le_nat_alt less_Suc_eq_le)
qed

text \<open>The keys between a prefix and its end key, compared as byte strings.\<close>

lemma prefix_between:
  assumes "b \<noteq> 0xFF"
  shows "q @ [b] \<le> (ks :: byte list) \<and> ks \<le> q @ [b + 1] \<longleftrightarrow> prefix (q @ [b]) ks \<or> ks = q @ [b + 1]"
proof (induction q arbitrary: ks)
  case Nil
  show ?case
  proof (cases ks)
    case (Cons c cs)
    have "b < b + 1" using byte_less_Suc [OF assms, of b] by simp
    then show ?thesis using Cons byte_less_Suc [OF assms, of c] by auto
  qed simp
next
  case (Cons a q)
  show ?case
  proof (cases ks)
    case (Cons c cs)
    then show ?thesis using Cons.IH [of cs] by auto
  qed simp
qed

lemma between_snoc_zero: "p \<le> (ks :: byte list) \<and> ks \<le> p @ [0] \<longleftrightarrow> ks = p \<or> ks = p @ [0]"
proof (induction p arbitrary: ks)
  case Nil
  show ?case by (cases ks) auto
next
  case (Cons a p)
  show ?case
  proof (cases ks)
    case (Cons c cs)
    then show ?thesis using Cons.IH [of cs] by auto
  qed simp
qed

text \<open>
  C18. A prefix scan gives, in key order and without duplicates, the live bindings whose key has
  the prefix and the binding of the end key, which the inclusive upper bound lets in, when the
  prefix does not end in the byte 255. When it does, the scan goes up to the prefix followed by
  a zero byte: it finds at most two keys, and misses every other key with the prefix.
\<close>

theorem scan_prefix_exact:
  assumes t: "tree_ok x t M"
  shows "sorted_wrt (<) (map fst (ri_entries (scan_prefix t (q @ [b]))))
    \<and> (\<forall>k v. (k, v) \<in> set (ri_entries (scan_prefix t (q @ [b]))) \<longleftrightarrow> tree_view t k = Some v
        \<and> (if b = 0xFF then k = Key (q @ [0xFF]) \<or> k = Key (q @ [0xFF, 0])
           else prefix (q @ [b]) (key_bytes k) \<or> k = Key (q @ [b + 1])))"
proof -
  have "(k, v) \<in> set (ri_entries (scan_prefix t (q @ [b]))) \<longleftrightarrow> tree_view t k = Some v
      \<and> (if b = 0xFF then k = Key (q @ [0xFF]) \<or> k = Key (q @ [0xFF, 0])
         else prefix (q @ [b]) (key_bytes k) \<or> k = Key (q @ [b + 1]))" for k v
  proof (cases "b = 0xFF")
    case True
    have e: "prefix_end (q @ [0xFF]) = (q @ [0xFF]) @ [0]" by (simp add: prefix_end_def)
    show ?thesis
      unfolding True scan_prefix_def tree_range_entries(2) [OF t] e
      using between_snoc_zero [of "q @ [0xFF]" "key_bytes k"] by (cases k) auto
  next
    case False
    then have e: "prefix_end (q @ [b]) = q @ [b + 1]" by (simp add: prefix_end_def)
    show ?thesis
      unfolding scan_prefix_def tree_range_entries(2) [OF t] e
      using prefix_between [OF False, of q "key_bytes k"] False by (cases k) auto
  qed
  then show ?thesis using tree_range_entries(1) [OF t] by (simp add: scan_prefix_def)
qed

definition scan_tree :: lsm_tree where
  "scan_tree = memtable_tree [(Key [1, 9], Value [1]), (Key [2], Value [2]), (Key [3], Value [3]),
     (Key [5, 255], Value [4]), (Key [5, 255, 7], Value [5])]"

theorem scan_prefix_exact_witness:
  "(Key [1, 9], Value [1]) \<in> set (ri_entries (scan_prefix scan_tree [1]))
   \<and> (Key [2], Value [2]) \<in> set (ri_entries (scan_prefix scan_tree [1]))
   \<and> (Key [3], Value [3]) \<notin> set (ri_entries (scan_prefix scan_tree [1]))
   \<and> tree_view scan_tree (Key [5, 255, 7]) = Some (Value [5])
   \<and> (Key [5, 255], Value [4]) \<in> set (ri_entries (scan_prefix scan_tree [5, 255]))
   \<and> (Key [5, 255, 7], Value [5]) \<notin> set (ri_entries (scan_prefix scan_tree [5, 255]))"
  using scan_prefix_exact [OF memtable_tree_ok, where q = "[]" and b = 1]
    scan_prefix_exact [OF memtable_tree_ok, where q = "[5]" and b = 255]
  by (simp add: scan_tree_def memtable_tree_view)

section \<open>Batches\<close>

lemma get_batch_iff: "get_batch x t qs = Inr vs \<longleftrightarrow> map (tree_get x t) qs = map Inr vs"
proof (induction qs arbitrary: vs)
  case (Cons q qs)
  then show ?case by (cases vs) (auto simp: res_bind_eq_Inr)
qed auto

text \<open>
  A batch is its single operations. Inserting a batch succeeds and gives the view that
  inserting its pairs one after the other gives, so the last value of a repeated key wins;
  deleting a batch removes exactly its keys; and a batch of lookups answers with the list of
  the single answers, or fails when one of them fails.
\<close>

lemma batches_are_sequences:
  assumes t: "tree_ok x t M" and total: "codecs_total x"
    and "fits (mt_data (fold (\<lambda>(k, v). mt_insert k v) es (lt_memtable t)))"
    and "fits (mt_data (fold mt_delete ks (lt_memtable t)))"
  shows "(\<exists>t'. insert_batch x es t = (Inr (), t') \<and> tree_ok x t' M
        \<and> tree_view t' = fold (\<lambda>(k, v) m. m(k \<mapsto> v)) es (tree_view t))
    \<and> (\<exists>t'. delete_batch x ks t = (Inr (), t') \<and> tree_ok x t' M
        \<and> tree_view t' = fold (\<lambda>k m. m(k := None)) ks (tree_view t))
    \<and> (\<forall>qs vs. get_batch x t qs = Inr vs \<longleftrightarrow> map (tree_get x t) qs = map Inr vs)"
proof -
  obtain t1 where "insert_batch x es t = (Inr (), t1)"
      "flushed x (t\<lparr>lt_memtable := fold (\<lambda>(k, v). mt_insert k v) es (lt_memtable t)\<rparr>) t1 M"
      "tree_view t1 = fold (\<lambda>(k, v) m. m(k \<mapsto> v)) es (tree_view t)"
    by (rule insert_batch_ok [OF t total assms(3)])
  moreover obtain t2 where "delete_batch x ks t = (Inr (), t2)"
      "flushed x (t\<lparr>lt_memtable := fold mt_delete ks (lt_memtable t)\<rparr>) t2 M"
      "tree_view t2 = fold (\<lambda>k m. m(k := None)) ks (tree_view t)"
    by (rule delete_batch_ok [OF t total assms(4)])
  moreover have "get_batch x t qs = Inr vs \<longleftrightarrow> map (tree_get x t) qs = map Inr vs" for qs vs
    by (rule get_batch_iff)
  ultimately show ?thesis by (auto simp: flushed_def)
qed

section \<open>The iterator\<close>

fun take_next :: "nat \<Rightarrow> range_iter \<Rightarrow> (key \<times> lsm_value) option list" where
  "take_next 0 it = []"
| "take_next (Suc n) it = (case range_iter_next it of (e, it') \<Rightarrow> e # take_next n it')"

lemma take_next_end: "length (ri_entries it) \<le> ri_index it \<Longrightarrow> take_next n it = replicate n None"
  by (induction n) (simp_all add: range_iter_next_def)

lemma take_next_from:
  "ri_index it \<le> length (ri_entries it) \<Longrightarrow>
   take_next (length (ri_entries it) - ri_index it + n) it = map Some (drop (ri_index it) (ri_entries it)) @ replicate n None"
proof (induction "length (ri_entries it) - ri_index it" arbitrary: it)
  case 0
  then show ?case by (simp add: take_next_end)
next
  case (Suc l)
  let ?it = "it\<lparr>ri_index := Suc (ri_index it)\<rparr>"
  have less: "ri_index it < length (ri_entries it)" using Suc.hyps(2) by simp
  have l: "length (ri_entries it) - ri_index it + n = Suc (length (ri_entries ?it) - ri_index ?it + n)"
    using less by simp
  have "take_next (length (ri_entries ?it) - ri_index ?it + n) ?it
      = map Some (drop (ri_index ?it) (ri_entries ?it)) @ replicate n None"
    by (rule Suc.hyps(1)) (use Suc.hyps(2) less in auto)
  then show ?case unfolding l using less by (simp add: range_iter_next_def Cons_nth_drop_Suc [symmetric])
qed

text \<open>
  C19. Draining the iterator of a range gives every live binding between the bounds exactly
  once and in key order, and then \<open>None\<close> on every further call.
\<close>

theorem range_iterator_drains:
  assumes "tree_ok x t M"
  shows "\<exists>es. (\<forall>n. take_next (length es + n) (tree_range t lo hi) = map Some es @ replicate n None)
    \<and> sorted_wrt (<) (map fst es) \<and> map_of es = tree_view t |` {lo..hi}"
proof -
  let ?es = "ri_entries (tree_range t lo hi)"
  note r = tree_range_entries [OF assms, where lo = lo and hi = hi]
  have d: "distinct (map fst ?es)" by (rule sorted_wrt_less_distinct [OF tree_range_entries(1) [OF assms]])
  have "map_of ?es k = (tree_view t |` {lo..hi}) k" for k
  proof (cases "map_of ?es k")
    case None
    then have "\<forall>v. (k, v) \<notin> set ?es" by (auto simp: map_of_eq_None_iff image_iff)
    then show ?thesis using None r(2) by (cases "tree_view t k") (auto simp: restrict_map_def)
  next
    case (Some v)
    then have "(k, v) \<in> set ?es" by (rule map_of_SomeD)
    then show ?thesis using Some r(2) by (simp add: restrict_map_def)
  qed
  then have "map_of ?es = tree_view t |` {lo..hi}" by (rule ext)
  then show ?thesis
    using take_next_from [of "tree_range t lo hi"] tree_range_entries(1,3) [OF assms]
    by (intro exI [of _ ?es]) simp
qed

theorem range_iterator_drains_witness:
  "\<exists>es. take_next (length es + 2) (tree_range scan_tree (Key [2]) (Key [4])) = map Some es @ [None, None]
     \<and> map_of es (Key [3]) = Some (Value [3])"
proof -
  obtain es where es: "\<forall>n. take_next (length es + n) (tree_range scan_tree (Key [2]) (Key [4]))
        = map Some es @ replicate n None"
      "map_of es = tree_view scan_tree |` {Key [2]..Key [4]}"
    using range_iterator_drains [OF memtable_tree_ok] unfolding scan_tree_def by blast
  have "replicate 2 None = [None, None :: (key \<times> lsm_value) option]" by (simp add: numeral_2_eq_2)
  moreover have "map_of es (Key [3]) = Some (Value [3])"
    unfolding es(2) by (simp add: scan_tree_def memtable_tree_view restrict_map_def)
  moreover note es(1) [rule_format, of 2]
  ultimately show ?thesis by (intro exI [of _ es] conjI) (simp_all only:)
qed

end
