(* ===== verification/SnapshotView.thy ===== *)
theory SnapshotView
  imports CompactionProperties RunProperties
begin

text \<open>
  What the iterator of an in-memory snapshot gives, compared with a lookup in the same
  snapshot, and what is left on disk when a tree is dropped.
\<close>

section \<open>The iterator of a snapshot\<close>

lemma sst_range_entries:
  assumes "run_ok x d h es"
  shows "sst_range h lo hi Sync d = Inr (filter (\<lambda>(k, v). v \<noteq> None) (bt_range lo hi es))"
  by (simp add: sst_range_def sst.scan_repr [OF run_ok_table [OF assms]])

lemma merge_skip_absent_get:
  assumes "present x d hs" and "bt_wf m" and "scannable k"
  shows "bt_wf (merge_skip_absent (\<lambda>h. sst_range h min_scan_key max_scan_key Sync d) hs m)
    \<and> bt_get (merge_skip_absent (\<lambda>h. sst_range h min_scan_key max_scan_key Sync d) hs m) k =
      (case bt_get m k of
         Some v \<Rightarrow> Some v
       | None \<Rightarrow> map_option Some (first_live (map (\<lambda>h. run_map d h k) hs)))"
  using assms
proof (induction hs arbitrary: m)
  case Nil
  then show ?case by (simp split: option.split)
next
  case (Cons h hs)
  obtain es where es: "run_ok x d h es" using Cons.prems(1) by (auto simp: present_def)
  have wf: "bt_wf es" by (rule run_ok_wf [OF es])
  let ?r = "filter (\<lambda>(k, v). v \<noteq> None) (bt_range min_scan_key max_scan_key es)"
  have r: "bt_wf ?r" "bt_get ?r k = (case run_map d h k of Some (Some v) \<Rightarrow> Some (Some v) | _ \<Rightarrow> None)"
    using wf Cons.prems(3) bt_get_filter_value [OF bt_wf_range [OF wf], of "\<lambda>v. v \<noteq> None" min_scan_key max_scan_key k]
    by (auto simp: run_map_def entries_of_run [OF es] scannable_def split: option.splits)
  have p: "present x d hs" using Cons.prems(1) by (simp add: present_def)
  have m: "bt_wf (bt_extend_absent ?r m)" using Cons.prems(2) by simp
  have first: "first_live (map (\<lambda>h. run_map d h k) (h # hs)) =
      (case run_map d h k of Some (Some v) \<Rightarrow> Some v | _ \<Rightarrow> first_live (map (\<lambda>h. run_map d h k) hs))"
    by (cases "run_map d h k"; cases "the (run_map d h k)") auto
  from Cons.IH [OF p m Cons.prems(3)] show ?case
    using r Cons.prems(2) unfolding first
    by (simp add: sst_range_entries [OF es] map_add_def split: option.splits)
qed

definition snapshot_present :: "codecs \<Rightarrow> disk \<Rightarrow> lsm_snapshot \<Rightarrow> bool" where
  "snapshot_present x d sn \<longleftrightarrow>
     present x d (concat (sn_levels sn)) \<and> mt_ok (sn_memtable sn) \<and> sn_immutables sn = []"

text \<open>
  C20. The iterator of a snapshot and a lookup in it disagree on overwritten keys. For a key the
  memtable does not hold, \<open>get\<close> answers with the first live value found newest run first,
  \<open>iter\<close> with the first one found from the deepest level up, oldest run first: the iterator
  lists, in key order, the oldest value that some run still holds, not the current one.
\<close>

theorem snapshot_iter_oldest:
  assumes sn: "snapshot_present x d sn" and k: "scannable k"
  shows "snapshot_get x d sn k = Inr (case mt_get (sn_memtable sn) k of
        Some v \<Rightarrow> v | None \<Rightarrow> first_live (map (\<lambda>h. run_map d h k) (concat (map rev (sn_levels sn)))))
    \<and> sorted_wrt (<) (map fst (ri_entries (snapshot_iter d sn)))
    \<and> map_of (ri_entries (snapshot_iter d sn)) k = (case mt_get (sn_memtable sn) k of
        Some v \<Rightarrow> v | None \<Rightarrow> first_live (map (\<lambda>h. run_map d h k) (concat (rev (sn_levels sn)))))"
proof -
  have p: "present x d (concat (sn_levels sn))" "present x d (concat (rev (sn_levels sn)))"
    and mem: "mt_ok (sn_memtable sn)" "sn_immutables sn = []"
    using sn by (auto simp: snapshot_present_def present_def)
  let ?m0 = "merge_skip_absent (\<lambda>h. sst_range h min_scan_key max_scan_key Sync d) (concat (rev (sn_levels sn))) []"
  let ?m = "bt_extend (mt_iter (sn_memtable sn)) ?m0"
  note m0 = merge_skip_absent_get [OF p(2) bt_wf_Nil k]
  have wf: "bt_wf ?m" and get: "bt_get ?m k = (case mt_get (sn_memtable sn) k of
      Some v \<Rightarrow> Some v | None \<Rightarrow> map_option Some (first_live (map (\<lambda>h. run_map d h k) (concat (rev (sn_levels sn))))))"
    using m0 mem by (simp_all add: mt_iter_def map_add_def bt_get_mt_data split: option.split)
  have it: "ri_entries (snapshot_iter d sn) = live_entries ?m"
    using mem(2) by (simp add: snapshot_iter_def Let_def)
  have d: "distinct (map fst (live_entries ?m))"
    by (rule sorted_wrt_less_distinct [OF live_entries_sorted [OF wf]])
  have "map_of (live_entries ?m) k = live (bt_get ?m) k"
  proof (cases "live (bt_get ?m) k")
    case None
    then have "\<forall>v. (k, v) \<notin> set (live_entries ?m)" using live_entries_iff [OF wf] by simp
    then show ?thesis using None by (auto simp: map_of_eq_None_iff image_iff)
  next
    case (Some v)
    then have "(k, v) \<in> set (live_entries ?m)" using live_entries_iff [OF wf] by simp
    with d show ?thesis using Some by simp
  qed
  moreover have "live (bt_get ?m) k = (case mt_get (sn_memtable sn) k of
      Some v \<Rightarrow> v | None \<Rightarrow> first_live (map (\<lambda>h. run_map d h k) (concat (rev (sn_levels sn)))))"
    by (simp only: live_def get) (cases "first_live (map (\<lambda>h. run_map d h k) (concat (rev (sn_levels sn))))";
      simp split: option.split)
  moreover have "snapshot_get x d sn k = Inr (case mt_get (sn_memtable sn) k of
      Some v \<Rightarrow> v | None \<Rightarrow> first_live (map (\<lambda>h. run_map d h k) (concat (map rev (sn_levels sn)))))"
    using mem(2) by (simp add: snapshot_get_def search_levels_eq [OF p(1)] comp_def split: option.split)
  ultimately show ?thesis using live_entries_sorted [OF wf] by (simp add: it)
qed

theorem snapshot_iter_oldest_witness:
  "\<exists>d sn. snapshot_get sample_codecs d sn (Key [1]) = Inr (Some (Value [7]))
     \<and> map_of (ri_entries (snapshot_iter d sn)) (Key [1]) = Some (Value [8])"
proof (rule two_runs [OF tables_fine(1,2), of False])
  let ?t = "tables_tree [table_7, table_8] (two_levels False)"
  let ?sn = "fst (tree_snapshot ?t)"
  fix a b
  assume ok: "tree_ok sample_codecs ?t {#}"
    and ls: "tree_levels ?t = (if False then [b] # [a] # replicate 5 [] else [a] # [b] # replicate 5 [])"
    and map: "run_map (tree_disk ?t) a = bt_get table_7" "run_map (tree_disk ?t) b = bt_get table_8"
  have ls: "sn_levels ?sn = [[a], [b], [], [], [], [], []]"
    using ls by (simp add: tree_snapshot_def numeral_eq_Suc)
  have mem: "mt_get (sn_memtable ?sn) (Key [1]) = None"
    by (simp add: tree_snapshot_def tables_tree_def sample_tree_def)
  have "snapshot_present sample_codecs (tree_disk ?t) ?sn"
    using ok tree_runs_present [OF ok, of "concat (tree_levels ?t)"]
    by (simp add: snapshot_present_def tree_ok_def tree_snapshot_def)
  moreover have "scannable (Key [1])" by (rule scannable_short) (simp add: key_size_def)
  ultimately show ?thesis
    using snapshot_iter_oldest [of sample_codecs "tree_disk ?t" ?sn "Key [1]"]
    by (intro exI [of _ "tree_disk ?t"] exI [of _ ?sn]) (simp add: ls mem map)
qed (simp_all add: table_7_def table_8_def)

section \<open>Dropping a tree\<close>

text \<open>
  C21. Dropping a tree removes the five files of each of its runs from the active directory,
  unless a snapshot in memory shares the run; the files of those stay as they were. What was
  not saved as a snapshot is gone, and opening the directory again finds none of the runs.
\<close>

theorem drop_removes_runs:
  assumes t: "tree_ok x t M" and h: "h \<in> set (concat (tree_levels t))" and p: "p \<in> files_of h"
    and same: "\<forall>f \<in># mset (concat (tree_levels t)) + M. \<forall>g \<in># mset (concat (tree_levels t)) + M.
      h_arc f = h_arc g \<longrightarrow> files_of f = files_of g"
  shows "file_contents (tree_disk (tree_drop t)) p =
      (if \<exists>g \<in># M. h_arc g = h_arc h then file_contents (tree_disk t) p else None)"
proof -
  let ?hs = "concat (tree_levels t)" and ?w = "st_world (lt_store t)"
  have own: "owned ?w (mset ?hs + M)" "disk_ok (w_disk ?w)"
    using t by (auto simp: tree_ok_def store_ok_def runs_ok_def tree_levels_def)
  have ok: "history_ok (map DropHandle gs) (mset gs + M)" for gs by (induction gs) simp_all
  have after: "fold handles_after (map DropHandle gs) (mset gs + M) = M" for gs
    by (induction gs) simp_all
  have drops: "fold apply_handle_op (map DropHandle gs) w = drop_handles gs w" for gs w
    by (induction gs arbitrary: w) (simp_all add: drop_handles_def)
  have "h \<in># mset ?hs + M" using h by simp
  from history_files [OF own ok this p same]
  have "file_contents (w_disk (drop_handles ?hs ?w)) p =
      (if counter_alive (h_arc h) M then file_contents (w_disk ?w) p else None)"
    by (simp only: after drops)
  then show ?thesis by (simp add: tree_drop_def tree_disk_def drop_in_def counter_alive_def)
qed

definition first_level :: "sst_handle list \<Rightarrow> sst_handle list list" where
  "first_level hs = hs # replicate 6 []"

theorem drop_removes_runs_witness:
  "\<exists>t h p. tree_view t (Key [1]) = Some (Value [7]) \<and> p \<in> files_of h
     \<and> file_contents (tree_disk t) p \<noteq> None \<and> file_contents (tree_disk (tree_drop t)) p = None"
proof -
  let ?t = "tables_tree [table_7] first_level"
  have fine: "\<forall>es \<in> set [table_7]. table_fine es" by (simp add: tables_fine)
  have place: "mset (concat (first_level hs)) = mset hs \<and> length (first_level hs) = 7
      \<and> length (first_level hs ! 6) \<le> 1" for hs
    by (simp add: first_level_def nth_Cons')
  obtain hs where hs: "tree_ok sample_codecs ?t {#}" "tree_levels ?t = first_level hs"
      "list_all2 (run_ok sample_codecs (tree_disk ?t)) hs [table_7]"
    by (rule tables_tree_ok [OF fine place])
  then obtain h where h: "hs = [h]" "run_ok sample_codecs (tree_disk ?t) h table_7"
    by (auto simp: list_all2_Cons2)
  let ?p = "rp_keyops (h_paths h)"
  have cc: "concat (tree_levels ?t) = [h]" by (simp add: hs(2) h(1) first_level_def)
  have "tree_view ?t (Key [1]) = Some (Value [7])"
  proof -
    have "levels_map d (replicate n []) = Map.empty" for d n by (induction n) simp_all
    then show ?thesis
      by (simp add: tree_view_tables hs(2) h(1) first_level_def run_map_def entries_of_run [OF h(2)] live_def)
  qed
  moreover have "file_contents (tree_disk ?t) ?p \<noteq> None" using h(2) by (simp add: run_ok_def table_ok_def)
  moreover have p: "?p \<in> files_of h" by (simp add: files_of_def run_files_def)
  moreover from drop_removes_runs [OF hs(1) _ p] have "file_contents (tree_disk (tree_drop ?t)) ?p = None"
    unfolding cc by simp
  ultimately show ?thesis by blast
qed

end
