(* ===== verification/AtomicFile.thy ===== *)
theory AtomicFile
  imports Checksum
begin

text \<open>
  \<open>src/atomic_file.rs\<close>: a file is written under a temporary name, synced, renamed over the
  final name, and the directory is synced. \<open>AtomicFileWriter\<close> buffers its writes in a
  \<open>BufWriter\<close> of 8192 bytes. The definitions take the file system calls they make from a record,
  so that the same code runs on a plain disk and on one that may crash. What a dropped
  \<open>BufWriter\<close> still holds goes to a file whose only name is removed, and is left out. What readers see at each
  moment is proved here, on the plain disk; the next theory adds crashes.
\<close>

section \<open>The file system calls\<close>

text \<open>\<open>OpenOptions\<close> with \<open>create\<close> and \<open>truncate\<close>, \<open>write\<close>, \<open>sync_all\<close>, \<open>rename\<close>, \<open>remove_file\<close> and
  \<open>fsync_directory\<close>, on the states \<open>'d\<close> of a file system.\<close>

record 'd file_calls =
  fc_create :: "path \<Rightarrow> ('d, nat) io"
  fc_append :: "nat \<Rightarrow> byte list \<Rightarrow> ('d, unit) io"
  fc_sync :: "nat \<Rightarrow> ('d, unit) io"
  fc_rename :: "path \<Rightarrow> path \<Rightarrow> ('d, unit) io"
  fc_remove :: "path \<Rightarrow> ('d, unit) io"
  fc_sync_dir :: "path \<Rightarrow> ('d, unit) io"

definition fsync_directory :: "path \<Rightarrow> (disk, unit) io" where
  "fsync_directory p = fs_sync_path p"

definition disk_calls :: "disk file_calls" where
  "disk_calls = \<lparr>fc_create = fs_create, fc_append = fs_append, fc_sync = fs_sync, fc_rename = fs_rename,
     fc_remove = fs_remove, fc_sync_dir = fsync_directory\<rparr>"

lemma disk_calls_simps [simp]:
  "fc_create disk_calls = fs_create" "fc_append disk_calls = fs_append" "fc_sync disk_calls = fs_sync"
  "fc_rename disk_calls = fs_rename" "fc_remove disk_calls = fs_remove" "fc_sync_dir disk_calls = fsync_directory"
  by (simp_all add: disk_calls_def)

section \<open>The writer\<close>

record buf_writer =
  bw_file :: nat
  bw_buf :: "byte list"

definition buf_capacity :: nat where
  "buf_capacity = 8192"

definition bw_flush :: "'d file_calls \<Rightarrow> buf_writer \<Rightarrow> ('d, buf_writer) io" where
  "bw_flush c b =
     io_bind (fc_append c (bw_file b) (bw_buf b)) (\<lambda>_. io_return (b\<lparr>bw_buf := []\<rparr>))"

text \<open>\<open>BufWriter::write_all\<close>: flush when the data does not fit, write large data through.\<close>

definition bw_write_all :: "'d file_calls \<Rightarrow> buf_writer \<Rightarrow> byte list \<Rightarrow> ('d, buf_writer) io" where
  "bw_write_all c b data =
     io_bind (if buf_capacity < length (bw_buf b) + length data then bw_flush c b else io_return b) (\<lambda>b.
     if buf_capacity \<le> length data
     then io_bind (fc_append c (bw_file b) data) (\<lambda>_. io_return b)
     else io_return (b\<lparr>bw_buf := bw_buf b @ data\<rparr>))"

record atomic_writer =
  aw_temp_path :: path
  aw_final_path :: path
  aw_file :: "buf_writer option"
  aw_committed :: bool

definition temp_path_for :: "path \<Rightarrow> path" where
  "temp_path_for p =
     (case file_extension (last p) of
        Some ext \<Rightarrow> with_extension p (ext @ ''.tmp'')
      | None \<Rightarrow> butlast p @ [last p @ ''.tmp''])"

definition aw_new :: "'d file_calls \<Rightarrow> path \<Rightarrow> ('d, atomic_writer) io" where
  "aw_new c final_path =
     (let temp_path = temp_path_for final_path in
      io_bind (fc_create c temp_path) (\<lambda>file.
      io_return \<lparr>aw_temp_path = temp_path, aw_final_path = final_path,
                 aw_file = Some \<lparr>bw_file = file, bw_buf = []\<rparr>, aw_committed = False\<rparr>))"

definition aw_write_all :: "'d file_calls \<Rightarrow> atomic_writer \<Rightarrow> byte list \<Rightarrow> ('d, atomic_writer) io" where
  "aw_write_all c self data =
     (case aw_file self of
        None \<Rightarrow> io_fail (Io OtherIo)
      | Some b \<Rightarrow> io_bind (bw_write_all c b data) (\<lambda>b. io_return (self\<lparr>aw_file := Some b\<rparr>)))"

definition aw_drop :: "'d file_calls \<Rightarrow> atomic_writer \<Rightarrow> 'd \<Rightarrow> 'd" where
  "aw_drop c self d = (if aw_committed self then d else snd (fc_remove c (aw_temp_path self) d))"

text \<open>The steps of \<open>commit\<close>, and \<open>commit\<close> itself, which drops the writer at its end.\<close>

definition aw_commit_steps :: "'d file_calls \<Rightarrow> atomic_writer \<Rightarrow> ('d, atomic_writer) io" where
  "aw_commit_steps c self =
     (case aw_file self of
        None \<Rightarrow> io_fail (Io OtherIo)
      | Some b \<Rightarrow>
          io_bind (bw_flush c b) (\<lambda>b.
          io_bind (fc_sync c (bw_file b)) (\<lambda>_.
          io_bind (fc_rename c (aw_temp_path self) (aw_final_path self)) (\<lambda>_.
          io_bind (fc_sync_dir c (butlast (aw_final_path self))) (\<lambda>_.
          io_return (self\<lparr>aw_file := None, aw_committed := True\<rparr>))))))"

definition aw_commit :: "'d file_calls \<Rightarrow> atomic_writer \<Rightarrow> ('d, unit) io" where
  "aw_commit c self d =
     (case aw_commit_steps c self d of
        (Inl e, d') \<Rightarrow> (Inl e, aw_drop c self d')
      | (Inr self', d') \<Rightarrow> (Inr (), aw_drop c self' d'))"

text \<open>The writes of a caller, one after the other.\<close>

fun aw_write_many :: "'d file_calls \<Rightarrow> atomic_writer \<Rightarrow> byte list list \<Rightarrow> ('d, atomic_writer) io" where
  "aw_write_many c self [] = io_return self"
| "aw_write_many c self (bs # bss) = io_bind (aw_write_all c self bs) (\<lambda>self. aw_write_many c self bss)"

text \<open>A caller that opens a writer, writes and commits; the first error drops the writer.\<close>

definition atomic_write :: "'d file_calls \<Rightarrow> path \<Rightarrow> byte list list \<Rightarrow> ('d, unit) io" where
  "atomic_write c p bss =
     io_bind (aw_new c p) (\<lambda>writer d.
       case aw_write_many c writer bss d of
         (Inl e, d') \<Rightarrow> (Inl e, aw_drop c writer d')
       | (Inr writer', d') \<Rightarrow> aw_commit c writer' d')"

section \<open>The temporary name\<close>

lemma temp_path_eq: "temp_path_for p = butlast p @ [last p @ ''.tmp'']"
proof (cases "dropWhile (\<lambda>c. c \<noteq> CHR ''.'') (rev (last p))")
  case Nil
  then show ?thesis unfolding temp_path_for_def file_extension_def by (simp del: dropWhile_eq_Nil_conv)
next
  case (Cons c r)
  show ?thesis
  proof (cases "r = []")
    case True
    then show ?thesis using Cons by (simp add: temp_path_for_def file_extension_def)
  next
    case False
    let ?n = "last p" and ?t = "takeWhile (\<lambda>c. c \<noteq> CHR ''.'') (rev (last p))"
    have "c = CHR ''.''" using Cons hd_dropWhile [of "\<lambda>c. c \<noteq> CHR ''.''" "rev ?n"] by simp
    then have "rev ?n = ?t @ CHR ''.'' # r"
      using Cons takeWhile_dropWhile_id [of "\<lambda>c. c \<noteq> CHR ''.''" "rev ?n"] by simp
    then have "?n = rev r @ CHR ''.'' # rev ?t" by (metis append_Cons append_Nil append_assoc rev.simps(2) rev_append rev_rev_ident)
    then show ?thesis
      using Cons False
      by (simp add: temp_path_for_def file_extension_def with_extension_def file_stem_def)
  qed
qed

lemma temp_path_other [simp]: "p \<noteq> [] \<Longrightarrow> temp_path_for p \<noteq> p"
  by (cases p rule: rev_cases) (simp_all add: temp_path_eq)

lemma butlast_temp_path [simp]: "butlast (temp_path_for p) = butlast p"
  by (simp add: temp_path_eq)

section \<open>What readers see\<close>

text \<open>The file being written has received \<open>bs\<close>, part of it still in the buffer.\<close>

definition aw_tracks :: "disk \<Rightarrow> atomic_writer \<Rightarrow> byte list \<Rightarrow> bool" where
  "aw_tracks d w bs \<longleftrightarrow>
     (\<exists>b. aw_file w = Some b \<and> sole_name d (bw_file b) (aw_temp_path w)
        \<and> d_data d (bw_file b) @ bw_buf b = bs)
     \<and> \<not> aw_committed w \<and> disk_ok d"

text \<open>Two disks on which every path but one reads the same.\<close>

definition same_but :: "path \<Rightarrow> disk \<Rightarrow> disk \<Rightarrow> bool" where
  "same_but q d d' \<longleftrightarrow>
     d_dirs d' = d_dirs d \<and> (\<forall>p. p \<noteq> q \<longrightarrow> file_contents d' p = file_contents d p)"

lemma same_but_trans: "same_but q d d' \<Longrightarrow> same_but q d' d'' \<Longrightarrow> same_but q d d''"
  by (simp add: same_but_def)

text \<open>The temporary name is free, or a left-over file that has no other name.\<close>

definition temp_free :: "disk \<Rightarrow> path \<Rightarrow> bool" where
  "temp_free d q \<longleftrightarrow> q \<notin> set (d_dirs d)
     \<and> (\<forall>i. map_of (d_names d) q = Some i \<longrightarrow> sole_name d i q)"

lemma fs_create_ok:
  assumes "disk_ok d" and "temp_free d q" and "butlast q \<in> set (d_dirs d)"
  obtains i d' where "fs_create q d = (Inr i, d')" and "sole_name d' i q" and "d_data d' i = []"
    and "disk_ok d'" and "same_but q d d'"
proof (cases "map_of (d_names d) q")
  case None
  then have fresh: "\<not> path_exists d q" using assms(2) by (simp add: path_exists_def temp_free_def)
  then obtain i d' where c: "fs_create_new q d = (Inr i, d')"
    using assms(3) by (simp add: fs_create_new_def fs_fresh_def)
  have data: "d_data d' i = []" "d_dirs d' = d_dirs d"
    using c fresh assms(3) by (auto simp: fs_create_new_def fs_fresh_def)
  from c fs_create_fresh [OF fresh] show thesis
    using data disk_ok_create_new [OF assms(1) c] sole_name_create_new [OF assms(1) c] contents_create_new [OF assms(1) c]
    by (intro that [of i d']) (auto simp: same_but_def)
next
  case (Some i)
  then have s: "sole_name d i q" "q \<notin> set (d_dirs d)" using assms(2) by (auto simp: temp_free_def)
  let ?d = "d\<lparr>d_data := (d_data d)(i := [])\<rparr>"
  have c: "fs_create q d = (Inr i, ?d)" using Some s(2) by (simp add: fs_create_def)
  have "file_contents ?d p = file_contents d p" if "p \<noteq> q" for p
    using s(1) that by (cases "map_of (d_names d) p") (auto simp: file_contents_def sole_name_def)
  then have "same_but q d ?d" by (simp add: same_but_def)
  moreover have "sole_name ?d i q" "disk_ok ?d" using s(1) assms(1) by (simp_all add: sole_name_def disk_ok_def)
  ultimately show thesis using c by (intro that [of i ?d]) simp_all
qed

lemma rename_over:
  assumes "disk_ok d" and "sole_name d i src" and "dst \<noteq> src" and "dst \<notin> set (d_dirs d)"
    and "butlast dst \<in> set (d_dirs d)"
  obtains d' where "fs_rename src dst d = (Inr (), d')" and "disk_ok d'" and "d_dirs d' = d_dirs d"
    and "file_contents d' = (file_contents d)(src := None, dst := file_contents d src)"
    and "d_names d' = AList.update dst i (AList.delete src (d_names d))" and "d_data d' = d_data d"
proof -
  let ?d = "d\<lparr>d_names := AList.update dst i (AList.delete src (d_names d))\<rparr>"
  from assms(2) have i: "map_of (d_names d) src = Some i" by (simp add: sole_name_def)
  have "map_of (d_names d) dst \<noteq> Some i" using assms(2,3) by (auto simp: sole_name_def)
  then have "fs_rename src dst d = (Inr (), ?d)" using i assms(4,5) by (simp add: fs_rename_def)
  moreover have "disk_ok ?d" using assms(1,4) i by (auto simp: disk_ok_def update_conv' delete_conv')
  moreover have "file_contents ?d = (file_contents d)(src := None, dst := file_contents d src)"
    using i by (auto simp: file_contents_def update_conv' delete_conv' fun_eq_iff)
  ultimately show thesis by (intro that [of ?d]) simp_all
qed

lemma append_ok:
  assumes "sole_name d i p" and "disk_ok d"
  shows "fs_append i bs d = (Inr (), snd (fs_append i bs d))"
    and "same_but p d (snd (fs_append i bs d))" and "d_data (snd (fs_append i bs d)) i = d_data d i @ bs"
  using contents_append [OF assms(1), of bs]
  by (simp_all add: fs_append_def same_but_def)

text \<open>A write sends some bytes to the file and keeps the rest in the buffer.\<close>

lemma bw_write_all_sends:
  obtains sent b' where "bw_write_all disk_calls b data d = (Inr b', snd (fs_append (bw_file b) sent d))"
    and "bw_file b' = bw_file b" and "sent @ bw_buf b' = bw_buf b @ data"
proof -
  have empty: "d = snd (fs_append i [] d)" for i by (simp add: fs_append_def)
  have twice: "snd (fs_append i ys (snd (fs_append i xs d))) = snd (fs_append i (xs @ ys) d)" for i xs ys
    by (simp add: fs_append_def)
  consider "buf_capacity < length (bw_buf b) + length data" "buf_capacity \<le> length data"
    | "buf_capacity < length (bw_buf b) + length data" "\<not> buf_capacity \<le> length data"
    | "\<not> buf_capacity < length (bw_buf b) + length data" "buf_capacity \<le> length data"
    | "\<not> buf_capacity < length (bw_buf b) + length data" "\<not> buf_capacity \<le> length data" by blast
  then show thesis
  proof cases
    case 1
    then show thesis using twice [of "bw_file b" "bw_buf b" data]
      by (intro that [of "b\<lparr>bw_buf := []\<rparr>" "bw_buf b @ data"])
        (simp_all add: bw_write_all_def bw_flush_def io_bind_def fs_append_def)
  next
    case 2
    then show thesis
      by (intro that [of "b\<lparr>bw_buf := data\<rparr>" "bw_buf b"])
        (simp_all add: bw_write_all_def bw_flush_def io_bind_def fs_append_def)
  next
    case 3
    then have "length (bw_buf b) = 0" by linarith
    with 3 show thesis
      by (intro that [of b data]) (simp_all add: bw_write_all_def io_bind_def fs_append_def)
  next
    case 4
    then show thesis using empty [of "bw_file b"]
      by (intro that [of "b\<lparr>bw_buf := bw_buf b @ data\<rparr>" "[]"])
        (simp_all add: bw_write_all_def io_bind_def)
  qed
qed

lemma aw_write_all_ok:
  assumes "aw_tracks d w bs"
  obtains w' d' where "aw_write_all disk_calls w data d = (Inr w', d')" and "aw_tracks d' w' (bs @ data)"
    and "same_but (aw_temp_path w) d d'" and "aw_temp_path w' = aw_temp_path w"
    and "aw_final_path w' = aw_final_path w"
proof -
  from assms obtain b where b: "aw_file w = Some b" "sole_name d (bw_file b) (aw_temp_path w)"
      "d_data d (bw_file b) @ bw_buf b = bs" "\<not> aw_committed w" "disk_ok d"
    by (auto simp: aw_tracks_def)
  obtain sent b' where s: "bw_write_all disk_calls b data d = (Inr b', snd (fs_append (bw_file b) sent d))"
      "bw_file b' = bw_file b" "sent @ bw_buf b' = bw_buf b @ data"
    by (rule bw_write_all_sends)
  let ?d = "snd (fs_append (bw_file b) sent d)"
  have "d_data d (bw_file b) @ sent @ bw_buf b' = bs @ data" using b(3) s(3) by (simp flip: b(3))
  then have "aw_tracks ?d (w\<lparr>aw_file := Some b'\<rparr>) (bs @ data)"
    using b s(2) append_ok [OF b(2,5), of sent] by (simp add: aw_tracks_def)
  then show thesis
    using b s append_ok [OF b(2,5), of sent]
    by (intro that [of "w\<lparr>aw_file := Some b'\<rparr>" ?d]) (simp_all add: aw_write_all_def io_bind_def)
qed

lemma aw_write_many_ok:
  assumes "aw_tracks d w bs"
  obtains w' d' where "aw_write_many disk_calls w bss d = (Inr w', d')" and "aw_tracks d' w' (bs @ concat bss)"
    and "same_but (aw_temp_path w) d d'" and "aw_temp_path w' = aw_temp_path w"
    and "aw_final_path w' = aw_final_path w"
proof -
  have "\<exists>w' d'. aw_write_many disk_calls w bss d = (Inr w', d') \<and> aw_tracks d' w' (bs @ concat bss)
      \<and> same_but (aw_temp_path w) d d' \<and> aw_temp_path w' = aw_temp_path w
      \<and> aw_final_path w' = aw_final_path w"
    using assms
  proof (induction bss arbitrary: d w bs)
    case (Cons x bss)
    obtain w1 d1 where 1: "aw_write_all disk_calls w x d = (Inr w1, d1)" "aw_tracks d1 w1 (bs @ x)"
        "same_but (aw_temp_path w) d d1" "aw_temp_path w1 = aw_temp_path w" "aw_final_path w1 = aw_final_path w"
      by (rule aw_write_all_ok [OF Cons.prems])
    from Cons.IH [OF 1(2)] 1 show ?case
      by (auto simp: io_bind_def intro: same_but_trans)
  qed (simp add: same_but_def)
  then show thesis using that by blast
qed

lemma aw_new_ok:
  assumes "disk_ok d" and "temp_free d (temp_path_for p)" and "butlast p \<in> set (d_dirs d)"
  obtains w d' where "aw_new disk_calls p d = (Inr w, d')" and "aw_tracks d' w []"
    and "same_but (temp_path_for p) d d'" and "aw_temp_path w = temp_path_for p" and "aw_final_path w = p"
proof -
  from assms(3) have "butlast (temp_path_for p) \<in> set (d_dirs d)" by simp
  then obtain i d' where c: "fs_create (temp_path_for p) d = (Inr i, d')" "sole_name d' i (temp_path_for p)"
      "d_data d' i = []" "disk_ok d'" "same_but (temp_path_for p) d d'"
    using fs_create_ok [OF assms(1,2)] by blast
  then show thesis
    by (intro that [of "\<lparr>aw_temp_path = temp_path_for p, aw_final_path = p,
                 aw_file = Some \<lparr>bw_file = i, bw_buf = []\<rparr>, aw_committed = False\<rparr>" d'])
      (simp_all add: aw_new_def Let_def result_simps aw_tracks_def)
qed

lemma aw_commit_ok:
  assumes w: "aw_tracks d w bs" and p: "aw_final_path w = p" "aw_temp_path w = temp_path_for p" "p \<noteq> []"
    and dirs: "p \<notin> set (d_dirs d)" "butlast p \<in> set (d_dirs d)"
  obtains d' where "aw_commit disk_calls w d = (Inr (), d')" and "disk_ok d'" and "d_dirs d' = d_dirs d"
    and "file_contents d' = (file_contents d)(temp_path_for p := None, p \<mapsto> bs)"
proof -
  from w obtain b where b: "aw_file w = Some b" "sole_name d (bw_file b) (temp_path_for p)"
      "d_data d (bw_file b) @ bw_buf b = bs" "\<not> aw_committed w" "disk_ok d"
    by (auto simp: aw_tracks_def p)
  let ?d1 = "snd (fs_append (bw_file b) (bw_buf b) d)"
  note a = append_ok [OF b(2,5), of "bw_buf b"]
  have 1: "disk_ok ?d1" "sole_name ?d1 (bw_file b) (temp_path_for p)" "d_dirs ?d1 = d_dirs d"
    using b a(2) by (simp_all add: same_but_def)
  obtain d2 where r: "fs_rename (temp_path_for p) p ?d1 = (Inr (), d2)" "disk_ok d2" "d_dirs d2 = d_dirs ?d1"
      "file_contents d2 = (file_contents ?d1)(temp_path_for p := None, p := file_contents ?d1 (temp_path_for p))"
    using rename_over [OF 1(1,2), of p] p(3) dirs 1(3) by (metis temp_path_other)
  have "file_contents ?d1 (temp_path_for p) = Some bs"
    using 1(2) a(3) b(3) by (simp add: sole_name_def file_contents_def)
  then have v: "file_contents d2 = (file_contents d)(temp_path_for p := None, p \<mapsto> bs)"
    using a(2) by (simp add: r(4) same_but_def fun_eq_iff)
  have "path_exists d2 (butlast p)" using dirs r(3) 1(3) by (simp add: path_exists_def)
  then have "fsync_directory (butlast p) d2 = (Inr (), d2)" by (simp add: fsync_directory_def fs_sync_path_def)
  moreover have "bw_flush disk_calls b d = (Inr (b\<lparr>bw_buf := []\<rparr>), ?d1)"
    by (simp add: bw_flush_def io_bind_def fs_append_def)
  ultimately have "aw_commit_steps disk_calls w d = (Inr (w\<lparr>aw_file := None, aw_committed := True\<rparr>), d2)"
    using r(1) by (simp add: aw_commit_steps_def b(1) p result_simps fs_sync_def)
  then have "aw_commit disk_calls w d = (Inr (), d2)" by (simp add: aw_commit_def aw_drop_def)
  with r 1(3) v show thesis by (intro that [of d2]) simp_all
qed

end
