(* ===== verification/CrashSafety.thy ===== *)
theory CrashSafety
  imports AtomicFile
begin

text \<open>
  Crashes. A \<open>pdisk\<close> adds to the disk that a running process sees what is durable: the names
  that reached the directory on disk and the contents that were synced. After a crash a name is
  bound as it was last made durable or as the process last saw it, and a file whose contents
  were not synced may hold anything. \<open>crash_calls\<close> are the file system calls of a process that
  crashes after a given number of them; the code of the atomic writer runs on them as it is.
\<close>

section \<open>A disk that crashes\<close>

record pdisk =
  pd_disk :: disk
  pd_names :: "path \<Rightarrow> nat option"
  pd_data :: "nat \<Rightarrow> byte list"
  pd_left :: nat

text \<open>
  \<open>pd_left\<close> calls take place; the later ones have no effect, whatever the code makes of the
  result. What a call that succeeds makes durable is its last argument.
\<close>

definition before_crash :: "(disk, 'a) io \<Rightarrow> (pdisk \<Rightarrow> pdisk) \<Rightarrow> (pdisk, 'a) io" where
  "before_crash f durable s =
     (if pd_left s = 0 then (Inl (Io OtherIo), s)
      else case f (pd_disk s) of
        (Inl e, d) \<Rightarrow> (Inl e, s\<lparr>pd_disk := d, pd_left := pd_left s - 1\<rparr>)
      | (Inr r, d) \<Rightarrow> (Inr r, durable (s\<lparr>pd_disk := d, pd_left := pd_left s - 1\<rparr>)))"

definition sync_data :: "nat \<Rightarrow> pdisk \<Rightarrow> pdisk" where
  "sync_data i s = s\<lparr>pd_data := (pd_data s)(i := d_data (pd_disk s) i)\<rparr>"

definition sync_names :: "path \<Rightarrow> pdisk \<Rightarrow> pdisk" where
  "sync_names q s =
     s\<lparr>pd_names := (\<lambda>p. if butlast p = q then map_of (d_names (pd_disk s)) p else pd_names s p)\<rparr>"

definition crash_calls :: "pdisk file_calls" where
  "crash_calls = \<lparr>fc_create = \<lambda>p. before_crash (fs_create p) id, fc_append = \<lambda>i bs. before_crash (fs_append i bs) id,
     fc_sync = \<lambda>i. before_crash (fs_sync i) (sync_data i), fc_rename = \<lambda>p q. before_crash (fs_rename p q) id,
     fc_remove = \<lambda>p. before_crash (fs_remove p) id,
     fc_sync_dir = \<lambda>p. before_crash (fsync_directory p) (sync_names p)\<rparr>"

definition crash_contents :: "pdisk \<Rightarrow> path \<Rightarrow> byte list option set" where
  "crash_contents s p =
     {c. \<exists>n \<in> {pd_names s p, map_of (d_names (pd_disk s)) p}.
        case n of
          None \<Rightarrow> c = None
        | Some i \<Rightarrow> \<exists>bs. c = Some bs \<and> (pd_data s i = d_data (pd_disk s) i \<longrightarrow> bs = pd_data s i)}"

definition crash_view :: "pdisk \<Rightarrow> (path \<Rightarrow> byte list option) \<Rightarrow> bool" where
  "crash_view s v \<longleftrightarrow> (\<forall>p. v p \<in> crash_contents s p)"

lemma crash_calls_simps [simp]:
  "fc_create crash_calls p = before_crash (fs_create p) id"
  "fc_append crash_calls i bs = before_crash (fs_append i bs) id"
  "fc_sync crash_calls i = before_crash (fs_sync i) (sync_data i)"
  "fc_rename crash_calls p q = before_crash (fs_rename p q) id"
  "fc_remove crash_calls p = before_crash (fs_remove p) id"
  "fc_sync_dir crash_calls p = before_crash (fsync_directory p) (sync_names p)"
  by (simp_all add: crash_calls_def)

lemma before_crash_cases:
  assumes "before_crash f g s = (r, s')"
  obtains (crashed) e where "r = Inl e" and "s' = s"
    | (failed) e d where "f (pd_disk s) = (Inl e, d)" and "r = Inl e" and "s' = s\<lparr>pd_disk := d, pd_left := pd_left s - 1\<rparr>"
    | (completed) a d where "f (pd_disk s) = (Inr a, d)" and "r = Inr a" and "s' = g (s\<lparr>pd_disk := d, pd_left := pd_left s - 1\<rparr>)"
proof (cases "pd_left s = 0")
  case True
  with assms show thesis by (intro crashed [of "Io OtherIo"]) (simp_all add: before_crash_def)
next
  case False
  obtain q d where f: "f (pd_disk s) = (q, d)" by (cases "f (pd_disk s)")
  show thesis
  proof (cases q)
    case (Inl e)
    with assms f False show thesis by (intro failed [of e d]) (simp_all add: before_crash_def)
  next
    case (Inr a)
    with assms f False show thesis by (intro completed [of a d]) (simp_all add: before_crash_def)
  qed
qed

section \<open>Up to the rename\<close>

text \<open>The path reads as \<open>old\<close> before and after any crash, from a file other than \<open>i\<close>.\<close>

definition durably :: "path \<Rightarrow> byte list option \<Rightarrow> nat \<Rightarrow> pdisk \<Rightarrow> bool" where
  "durably p old i s \<longleftrightarrow>
     pd_names s p = map_of (d_names (pd_disk s)) p
     \<and> (case pd_names s p of
          None \<Rightarrow> old = None
        | Some j \<Rightarrow> j \<noteq> i \<and> pd_data s j = d_data (pd_disk s) j \<and> old = Some (pd_data s j))"

lemma durably_cong:
  assumes "durably p old i s" and "pd_names s' p = pd_names s p"
    and "map_of (d_names (pd_disk s')) p = map_of (d_names (pd_disk s)) p"
    and "\<And>j. j \<noteq> i \<Longrightarrow> pd_data s' j = pd_data s j" and "\<And>j. j \<noteq> i \<Longrightarrow> d_data (pd_disk s') j = d_data (pd_disk s) j"
  shows "durably p old i s'"
proof (cases "pd_names s p")
  case None
  with assms(1-3) show ?thesis by (simp add: durably_def)
next
  case (Some j)
  with assms(1) have j: "j \<noteq> i" "pd_data s j = d_data (pd_disk s) j" "old = Some (pd_data s j)"
    "map_of (d_names (pd_disk s)) p = Some j" by (simp_all add: durably_def)
  have "pd_names s' p = Some j" "map_of (d_names (pd_disk s')) p = Some j"
    "pd_data s' j = pd_data s j" "d_data (pd_disk s') j = pd_data s j"
    using assms(2-5) Some j by simp_all
  with j(1,3) show ?thesis by (simp add: durably_def)
qed

lemma durably_crash: "durably p old i s \<Longrightarrow> crash_contents s p \<subseteq> {old}"
  by (auto simp: durably_def crash_contents_def split: option.splits)

text \<open>The temporary file \<open>i\<close> holds \<open>bs\<close>, and the final path is still the old one.\<close>

definition staging :: "path \<Rightarrow> byte list option \<Rightarrow> nat \<Rightarrow> byte list \<Rightarrow> pdisk \<Rightarrow> bool" where
  "staging p old i bs s \<longleftrightarrow>
     durably p old i s \<and> sole_name (pd_disk s) i (temp_path_for p) \<and> disk_ok (pd_disk s)
     \<and> d_data (pd_disk s) i = bs \<and> p \<notin> set (d_dirs (pd_disk s)) \<and> butlast p \<in> set (d_dirs (pd_disk s))"

lemma staging_crash: "staging p old i bs s \<Longrightarrow> crash_contents s p \<subseteq> {old}"
  unfolding staging_def by (blast dest: durably_crash)

lemma append_staging:
  assumes "staging p old i bs s" and "fc_append crash_calls i xs s = (r, s')"
  shows "\<exists>bs'. staging p old i bs' s' \<and> (r = Inr () \<longrightarrow> bs' = bs @ xs) \<and> (r \<noteq> Inr () \<longrightarrow> bs' = bs)"
proof -
  have "before_crash (fs_append i xs) id s = (r, s')" using assms(2) by simp
  then show ?thesis
  proof (cases rule: before_crash_cases)
    case (completed a d)
    then have s': "s' = s\<lparr>pd_disk := (pd_disk s)\<lparr>d_data := (d_data (pd_disk s))(i := d_data (pd_disk s) i @ xs)\<rparr>, pd_left := pd_left s - 1\<rparr>"
      by (simp add: fs_append_def)
    have "durably p old i s'"
      by (rule durably_cong [of p old i s]) (use assms(1) in \<open>simp_all add: staging_def s'\<close>)
    then have "staging p old i (bs @ xs) s'"
      using assms(1) by (simp add: staging_def s' sole_name_def disk_ok_def)
    with completed show ?thesis by auto
  next
    case (crashed e)
    with assms(1) show ?thesis by blast
  next
    case (failed e d)
    then show ?thesis by (simp add: fs_append_def)
  qed
qed

lemma flush_staging:
  assumes "staging p old i bs s" and "bw_file b = i" and "bw_flush crash_calls b s = (r, s')"
  shows "\<exists>bs'. staging p old i bs' s' \<and> (\<forall>b'. r = Inr b' \<longrightarrow> b' = b\<lparr>bw_buf := []\<rparr> \<and> bs' = bs @ bw_buf b)"
proof -
  obtain r1 s1 where 1: "fc_append crash_calls i (bw_buf b) s = (r1, s1)" by (cases "fc_append crash_calls i (bw_buf b) s")
  from append_staging [OF assms(1) 1] show ?thesis
    using assms(2,3) 1 by (cases r1) (auto simp: bw_flush_def io_bind_def simp del: crash_calls_simps)
qed

lemma bw_write_staging:
  assumes s: "staging p old i bs s" and b: "bw_file b = i" and run: "bw_write_all crash_calls b data s = (r, s')"
  shows "\<exists>bs'. staging p old i bs' s' \<and> (\<forall>b'. r = Inr b' \<longrightarrow> bw_file b' = i \<and> bs' @ bw_buf b' = bs @ bw_buf b @ data)"
proof -
  let ?m = "if buf_capacity < length (bw_buf b) + length data then bw_flush crash_calls b else io_return b"
  obtain r1 s1 where m: "?m s = (r1, s1)" by (cases "?m s")
  have 1: "\<exists>bs1. staging p old i bs1 s1 \<and> (\<forall>b1. r1 = Inr b1 \<longrightarrow> bw_file b1 = i \<and> bs1 @ bw_buf b1 = bs @ bw_buf b
      \<and> (buf_capacity \<le> length data \<longrightarrow> bw_buf b1 = []))"
  proof (cases "buf_capacity < length (bw_buf b) + length data")
    case True
    with m have "bw_flush crash_calls b s = (r1, s1)" by simp
    from flush_staging [OF s b this] show ?thesis using b by auto
  next
    case False
    then have "buf_capacity \<le> length data \<longrightarrow> bw_buf b = []" by (cases "bw_buf b") simp_all
    with False show ?thesis using m s b by (intro exI [of _ bs]) (auto simp: io_return_def)
  qed
  show ?thesis
  proof (cases r1)
    case (Inl e)
    then show ?thesis using 1 m run by (auto simp: bw_write_all_def io_bind_def)
  next
    case (Inr b1)
    obtain bs1 where bs1: "staging p old i bs1 s1" "bw_file b1 = i" "bs1 @ bw_buf b1 = bs @ bw_buf b"
        "buf_capacity \<le> length data \<longrightarrow> bw_buf b1 = []"
      using 1 Inr by auto
    show ?thesis
    proof (cases "buf_capacity \<le> length data")
      case True
      obtain r2 s2 where 2: "fc_append crash_calls i data s1 = (r2, s2)" by (cases "fc_append crash_calls i data s1")
      from append_staging [OF bs1(1) 2] show ?thesis
        using True Inr m run bs1(2-4) 2
        by (cases r2) (auto simp: bw_write_all_def io_bind_def simp del: crash_calls_simps)
    next
      case False
      then show ?thesis using Inr m run bs1 by (auto simp: bw_write_all_def io_bind_def)
    qed
  qed
qed

lemma aw_write_many_staging:
  assumes "staging p old i bs s" and "aw_file w = Some b" and "bw_file b = i"
    and "aw_write_many crash_calls w bss s = (r, s')"
  shows "\<exists>bs'. staging p old i bs' s' \<and> (\<forall>w'. r = Inr w' \<longrightarrow>
    (\<exists>b'. w' = w\<lparr>aw_file := Some b'\<rparr> \<and> bw_file b' = i \<and> bs' @ bw_buf b' = bs @ bw_buf b @ concat bss))"
  using assms
proof (induction bss arbitrary: bs s w b)
  case Nil
  then have "w\<lparr>aw_file := Some b\<rparr> = w" by simp
  with Nil show ?case by (intro exI [of _ bs]) (auto simp: io_return_def intro!: exI [of _ b])
next
  case (Cons data bss)
  obtain r1 s1 where 1: "bw_write_all crash_calls b data s = (r1, s1)" by (cases "bw_write_all crash_calls b data s")
  obtain bs1 where bs1: "staging p old i bs1 s1"
      "\<forall>b1. r1 = Inr b1 \<longrightarrow> bw_file b1 = i \<and> bs1 @ bw_buf b1 = bs @ bw_buf b @ data"
    using bw_write_staging [OF Cons.prems(1,3) 1] by blast
  show ?case
  proof (cases r1)
    case (Inl e)
    then have "r = Inl e" "s' = s1" using Cons.prems(2,4) 1 by (auto simp: aw_write_all_def io_bind_def)
    with bs1(1) show ?thesis by auto
  next
    case (Inr b1)
    let ?w = "w\<lparr>aw_file := Some b1\<rparr>"
    have b1: "bw_file b1 = i" "bs1 @ bw_buf b1 = bs @ bw_buf b @ data" using bs1(2) Inr by auto
    have "aw_write_many crash_calls ?w bss s1 = (r, s')"
      using Cons.prems(2,4) 1 Inr by (simp add: aw_write_all_def io_bind_def)
    from Cons.IH [OF bs1(1) _ b1(1) this] obtain bs' where
      "staging p old i bs' s'" "\<forall>w'. r = Inr w' \<longrightarrow>
        (\<exists>b'. w' = ?w\<lparr>aw_file := Some b'\<rparr> \<and> bw_file b' = i \<and> bs' @ bw_buf b' = bs1 @ bw_buf b1 @ concat bss)" by auto
    moreover have "bs1 @ bw_buf b1 @ concat bss = bs @ bw_buf b @ concat (data # bss)"
      using b1(2) by (metis append_assoc concat.simps(2))
    ultimately show ?thesis by (intro exI [of _ bs']) auto
  qed
qed

section \<open>The rename and after it\<close>

lemma crash_contents_cong:
  assumes "pd_names s' p = pd_names s p" and "map_of (d_names (pd_disk s')) p = map_of (d_names (pd_disk s)) p"
    and "pd_data s' = pd_data s" and "d_data (pd_disk s') = d_data (pd_disk s)"
  shows "crash_contents s' p = crash_contents s p"
  unfolding crash_contents_def by (simp only: assms)

lemma remove_contents: "q \<noteq> p \<Longrightarrow> crash_contents (snd (fc_remove crash_calls q s)) p = crash_contents s p"
proof -
  assume q: "q \<noteq> p"
  obtain r s' where run: "before_crash (fs_remove q) id s = (r, s')" by (cases "before_crash (fs_remove q) id s")
  then have "crash_contents s' p = crash_contents s p"
  proof (cases rule: before_crash_cases)
    case (failed e d)
    then have "d = pd_disk s" by (auto simp: fs_remove_def split: if_splits)
    with failed show ?thesis by (intro crash_contents_cong) simp_all
  next
    case (completed a d)
    then have "map_of (d_names d) p = map_of (d_names (pd_disk s)) p" "d_data d = d_data (pd_disk s)"
      using q by (auto simp: fs_remove_def delete_conv' split: if_splits)
    with completed show ?thesis by (intro crash_contents_cong) simp_all
  qed simp
  with run show ?thesis by simp
qed

lemma drop_contents: "aw_temp_path w \<noteq> p \<Longrightarrow> crash_contents (aw_drop crash_calls w s) p = crash_contents s p"
  unfolding aw_drop_def by (simp add: remove_contents del: crash_calls_simps)

text \<open>Between the rename and the sync of the directory, either name may come back.\<close>

lemma renamed_contents:
  assumes st: "staging p old i new s" and sync: "pd_data s i = new"
    and t: "temp_path_for p \<noteq> p" and run: "fs_rename (temp_path_for p) p (pd_disk s) = (Inr (), d)"
  shows "crash_contents (s\<lparr>pd_disk := d, pd_left := n\<rparr>) p \<subseteq> {old, Some new}"
    and "map_of (d_names d) p = Some i" and "d_data d i = new" and "butlast p \<in> set (d_dirs d)"
proof -
  have s: "disk_ok (pd_disk s)" "sole_name (pd_disk s) i (temp_path_for p)" "p \<notin> set (d_dirs (pd_disk s))"
    "butlast p \<in> set (d_dirs (pd_disk s))" "durably p old i s" "d_data (pd_disk s) i = new"
    using st by (simp_all add: staging_def)
  obtain d' where d': "fs_rename (temp_path_for p) p (pd_disk s) = (Inr (), d')" "d_dirs d' = d_dirs (pd_disk s)"
      "d_names d' = AList.update p i (AList.delete (temp_path_for p) (d_names (pd_disk s)))" "d_data d' = d_data (pd_disk s)"
    by (rule rename_over [OF s(1,2) t [symmetric] s(3,4)])
  then have d: "d = d'" using run by simp
  show names: "map_of (d_names d) p = Some i" and data: "d_data d i = new" and "butlast p \<in> set (d_dirs d)"
    using d' s(4,6) by (simp_all add: d update_conv')
  show "crash_contents (s\<lparr>pd_disk := d, pd_left := n\<rparr>) p \<subseteq> {old, Some new}"
  proof (cases "pd_names s p")
    case None
    then have "old = None" using s(5) by (simp add: durably_def)
    then show ?thesis using None names data sync by (auto simp: crash_contents_def)
  next
    case (Some j)
    then have "pd_data s j = d_data (pd_disk s) j" "old = Some (pd_data s j)" using s(5) by (simp_all add: durably_def)
    then show ?thesis using Some names data sync d'(4) by (auto simp: crash_contents_def d)
  qed
qed

text \<open>The last two steps, and what each of their ends leaves.\<close>

lemma commit_renamed:
  assumes st: "staging p old i new s" "pd_data s i = new" and p: "p \<noteq> []"
    and run: "io_bind (fc_rename crash_calls (temp_path_for p) p) (\<lambda>_. io_bind (fc_sync_dir crash_calls (butlast p)) (\<lambda>_. io_return w)) s
      = (r, s')"
  shows "crash_contents s' p \<subseteq> {old, Some new} \<and> (\<forall>w'. r = Inr w' \<longrightarrow> w' = w \<and> crash_contents s' p \<subseteq> {Some new})"
proof -
  have tp: "temp_path_for p \<noteq> p" using p by simp
  obtain r1 s1 where 1: "fc_rename crash_calls (temp_path_for p) p s = (r1, s1)" by (cases "fc_rename crash_calls (temp_path_for p) p s")
  then have "before_crash (fs_rename (temp_path_for p) p) id s = (r1, s1)" by simp
  then show ?thesis
  proof (cases rule: before_crash_cases)
    case (crashed e)
    then show ?thesis using staging_crash [OF st(1)] 1 run by (auto simp: io_bind_def simp del: crash_calls_simps)
  next
    case (failed e d)
    then show ?thesis
      using st(1) tp rename_over [of "pd_disk s" i "temp_path_for p" p] by (auto simp: staging_def)
  next
    case (completed a d)
    let ?s = "s\<lparr>pd_disk := d, pd_left := pd_left s - 1\<rparr>"
    have c: "fs_rename (temp_path_for p) p (pd_disk s) = (Inr (), d)" "s1 = ?s" using completed by simp_all
    note ren = renamed_contents [OF st tp c(1)]
    obtain r2 s2 where 2: "fc_sync_dir crash_calls (butlast p) s1 = (r2, s2)" by (cases "fc_sync_dir crash_calls (butlast p) s1")
    have over: "s' = s2" "\<forall>w'. r = Inr w' \<longrightarrow> w' = w \<and> (\<exists>a. r2 = Inr a)"
      using run 1 2 completed(2) by (auto simp: io_bind_def io_return_def simp del: crash_calls_simps split: sum.splits)
    from 2 have "before_crash (fsync_directory (butlast p)) (sync_names (butlast p)) ?s = (r2, s2)" by (simp add: c(2))
    then show ?thesis
    proof (cases rule: before_crash_cases)
      case (crashed e)
      then show ?thesis using ren(1) over by auto
    next
      case (failed e d')
      then show ?thesis using ren(4) by (simp add: fsync_directory_def fs_sync_path_def path_exists_def)
    next
      case (completed a d')
      then have "s2 = sync_names (butlast p) (?s\<lparr>pd_left := pd_left ?s - 1\<rparr>)"
        using ren(4) by (simp add: fsync_directory_def fs_sync_path_def path_exists_def)
      then have "crash_contents s2 p \<subseteq> {Some new}"
        using ren(2,3) st(2) by (auto simp: crash_contents_def sync_names_def)
      with over show ?thesis by auto
    qed
  qed
qed

lemma commit_contents:
  assumes st: "staging p old i bs s" and w: "aw_file w = Some b" "bw_file b = i" "bs @ bw_buf b = new"
      "aw_temp_path w = temp_path_for p" "aw_final_path w = p" "\<not> aw_committed w"
    and p: "p \<noteq> []" and run: "aw_commit crash_calls w s = (r, s')"
  shows "crash_contents s' p \<subseteq> {old, Some new} \<and> (r = Inr () \<longrightarrow> crash_contents s' p \<subseteq> {Some new})"
proof -
  let ?t = "temp_path_for p"
  have tp: "?t \<noteq> p" using p by simp
  have fail: "crash_contents s' p \<subseteq> {old, Some new} \<and> (r = Inr () \<longrightarrow> crash_contents s' p \<subseteq> {Some new})"
    if "aw_commit_steps crash_calls w s = (Inl e, s1)" "crash_contents s1 p \<subseteq> {old, Some new}" for e s1
    using run that drop_contents [of w p s1] w(4) tp by (auto simp: aw_commit_def)
  obtain r1 s1 where 1: "bw_flush crash_calls b s = (r1, s1)" by (cases "bw_flush crash_calls b s")
  obtain bs1 where bs1: "staging p old i bs1 s1" "\<forall>b'. r1 = Inr b' \<longrightarrow> b' = b\<lparr>bw_buf := []\<rparr> \<and> bs1 = bs @ bw_buf b"
    using flush_staging [OF st w(2) 1] by blast
  show ?thesis
  proof (cases r1)
    case (Inl e)
    then show ?thesis using staging_crash [OF bs1(1)] 1 w(1) by (intro fail [of e s1]) (auto simp: aw_commit_steps_def io_bind_def)
  next
    case (Inr b1)
    then have st1: "staging p old i new s1" "bw_file b1 = i" using bs1 w(2,3) by auto
    obtain r2 s2 where 2: "fc_sync crash_calls i s1 = (r2, s2)" by (cases "fc_sync crash_calls i s1")
    have rest: "aw_commit_steps crash_calls w s =
        io_bind (\<lambda>_. (r2, s2)) (\<lambda>_. io_bind (fc_rename crash_calls ?t p) (\<lambda>_.
          io_bind (fc_sync_dir crash_calls (butlast p)) (\<lambda>_. io_return (w\<lparr>aw_file := None, aw_committed := True\<rparr>)))) s1"
      using 1 2 Inr w st1(2) by (simp add: aw_commit_steps_def io_bind_def del: crash_calls_simps)
    from 2 have "before_crash (fs_sync i) (sync_data i) s1 = (r2, s2)" by simp
    then show ?thesis
    proof (cases rule: before_crash_cases)
      case (crashed e)
      then show ?thesis using staging_crash [OF st1(1)] rest by (intro fail [of e s1]) (auto simp: io_bind_def)
    next
      case (failed e d)
      then show ?thesis by (simp add: fs_sync_def)
    next
      case (completed a d)
      then have s2: "s2 = sync_data i (s1\<lparr>pd_disk := pd_disk s1, pd_left := pd_left s1 - 1\<rparr>)" by (simp add: fs_sync_def)
      have "durably p old i s2"
        by (rule durably_cong [of p old i s1]) (use st1(1) in \<open>simp_all add: staging_def s2 sync_data_def\<close>)
      then have st2: "staging p old i new s2" "pd_data s2 i = new"
        using st1(1) by (simp_all add: staging_def s2 sync_data_def)
      let ?w = "w\<lparr>aw_file := None, aw_committed := True\<rparr>"
      obtain q s3 where 3: "io_bind (fc_rename crash_calls ?t p) (\<lambda>_. io_bind (fc_sync_dir crash_calls (butlast p))
          (\<lambda>_. io_return ?w)) s2 = (q, s3)"
        by (metis surj_pair)
      note c = commit_renamed [OF st2 p 3]
      have steps: "aw_commit_steps crash_calls w s = (q, s3)" using rest completed(2) 3 by (simp add: io_bind_def)
      show ?thesis
      proof (cases q)
        case (Inl e)
        with c steps show ?thesis by (intro fail [of e s3]) simp_all
      next
        case (Inr w')
        with c run steps show ?thesis by (auto simp: aw_commit_def aw_drop_def)
      qed
    qed
  qed
qed

section \<open>Enough calls\<close>

text \<open>
  A computation on the disk that crashes goes as on the plain disk, and uses up at most \<open>n\<close>
  calls, when there are that many left.
\<close>

definition runs_like :: "nat \<Rightarrow> (pdisk, 'a) io \<Rightarrow> (disk, 'a) io \<Rightarrow> bool" where
  "runs_like n m m' \<longleftrightarrow>
     (\<forall>s k. n + k \<le> pd_left s \<longrightarrow> (\<exists>s'. m s = (fst (m' (pd_disk s)), s') \<and> pd_disk s' = snd (m' (pd_disk s)) \<and> k \<le> pd_left s'))"

lemma runs_like_return [intro]: "runs_like n (io_return x) (io_return x)"
  by (simp add: runs_like_def)

lemma runs_like_fail [intro]: "runs_like n (io_fail e) (io_fail e)"
  by (simp add: runs_like_def)

lemma runs_like_call:
  assumes "\<And>s. pd_disk (g s) = pd_disk s \<and> pd_left (g s) = pd_left s"
  shows "runs_like 1 (before_crash f g) f"
  using assms by (auto simp: runs_like_def before_crash_def split: prod.split sum.split)

lemma runs_like_bind:
  assumes m: "runs_like a m m'" and f: "\<And>x. runs_like b (f x) (f' x)"
  shows "runs_like (a + b) (io_bind m f) (io_bind m' f')"
  unfolding runs_like_def
proof (intro allI impI)
  fix s :: pdisk and k
  assume "a + b + k \<le> pd_left s"
  then have "a + (b + k) \<le> pd_left s" by simp
  then obtain s1 where 1: "m s = (fst (m' (pd_disk s)), s1)" "pd_disk s1 = snd (m' (pd_disk s))" "b + k \<le> pd_left s1"
    using m unfolding runs_like_def by blast
  obtain q d where q: "m' (pd_disk s) = (q, d)" by (cases "m' (pd_disk s)")
  show "\<exists>s'. io_bind m f s = (fst (io_bind m' f' (pd_disk s)), s') \<and> pd_disk s' = snd (io_bind m' f' (pd_disk s)) \<and> k \<le> pd_left s'"
  proof (cases q)
    case (Inl e)
    with 1 q show ?thesis by (simp add: io_bind_def)
  next
    case (Inr x)
    with f [of x] 1(3) obtain s2 where "f x s1 = (fst (f' x (pd_disk s1)), s2)" "pd_disk s2 = snd (f' x (pd_disk s1))" "k \<le> pd_left s2"
      unfolding runs_like_def by blast
    with Inr 1 q show ?thesis by (simp add: io_bind_def)
  qed
qed

lemma runs_like_mono: "runs_like a m m' \<Longrightarrow> a \<le> b \<Longrightarrow> runs_like b m m'"
  unfolding runs_like_def by (meson add_le_mono1 order_trans)

lemma runs_like_calls:
  "runs_like 1 (fc_create crash_calls p) (fc_create disk_calls p)"
  "runs_like 1 (fc_append crash_calls i bs) (fc_append disk_calls i bs)"
  "runs_like 1 (fc_sync crash_calls i) (fc_sync disk_calls i)"
  "runs_like 1 (fc_rename crash_calls p q) (fc_rename disk_calls p q)"
  "runs_like 1 (fc_sync_dir crash_calls p) (fc_sync_dir disk_calls p)"
  by (simp_all only: crash_calls_simps disk_calls_simps) (rule runs_like_call, simp add: sync_data_def sync_names_def)+

lemma runs_like_flush: "runs_like 1 (bw_flush crash_calls b) (bw_flush disk_calls b)"
  unfolding bw_flush_def using runs_like_bind [OF runs_like_calls(2) runs_like_return [of 0]] by simp

lemma runs_like_write: "runs_like 2 (aw_write_all crash_calls w data) (aw_write_all disk_calls w data)"
proof -
  have "runs_like 2 (bw_write_all crash_calls b data) (bw_write_all disk_calls b data)" for b
  proof -
    have append: "runs_like 1 (io_bind (fc_append crash_calls i data) (\<lambda>_. io_return b')) (io_bind (fc_append disk_calls i data) (\<lambda>_. io_return b'))"
      for i b' using runs_like_bind [OF runs_like_calls(2) runs_like_return [of 0]] by simp
    have "runs_like (1 + 1) (bw_write_all crash_calls b data) (bw_write_all disk_calls b data)"
      unfolding bw_write_all_def
    proof (rule runs_like_bind)
      show "runs_like 1 (if buf_capacity < length (bw_buf b) + length data then bw_flush crash_calls b else io_return b)
          (if buf_capacity < length (bw_buf b) + length data then bw_flush disk_calls b else io_return b)"
        using runs_like_flush [of b] runs_like_return [of 1 b] by simp
      show "runs_like 1 (if buf_capacity \<le> length data then io_bind (fc_append crash_calls (bw_file b') data) (\<lambda>_. io_return b')
            else io_return (b'\<lparr>bw_buf := bw_buf b' @ data\<rparr>))
          (if buf_capacity \<le> length data then io_bind (fc_append disk_calls (bw_file b') data) (\<lambda>_. io_return b')
            else io_return (b'\<lparr>bw_buf := bw_buf b' @ data\<rparr>))" for b'
        using append [of "bw_file b'" b'] runs_like_return [of 1 "b'\<lparr>bw_buf := bw_buf b' @ data\<rparr>"] by simp
    qed
    then show ?thesis by (simp add: numeral_2_eq_2)
  qed
  then have "runs_like (2 + 0) (io_bind (bw_write_all crash_calls b data) (\<lambda>b. io_return (w\<lparr>aw_file := Some b\<rparr>)))
      (io_bind (bw_write_all disk_calls b data) (\<lambda>b. io_return (w\<lparr>aw_file := Some b\<rparr>)))" for b
    by (rule runs_like_bind) auto
  then show ?thesis unfolding aw_write_all_def by (cases "aw_file w") auto
qed

lemma runs_like_write_many: "runs_like (2 * length bss) (aw_write_many crash_calls w bss) (aw_write_many disk_calls w bss)"
proof (induction bss arbitrary: w)
  case (Cons bs bss)
  from runs_like_bind [OF runs_like_write Cons.IH] show ?case by simp
qed auto

lemma runs_like_commit: "runs_like 4 (aw_commit_steps crash_calls w) (aw_commit_steps disk_calls w)"
proof -
  have "runs_like (1 + (1 + (1 + (1 + 0)))) (aw_commit_steps crash_calls w) (aw_commit_steps disk_calls w)"
  proof (cases "aw_file w")
    case None
    then show ?thesis unfolding aw_commit_steps_def by (simp only: option.case) (rule runs_like_fail)
  next
    case (Some b)
    then show ?thesis
      unfolding aw_commit_steps_def option.case
      by (simp only: option.case) (intro runs_like_bind [OF runs_like_flush] runs_like_bind [OF runs_like_calls(3)]
          runs_like_bind [OF runs_like_calls(4)] runs_like_bind [OF runs_like_calls(5)] runs_like_return)
  qed
  then show ?thesis by (simp add: eval_nat_numeral)
qed

lemma atomic_write_ok:
  assumes ok: "disk_ok d" and temp: "temp_free d (temp_path_for p)" and p: "p \<noteq> []" "p \<notin> set (d_dirs d)"
    and dir: "butlast p \<in> set (d_dirs d)"
  obtains w1 d1 w2 d2 d3 where "aw_new disk_calls p d = (Inr w1, d1)" and "aw_write_many disk_calls w1 bss d1 = (Inr w2, d2)"
    and "aw_commit disk_calls w2 d2 = (Inr (), d3)"
proof -
  obtain w1 d1 where n: "aw_new disk_calls p d = (Inr w1, d1)" "aw_tracks d1 w1 []" "same_but (temp_path_for p) d d1"
      "aw_temp_path w1 = temp_path_for p" "aw_final_path w1 = p"
    by (rule aw_new_ok [OF ok temp dir])
  obtain w2 d2 where m: "aw_write_many disk_calls w1 bss d1 = (Inr w2, d2)" "aw_tracks d2 w2 ([] @ concat bss)"
      "same_but (temp_path_for p) d1 d2" "aw_temp_path w2 = temp_path_for p" "aw_final_path w2 = p"
    using aw_write_many_ok [OF n(2), of bss] n(4,5) by auto
  have dirs: "p \<notin> set (d_dirs d2)" "butlast p \<in> set (d_dirs d2)"
    using p(2) dir same_but_trans [OF n(3) m(3)] by (auto simp: same_but_def)
  obtain d3 where "aw_commit disk_calls w2 d2 = (Inr (), d3)"
    by (rule aw_commit_ok [OF m(2,5,4) p(1) dirs])
  with n(1) m(1) show thesis by (rule that)
qed

lemma atomic_write_returns:
  assumes ok: "disk_ok (pd_disk s)" and temp: "temp_free (pd_disk s) (temp_path_for p)" and p: "p \<noteq> []" "p \<notin> set (d_dirs (pd_disk s))"
    and dir: "butlast p \<in> set (d_dirs (pd_disk s))" and left: "2 * length bss + 5 \<le> pd_left s"
  shows "fst (atomic_write crash_calls p bss s) = Inr ()"
proof -
  obtain w1 d1 w2 d2 d3 where d: "aw_new disk_calls p (pd_disk s) = (Inr w1, d1)" "aw_write_many disk_calls w1 bss d1 = (Inr w2, d2)"
      "aw_commit disk_calls w2 d2 = (Inr (), d3)"
    by (rule atomic_write_ok [OF ok temp p dir])
  have new: "runs_like (1 + 0) (aw_new crash_calls p) (aw_new disk_calls p)"
    unfolding aw_new_def Let_def by (intro runs_like_bind [OF runs_like_calls(1)] runs_like_return)
  have "1 + 0 + (2 * length bss + 4) \<le> pd_left s" using left by simp
  then obtain s1 where 1: "aw_new crash_calls p s = (Inr w1, s1)" "pd_disk s1 = d1" "2 * length bss + 4 \<le> pd_left s1"
    using new d(1) unfolding runs_like_def by fastforce
  then obtain s2 where 2: "aw_write_many crash_calls w1 bss s1 = (Inr w2, s2)" "pd_disk s2 = d2" "4 \<le> pd_left s2"
    using runs_like_write_many [of bss w1] d(2) unfolding runs_like_def by fastforce
  obtain w3 where "fst (aw_commit_steps disk_calls w2 d2) = Inr w3"
    using d(3) by (auto simp: aw_commit_def split: prod.splits sum.splits)
  moreover have "4 + 0 \<le> pd_left s2" using 2(3) by simp
  ultimately have "fst (aw_commit_steps crash_calls w2 s2) = Inr w3"
    using runs_like_commit [of w2] 2(2) unfolding runs_like_def by (metis fst_conv)
  then have "fst (aw_commit crash_calls w2 s2) = Inr ()"
    by (auto simp: aw_commit_def split: prod.split)
  with 1 2 show ?thesis by (simp add: atomic_write_def io_bind_def)
qed

section \<open>Atomicity across crashes\<close>

lemma create_staging:
  assumes ok: "disk_ok (pd_disk s)" and temp: "temp_free (pd_disk s) (temp_path_for p)" and p: "p \<noteq> []" "p \<notin> set (d_dirs (pd_disk s))"
    and dir: "butlast p \<in> set (d_dirs (pd_disk s))"
    and durable: "pd_names s p = map_of (d_names (pd_disk s)) p"
      "\<And>j. pd_names s p = Some j \<Longrightarrow> pd_data s j = d_data (pd_disk s) j"
    and run: "fs_create (temp_path_for p) (pd_disk s) = (Inr i, d)"
  shows "staging p (file_contents (pd_disk s) p) i [] (s\<lparr>pd_disk := d, pd_left := n\<rparr>)"
proof -
  let ?t = "temp_path_for p"
  have tp: "?t \<noteq> p" using p(1) by simp
  have "butlast ?t \<in> set (d_dirs (pd_disk s))" using dir by simp
  then obtain i' d' where c: "fs_create ?t (pd_disk s) = (Inr i', d')" "sole_name d' i' ?t" "d_data d' i' = []" "disk_ok d'"
      "same_but ?t (pd_disk s) d'"
    using fs_create_ok [OF ok temp] by blast
  then have d: "i' = i" "d' = d" using run by simp_all
  have names: "map_of (d_names d) p = map_of (d_names (pd_disk s)) p"
    and data: "j \<noteq> i \<Longrightarrow> d_data d j = d_data (pd_disk s) j" for j
    using run tp by (auto simp: fs_create_def fs_fresh_def split: if_splits option.splits)
  have "durably p (file_contents (pd_disk s) p) i (s\<lparr>pd_disk := d, pd_left := n\<rparr>)"
  proof (cases "pd_names s p")
    case None
    with durable(1) names show ?thesis by (simp add: durably_def file_contents_def)
  next
    case (Some j)
    then have j: "map_of (d_names d) p = Some j" "map_of (d_names (pd_disk s)) p = Some j" using durable(1) names by simp_all
    then have "j \<noteq> i" using c(2) tp by (auto simp: d sole_name_def)
    with Some j durable(2) [OF Some] data show ?thesis by (simp add: durably_def file_contents_def)
  qed
  then show ?thesis
    using c p(2) dir by (simp add: staging_def d same_but_def)
qed

lemma atomic_write_contents:
  assumes ok: "disk_ok (pd_disk s)" and temp: "temp_free (pd_disk s) (temp_path_for p)" and p: "p \<noteq> []" "p \<notin> set (d_dirs (pd_disk s))"
    and dir: "butlast p \<in> set (d_dirs (pd_disk s))"
    and durable: "pd_names s p = map_of (d_names (pd_disk s)) p"
      "\<And>j. pd_names s p = Some j \<Longrightarrow> pd_data s j = d_data (pd_disk s) j"
    and run: "atomic_write crash_calls p bss s = (r, s')"
  shows "crash_contents s' p \<subseteq> {file_contents (pd_disk s) p, Some (concat bss)}
    \<and> (r = Inr () \<longrightarrow> crash_contents s' p \<subseteq> {Some (concat bss)})"
proof -
  let ?t = "temp_path_for p" and ?old = "file_contents (pd_disk s) p"
  have tp: "?t \<noteq> p" using p(1) by simp
  obtain r1 s1 where 1: "before_crash (fs_create ?t) id s = (r1, s1)" by (cases "before_crash (fs_create ?t) id s")
  then show ?thesis
  proof (cases rule: before_crash_cases)
    case (crashed e)
    have "crash_contents s p \<subseteq> {?old}"
    proof (cases "pd_names s p")
      case None
      with durable(1) show ?thesis by (auto simp: crash_contents_def file_contents_def)
    next
      case (Some j)
      then have "map_of (d_names (pd_disk s)) p = Some j" using durable(1) by simp
      with Some durable(2) [OF Some] show ?thesis by (auto simp: crash_contents_def file_contents_def)
    qed
    then show ?thesis using crashed 1 run by (auto simp: atomic_write_def aw_new_def Let_def io_bind_def)
  next
    case (failed e d)
    have "butlast ?t \<in> set (d_dirs (pd_disk s))" using dir by simp
    then obtain i' d' where "fs_create ?t (pd_disk s) = (Inr i', d')" using fs_create_ok [OF ok temp] by blast
    with failed(1) show ?thesis by simp
  next
    case (completed i d)
    have st: "staging p ?old i [] s1"
      using create_staging [OF ok temp p dir durable completed(1)] completed(3) by simp
    let ?w = "\<lparr>aw_temp_path = ?t, aw_final_path = p, aw_file = Some \<lparr>bw_file = i, bw_buf = []\<rparr>, aw_committed = False\<rparr>"
    obtain r2 s2 where 2: "aw_write_many crash_calls ?w bss s1 = (r2, s2)" by (cases "aw_write_many crash_calls ?w bss s1")
    have new: "aw_new crash_calls p s = (Inr ?w, s1)" using 1 completed(2) by (simp add: aw_new_def Let_def io_bind_def)
    obtain bs where bs: "staging p ?old i bs s2" "\<forall>w'. r2 = Inr w' \<longrightarrow>
        (\<exists>b'. w' = ?w\<lparr>aw_file := Some b'\<rparr> \<and> bw_file b' = i \<and> bs @ bw_buf b' = concat bss)"
      using aw_write_many_staging [OF st _ _ 2] by auto
    show ?thesis
    proof (cases r2)
      case (Inl e)
      then have "s' = aw_drop crash_calls ?w s2" "r = Inl e" using run new 2 by (simp_all add: atomic_write_def io_bind_def)
      then show ?thesis using staging_crash [OF bs(1)] drop_contents [of ?w p s2] tp by auto
    next
      case (Inr w2)
      then obtain b' where b': "w2 = ?w\<lparr>aw_file := Some b'\<rparr>" "bw_file b' = i" "bs @ bw_buf b' = concat bss" using bs(2) by auto
      have "aw_commit crash_calls w2 s2 = (r, s')" using run new 2 Inr by (simp add: atomic_write_def io_bind_def)
      then show ?thesis using b' by (intro commit_contents [OF bs(1) _ b'(2,3) _ _ _ p(1)]) simp_all
    qed
  qed
qed

text \<open>
  C22. An atomic write is all or nothing, crashes included. Let the old file at the final name be
  durable, or let there be none. If the process that opens a writer, writes and commits crashes
  after any number \<open>n\<close> of its file system calls, the final name reads afterwards as the old
  contents or as all the new ones, never a part; once \<open>commit\<close> has returned \<open>Ok\<close>, only the new
  contents can be found; and it returns \<open>Ok\<close> when no crash comes within \<open>2 * length bss + 5\<close> calls.
\<close>

theorem atomic_write_crash_safe:
  assumes ok: "disk_ok (pd_disk s)" and temp: "temp_free (pd_disk s) (temp_path_for p)"
    and p: "p \<noteq> []" "p \<notin> set (d_dirs (pd_disk s))" and dir: "butlast p \<in> set (d_dirs (pd_disk s))"
    and durable: "pd_names s p = map_of (d_names (pd_disk s)) p"
      "\<And>j. pd_names s p = Some j \<Longrightarrow> pd_data s j = d_data (pd_disk s) j"
  shows "(\<forall>n v. crash_view (snd (atomic_write crash_calls p bss (s\<lparr>pd_left := n\<rparr>))) v \<longrightarrow>
        v p = file_contents (pd_disk s) p \<or> v p = Some (concat bss))
    \<and> (\<forall>n s' v. atomic_write crash_calls p bss (s\<lparr>pd_left := n\<rparr>) = (Inr (), s') \<longrightarrow> crash_view s' v \<longrightarrow>
        v p = Some (concat bss))
    \<and> (\<forall>n \<ge> 2 * length bss + 5. fst (atomic_write crash_calls p bss (s\<lparr>pd_left := n\<rparr>)) = Inr ())"
proof -
  have c: "crash_contents s' p \<subseteq> {file_contents (pd_disk s) p, Some (concat bss)}
      \<and> (r = Inr () \<longrightarrow> crash_contents s' p \<subseteq> {Some (concat bss)})"
    if "atomic_write crash_calls p bss (s\<lparr>pd_left := n\<rparr>) = (r, s')" for n r s'
    using atomic_write_contents [of "s\<lparr>pd_left := n\<rparr>" p bss r s'] ok temp p dir durable that by simp
  have "v p = file_contents (pd_disk s) p \<or> v p = Some (concat bss)"
    if "crash_view (snd (atomic_write crash_calls p bss (s\<lparr>pd_left := n\<rparr>))) v" for n v
    using that c [OF prod.collapse [symmetric], of n] by (auto simp: crash_view_def)
  moreover have "v p = Some (concat bss)"
    if "atomic_write crash_calls p bss (s\<lparr>pd_left := n\<rparr>) = (Inr (), s')" "crash_view s' v" for n s' v
    using that(2) c [OF that(1)] by (auto simp: crash_view_def)
  moreover have "fst (atomic_write crash_calls p bss (s\<lparr>pd_left := n\<rparr>)) = Inr ()" if "2 * length bss + 5 \<le> n" for n
    using atomic_write_returns [of "s\<lparr>pd_left := n\<rparr>" p bss] ok temp p dir that by simp
  ultimately show ?thesis by blast
qed

text \<open>A disk with the directory \<open>active\<close> and nothing else, all of it durable.\<close>

definition active_disk :: pdisk where
  "active_disk = \<lparr>pd_disk = \<lparr>d_names = [], d_dirs = [[], [''active'']], d_data = (\<lambda>_. []), d_next = 0\<rparr>,
     pd_names = (\<lambda>_. None), pd_data = (\<lambda>_. []), pd_left = 0\<rparr>"

theorem atomic_write_crash_safe_witness:
  "(\<exists>s'. atomic_write crash_calls [''active'', ''metadata''] [[1, 2], [3]] (active_disk\<lparr>pd_left := 9\<rparr>) = (Inr (), s')
      \<and> (\<lambda>v. v [''active'', ''metadata'']) ` Collect (crash_view s') \<subseteq> {Some [1, 2, 3]})
   \<and> (\<lambda>v. v [''active'', ''metadata'']) ` Collect (crash_view (snd (atomic_write crash_calls [''active'', ''metadata'']
        [[1, 2], [3]] (active_disk\<lparr>pd_left := 4\<rparr>)))) \<subseteq> {None, Some [1, 2, 3]}"
proof -
  have ok: "disk_ok (pd_disk active_disk)" "temp_free (pd_disk active_disk) (temp_path_for [''active'', ''metadata''])"
    by (simp_all add: active_disk_def disk_ok_def temp_free_def temp_path_eq)
  have old: "file_contents (pd_disk active_disk) [''active'', ''metadata''] = None"
    by (simp add: active_disk_def file_contents_def)
  have "[''active'', ''metadata''] \<notin> set (d_dirs (pd_disk active_disk))"
      "butlast [''active'', ''metadata''] \<in> set (d_dirs (pd_disk active_disk))"
      "pd_names active_disk [''active'', ''metadata''] = map_of (d_names (pd_disk active_disk)) [''active'', ''metadata'']"
      "\<And>j. pd_names active_disk [''active'', ''metadata''] = Some j \<Longrightarrow> pd_data active_disk j = d_data (pd_disk active_disk) j"
    by (simp_all add: active_disk_def)
  note t = atomic_write_crash_safe [OF ok _ this, of "[[1, 2], [3]]", unfolded old]
  obtain r s' where run: "atomic_write crash_calls [''active'', ''metadata''] [[1, 2], [3]] (active_disk\<lparr>pd_left := 9\<rparr>) = (r, s')"
    by (metis surj_pair)
  with t have "r = Inr ()" by force
  with t run have "\<forall>v. crash_view s' v \<longrightarrow> v [''active'', ''metadata''] = Some [1, 2, 3]" by simp
  then have "(\<lambda>v. v [''active'', ''metadata'']) ` Collect (crash_view s') \<subseteq> {Some [1, 2, 3]}" by auto
  moreover have "\<forall>v. crash_view (snd (atomic_write crash_calls [''active'', ''metadata''] [[1, 2], [3]] (active_disk\<lparr>pd_left := 4\<rparr>))) v
      \<longrightarrow> v [''active'', ''metadata''] = None \<or> v [''active'', ''metadata''] = Some [1, 2, 3]"
    using t by simp
  then have "(\<lambda>v. v [''active'', ''metadata'']) ` Collect (crash_view (snd (atomic_write crash_calls [''active'', ''metadata'']
        [[1, 2], [3]] (active_disk\<lparr>pd_left := 4\<rparr>)))) \<subseteq> {None, Some [1, 2, 3]}" by auto
  ultimately show ?thesis using run \<open>r = Inr ()\<close> by blast
qed

section \<open>Readers of a running system\<close>

text \<open>
  C23. Until \<open>commit\<close> no reader sees a new file, and afterwards all of it: after opening a writer
  and any number of writes every path but the temporary one reads as before. \<open>commit\<close> then
  installs exactly the bytes written, in the order written whatever the sizes of the pieces,
  and removes the temporary name; dropping the writer instead leaves every other path as it was.
\<close>

theorem atomic_write_visible:
  assumes ok: "disk_ok d" and temp: "temp_free d (temp_path_for p)" and p: "p \<noteq> []" "p \<notin> set (d_dirs d)"
    and dir: "butlast p \<in> set (d_dirs d)"
  shows "\<exists>w1 d1 w2 d2 d3. aw_new disk_calls p d = (Inr w1, d1) \<and> aw_write_many disk_calls w1 bss d1 = (Inr w2, d2)
    \<and> aw_commit disk_calls w2 d2 = (Inr (), d3)
    \<and> (\<forall>q. q \<noteq> temp_path_for p \<longrightarrow> file_contents d1 q = file_contents d q \<and> file_contents d2 q = file_contents d q)
    \<and> file_contents d3 = (file_contents d)(temp_path_for p := None, p \<mapsto> concat bss)
    \<and> file_contents (aw_drop disk_calls w2 d2) = (file_contents d)(temp_path_for p := None)"
proof -
  obtain w1 d1 where n: "aw_new disk_calls p d = (Inr w1, d1)" "aw_tracks d1 w1 []" "same_but (temp_path_for p) d d1"
      "aw_temp_path w1 = temp_path_for p" "aw_final_path w1 = p"
    by (rule aw_new_ok [OF ok temp dir])
  obtain w2 d2 where m: "aw_write_many disk_calls w1 bss d1 = (Inr w2, d2)" "aw_tracks d2 w2 ([] @ concat bss)"
      "same_but (temp_path_for p) d1 d2" "aw_temp_path w2 = temp_path_for p" "aw_final_path w2 = p"
    using aw_write_many_ok [OF n(2), of bss] n(4,5) by auto
  note same = same_but_trans [OF n(3) m(3)]
  have dirs: "p \<notin> set (d_dirs d2)" "butlast p \<in> set (d_dirs d2)" using p(2) dir same by (auto simp: same_but_def)
  obtain d3 where c: "aw_commit disk_calls w2 d2 = (Inr (), d3)"
      "file_contents d3 = (file_contents d2)(temp_path_for p := None, p \<mapsto> [] @ concat bss)"
    by (rule aw_commit_ok [OF m(2,5,4) p(1) dirs])
  have "file_contents (aw_drop disk_calls w2 d2) = (file_contents d2)(temp_path_for p := None)"
    using m(2,4) contents_remove [of "temp_path_for p" d2, OF prod.collapse [symmetric]]
    by (simp add: aw_drop_def aw_tracks_def)
  with n(1,3) m(1) c same show ?thesis by (auto simp: same_but_def fun_eq_iff)
qed

theorem atomic_write_visible_witness:
  "\<exists>w1 d1 w2 d2 d3. aw_new disk_calls [''active'', ''metadata''] (pd_disk active_disk) = (Inr w1, d1)
     \<and> aw_write_many disk_calls w1 [replicate 5000 7, replicate 5000 8] d1 = (Inr w2, d2) \<and> aw_commit disk_calls w2 d2 = (Inr (), d3)
     \<and> file_contents d3 [''active'', ''metadata''] = Some (replicate 5000 7 @ replicate 5000 8)
     \<and> file_contents (aw_drop disk_calls w2 d2) [''active'', ''metadata''] = None"
proof -
  have ok: "disk_ok (pd_disk active_disk)" "temp_free (pd_disk active_disk) (temp_path_for [''active'', ''metadata''])"
    by (simp_all add: active_disk_def disk_ok_def temp_free_def temp_path_eq)
  have old: "file_contents (pd_disk active_disk) [''active'', ''metadata''] = None"
    by (simp add: active_disk_def file_contents_def)
  from atomic_write_visible [OF ok, of "[replicate 5000 7, replicate 5000 8]"] old show ?thesis
    by (fastforce simp: active_disk_def)
qed

end
