(* ===== verification/Merkle.thy ===== *)
theory Merkle
  imports RustText
begin

unbundle bit_operations_syntax

text \<open>
  \<open>src/merkle.rs\<close>: the incremental Merkle tree. Nodes are kept in a sparse table by level and
  index; an insertion stores a leaf at the next index and recomputes the path above it. The hash
  function BLAKE3, from outside the repository, is the parameter \<open>H\<close>: the digest of everything
  the hasher was updated with. The order of the association list of nodes stands for the
  unspecified order of the source's hash table.
\<close>

section \<open>Hashes, proofs and the tree\<close>

type_synonym hash = "byte list"
type_synonym hasher = "byte list \<Rightarrow> byte list"

record node_path =
  np_level :: "8 word"
  np_index :: u64

definition hash_empty :: hash where
  "hash_empty = replicate 32 0"

definition leaf_input :: "byte list \<Rightarrow> byte list \<Rightarrow> byte list" where
  "leaf_input k v = string_bytes ''leaf:'' @ k @ string_bytes '':'' @ v"

definition node_input :: "hash \<Rightarrow> hash \<Rightarrow> byte list" where
  "node_input l r = string_bytes ''node:'' @ l @ string_bytes '':'' @ r"

definition hash_leaf :: "hasher \<Rightarrow> byte list \<Rightarrow> byte list \<Rightarrow> hash" where
  "hash_leaf H k v = H (leaf_input k v)"

definition hash_node :: "hasher \<Rightarrow> hash \<Rightarrow> hash \<Rightarrow> hash" where
  "hash_node H l r = H (node_input l r)"

record merkle_leaf =
  ml_key :: "byte list"
  ml_value :: "byte list"

datatype direction = DirLeft | DirRight

record merkle_proof =
  mp_leaf :: merkle_leaf
  mp_siblings :: "(direction \<times> hash) list"

definition mp_directions :: "merkle_proof \<Rightarrow> direction list" where
  "mp_directions p = map fst (mp_siblings p)"

record merkle_tree =
  mk_nodes :: "(node_path \<times> hash) list"
  mk_root :: hash
  mk_height :: "8 word"
  mk_leaf_count :: u64
  mk_key_to_index :: "byte list \<rightharpoonup> u64"
  mk_leaf_data :: "byte list \<rightharpoonup> byte list"

definition mk_new :: "8 word \<Rightarrow> merkle_tree" where
  "mk_new height = \<lparr>mk_nodes = [], mk_root = hash_empty, mk_height = height, mk_leaf_count = 0,
     mk_key_to_index = Map.empty, mk_leaf_data = Map.empty\<rparr>"

definition node_hash :: "(node_path \<times> hash) list \<Rightarrow> 8 word \<Rightarrow> u64 \<Rightarrow> hash" where
  "node_hash nodes level index =
     (case map_of nodes \<lparr>np_level = level, np_index = index\<rparr> of Some h \<Rightarrow> h | None \<Rightarrow> hash_empty)"

definition direction_of :: "u64 \<Rightarrow> direction" where
  "direction_of index = (if index mod 2 = 0 then DirRight else DirLeft)"

text \<open>One turn of the loop of \<open>insert\<close>.\<close>

definition insert_level ::
    "hasher \<Rightarrow> 8 word \<Rightarrow> (node_path \<times> hash) list \<times> hash \<times> u64 \<times> (direction \<times> hash) list
      \<Rightarrow> (node_path \<times> hash) list \<times> hash \<times> u64 \<times> (direction \<times> hash) list" where
  "insert_level H level = (\<lambda>(nodes, current_hash, current_index, siblings).
     let sibling_hash = node_hash nodes level (current_index XOR 1);
         siblings = siblings @ [(direction_of current_index, sibling_hash)];
         current_hash = (if current_index mod 2 = 0 then hash_node H current_hash sibling_hash
                         else hash_node H sibling_hash current_hash);
         nodes = AList.update \<lparr>np_level = level + 1, np_index = current_index div 2\<rparr> current_hash nodes
     in (nodes, current_hash, current_index div 2, siblings))"

definition levels_below :: "8 word \<Rightarrow> 8 word list" where
  "levels_below height = map of_nat [0..<unat height]"

definition mk_insert :: "hasher \<Rightarrow> byte list \<Rightarrow> byte list \<Rightarrow> merkle_tree \<Rightarrow> merkle_proof \<times> merkle_tree" where
  "mk_insert H key value t =
     (let leaf_hash = hash_leaf H key value;
          leaf_index = mk_leaf_count t;
          nodes = AList.update \<lparr>np_level = 0, np_index = leaf_index\<rparr> leaf_hash (mk_nodes t)
      in case fold (insert_level H) (levels_below (mk_height t)) (nodes, leaf_hash, leaf_index, []) of
           (nodes, current_hash, _, siblings) \<Rightarrow>
             (\<lparr>mp_leaf = \<lparr>ml_key = key, ml_value = value\<rparr>, mp_siblings = siblings\<rparr>,
              t\<lparr>mk_nodes := nodes, mk_root := current_hash, mk_leaf_count := leaf_index + 1,
                mk_key_to_index := (mk_key_to_index t)(key \<mapsto> leaf_index),
                mk_leaf_data := (mk_leaf_data t)(key \<mapsto> value)\<rparr>))"

definition prove_level :: "merkle_tree \<Rightarrow> 8 word \<Rightarrow> u64 \<times> (direction \<times> hash) list \<Rightarrow> u64 \<times> (direction \<times> hash) list" where
  "prove_level t level = (\<lambda>(current_index, siblings).
     (current_index div 2,
      siblings @ [(direction_of current_index, node_hash (mk_nodes t) level (current_index XOR 1))]))"

definition mk_prove :: "merkle_tree \<Rightarrow> byte list \<Rightarrow> merkle_proof option" where
  "mk_prove t key =
     (case mk_key_to_index t key of None \<Rightarrow> None
      | Some leaf_index \<Rightarrow> (case mk_leaf_data t key of None \<Rightarrow> None
        | Some value \<Rightarrow>
            Some \<lparr>mp_leaf = \<lparr>ml_key = key, ml_value = value\<rparr>,
                  mp_siblings = snd (fold (prove_level t) (levels_below (mk_height t)) (leaf_index, []))\<rparr>))"

definition climb :: "hasher \<Rightarrow> direction \<times> hash \<Rightarrow> hash \<Rightarrow> hash" where
  "climb H = (\<lambda>(direction, sibling) current_hash.
     case direction of DirLeft \<Rightarrow> hash_node H sibling current_hash
     | DirRight \<Rightarrow> hash_node H current_hash sibling)"

definition verify_proof :: "hasher \<Rightarrow> hash \<Rightarrow> byte list \<Rightarrow> byte list \<Rightarrow> merkle_proof \<Rightarrow> bool" where
  "verify_proof H root key value p \<longleftrightarrow> fold (climb H) (mp_siblings p) (hash_leaf H key value) = root"

definition mk_verify :: "hasher \<Rightarrow> merkle_tree \<Rightarrow> merkle_proof \<Rightarrow> unit res" where
  "mk_verify H t p =
     (if verify_proof H (mk_root t) (ml_key (mp_leaf p)) (ml_value (mp_leaf p)) p then Inr ()
      else Inl (InvalidOperation ''Merkle proof verification failed''))"

text \<open>\<open>MerkleDiff\<close> is the list of the paths that differ; it is empty when the roots agree.\<close>

definition mk_diff :: "merkle_tree \<Rightarrow> merkle_tree \<Rightarrow> node_path list" where
  "mk_diff t other =
     (if mk_root t \<noteq> mk_root other
      then map fst (filter (\<lambda>(path, hash). case map_of (mk_nodes other) path of
               Some other_hash \<Rightarrow> hash \<noteq> other_hash | None \<Rightarrow> True) (mk_nodes t))
         @ filter (\<lambda>path. map_of (mk_nodes t) path = None) (map fst (mk_nodes other))
      else [])"

record merkle_snapshot =
  ms_root :: hash
  ms_nodes :: "(node_path \<times> hash) list"
  ms_leaf_count :: u64
  ms_key_to_index :: "byte list \<rightharpoonup> u64"
  ms_leaf_data :: "byte list \<rightharpoonup> byte list"
  ms_height :: "8 word"

definition mk_snapshot :: "merkle_tree \<Rightarrow> merkle_snapshot" where
  "mk_snapshot t = \<lparr>ms_root = mk_root t, ms_nodes = mk_nodes t, ms_leaf_count = mk_leaf_count t,
     ms_key_to_index = mk_key_to_index t, ms_leaf_data = mk_leaf_data t, ms_height = mk_height t\<rparr>"

definition mk_rollback :: "merkle_snapshot \<Rightarrow> merkle_tree \<Rightarrow> unit res \<times> merkle_tree" where
  "mk_rollback s t = (Inr (), t\<lparr>mk_root := ms_root s, mk_nodes := ms_nodes s,
     mk_leaf_count := ms_leaf_count s, mk_key_to_index := ms_key_to_index s,
     mk_leaf_data := ms_leaf_data s, mk_height := ms_height s\<rparr>)"

text \<open>\<open>1u64 << height\<close>: the release profile takes the shift distance modulo 64.\<close>

definition max_leaves :: "merkle_tree \<Rightarrow> u64" where
  "max_leaves t = push_bit (unat (mk_height t) mod 64) 1"

definition node_count :: "merkle_tree \<Rightarrow> nat" where
  "node_count t = length (mk_nodes t)"

text \<open>A history of insertions.\<close>

fun insert_all :: "hasher \<Rightarrow> (byte list \<times> byte list) list \<Rightarrow> merkle_tree \<Rightarrow> merkle_tree" where
  "insert_all H [] t = t"
| "insert_all H ((k, v) # kvs) t = insert_all H kvs (snd (mk_insert H k v t))"

section \<open>The tree recomputed from its leaves\<close>

text \<open>
  The reference: the hash of a complete tree of \<open>2 ^ l\<close> leaves, computed from scratch, where a
  subtree without leaves has the empty hash.
\<close>

fun subtree :: "hasher \<Rightarrow> nat \<Rightarrow> hash list \<Rightarrow> hash" where
  "subtree H 0 hs = (case hs of [] \<Rightarrow> hash_empty | h # _ \<Rightarrow> h)"
| "subtree H (Suc l) hs =
     (if hs = [] then hash_empty else hash_node H (subtree H l hs) (subtree H l (drop (2 ^ l) hs)))"

definition hash_at :: "hasher \<Rightarrow> hash list \<Rightarrow> nat \<Rightarrow> nat \<Rightarrow> hash" where
  "hash_at H hs l i = subtree H l (drop (i * 2 ^ l) hs)"

definition leaf_hashes :: "hasher \<Rightarrow> (byte list \<times> byte list) list \<Rightarrow> hash list" where
  "leaf_hashes H kvs = map (\<lambda>(k, v). hash_leaf H k v) kvs"

lemma subtree_Nil [simp]: "subtree H l [] = hash_empty"
  by (cases l) simp_all

lemma subtree_take: "2 ^ l \<le> m \<Longrightarrow> subtree H l (take m hs) = subtree H l hs"
proof (induction l arbitrary: m hs)
  case 0
  then show ?case by (cases hs; cases m) simp_all
next
  case (Suc l)
  then have "2 ^ l \<le> m" "2 ^ l \<le> m - 2 ^ l" and m: "m \<noteq> 0" by (simp_all, cases m, simp_all)
  with Suc.IH [of m hs] Suc.IH [of "m - 2 ^ l" "drop (2 ^ l) hs"] show ?case
    by (simp add: drop_take)
qed

lemma hash_at_beyond: "length hs \<le> i * 2 ^ l \<Longrightarrow> hash_at H hs l i = hash_empty"
  by (simp add: hash_at_def)

text \<open>A parent is the hash of its two children.\<close>

lemma hash_at_parent:
  assumes "p * 2 ^ Suc l < length hs"
  shows "hash_at H hs (Suc l) p = hash_node H (hash_at H hs l (2 * p)) (hash_at H hs l (2 * p + 1))"
proof -
  have "2 ^ l + p * (2 * 2 ^ l) = (2 * p + 1) * (2 :: nat) ^ l" by (simp add: algebra_simps)
  with assms show ?thesis by (simp add: hash_at_def algebra_simps)
qed

text \<open>A new leaf changes the hashes above it and no others.\<close>

lemma hash_at_other:
  assumes "i \<noteq> length hs div 2 ^ l"
  shows "hash_at H (hs @ [x]) l i = hash_at H hs l i"
    and "i * 2 ^ l < length (hs @ [x]) \<longleftrightarrow> i * 2 ^ l < length hs"
proof -
  let ?b = "(2 :: nat) ^ l" and ?n = "length hs"
  have b: "0 < ?b" by simp
  consider "i < ?n div ?b" | "?n div ?b < i" using assms by linarith
  then have "hash_at H (hs @ [x]) l i = hash_at H hs l i
    \<and> (i * ?b < length (hs @ [x]) \<longleftrightarrow> i * ?b < ?n)"
  proof cases
    case 1
    then have "Suc i * ?b \<le> ?n div ?b * ?b" by (intro mult_le_mono1) simp
    also have "\<dots> \<le> ?n" by simp
    finally have le: "i * ?b + ?b \<le> ?n" by simp
    then have "take ?b (drop (i * ?b) (hs @ [x])) = take ?b (drop (i * ?b) hs)" by simp
    then have "subtree H l (take ?b (drop (i * ?b) (hs @ [x]))) = subtree H l (take ?b (drop (i * ?b) hs))"
      by (rule arg_cong)
    then have "hash_at H (hs @ [x]) l i = hash_at H hs l i" by (simp only: subtree_take [OF order_refl] hash_at_def)
    moreover have "i * ?b < ?n" using le b by linarith
    ultimately show ?thesis by simp
  next
    case 2
    then have "?n < i * ?b" using div_less_iff_less_mult [OF b, of ?n i] by simp
    then show ?thesis by (simp add: hash_at_def)
  qed
  then show "hash_at H (hs @ [x]) l i = hash_at H hs l i"
    and "i * ?b < length (hs @ [x]) \<longleftrightarrow> i * ?b < ?n" by simp_all
qed

section \<open>The nodes represent the leaves\<close>

definition sibling :: "nat \<Rightarrow> nat" where
  "sibling i = (if even i then i + 1 else i - 1)"

lemma unat_sibling: "unat (i XOR 1 :: u64) = sibling (unat i)"
proof -
  have "unat (i XOR 1) = unat i XOR unat (1 :: u64)" by (rule unsigned_xor_eq)
  then show ?thesis by (simp only: unsigned_1 One_nat_def xor_Suc_0_eq) (simp add: sibling_def)
qed

lemma direction_of_unat: "direction_of i = (if even (unat i) then DirRight else DirLeft)"
proof -
  have "i mod 2 = 0 \<longleftrightarrow> unat (i mod 2) = 0" by (metis unat_0 unat_eq_zero)
  also have "\<dots> \<longleftrightarrow> even (unat i)" by (simp add: unat_mod even_iff_mod_2_eq_zero)
  finally show ?thesis by (simp add: direction_of_def)
qed

lemma even_unat: "(i :: u64) mod 2 = 0 \<longleftrightarrow> even (unat i)"
  using direction_of_unat [of i] by (simp add: direction_of_def split: if_splits)

text \<open>The path of hashes beside the way from leaf \<open>j\<close> up to level \<open>m\<close>.\<close>

definition siblings_of :: "hasher \<Rightarrow> hash list \<Rightarrow> nat \<Rightarrow> nat \<Rightarrow> (direction \<times> hash) list" where
  "siblings_of H hs j m =
     map (\<lambda>l. (if even (j div 2 ^ l) then DirRight else DirLeft, hash_at H hs l (sibling (j div 2 ^ l)))) [0..<m]"

lemma hash_at_climb:
  assumes "j < length hs"
  shows "hash_at H hs (Suc l) (j div 2 ^ Suc l) =
    climb H (if even (j div 2 ^ l) then DirRight else DirLeft, hash_at H hs l (sibling (j div 2 ^ l)))
      (hash_at H hs l (j div 2 ^ l))"
proof -
  let ?i = "j div 2 ^ l"
  have half: "j div 2 ^ Suc l = ?i div 2" by (simp add: power_Suc2 div_mult2_eq del: power_Suc)
  have "j div 2 ^ Suc l * 2 ^ Suc l < length hs"
    using assms by (metis div_times_less_eq_dividend le_less_trans)
  then have p: "hash_at H hs (Suc l) (?i div 2) =
      hash_node H (hash_at H hs l (2 * (?i div 2))) (hash_at H hs l (2 * (?i div 2) + 1))"
    unfolding half by (rule hash_at_parent)
  show ?thesis
  proof (cases "even ?i")
    case True
    with p half show ?thesis by (simp add: climb_def sibling_def)
  next
    case False
    then have "2 * (?i div 2) = ?i - 1" by (rule odd_two_times_div_two_nat)
    moreover from False have "2 * (?i div 2) + 1 = ?i" by (rule odd_two_times_div_two_succ)
    ultimately show ?thesis using p half False by (simp add: climb_def sibling_def)
  qed
qed

lemma hash_at_leaf: "j < length hs \<Longrightarrow> hash_at H hs 0 j = hs ! j"
  by (simp add: hash_at_def flip: Cons_nth_drop_Suc)

lemma fold_climb:
  "j < length hs \<Longrightarrow> fold (climb H) (siblings_of H hs j m) (hs ! j) = hash_at H hs m (j div 2 ^ m)"
proof (induction m)
  case (Suc m)
  then show ?case using hash_at_climb [OF Suc.prems, of H m] by (simp add: siblings_of_def)
qed (simp add: siblings_of_def hash_at_leaf)

text \<open>
  Nodes below level \<open>m\<close> are those of the leaves \<open>hs'\<close>, the others those of \<open>hs\<close>; a tree at
  rest has both the same.
\<close>

definition nodes_between ::
    "hasher \<Rightarrow> 8 word \<Rightarrow> hash list \<Rightarrow> hash list \<Rightarrow> nat \<Rightarrow> (node_path \<times> hash) list \<Rightarrow> bool" where
  "nodes_between H height hs hs' m nodes \<longleftrightarrow> distinct (map fst nodes)
     \<and> (\<forall>l i. map_of nodes \<lparr>np_level = l, np_index = i\<rparr> =
          (let xs = if unat l < m then hs' else hs in
           if l \<le> height \<and> unat i * 2 ^ unat l < length xs then Some (hash_at H xs (unat l) (unat i)) else None))"

abbreviation nodes_ok :: "hasher \<Rightarrow> 8 word \<Rightarrow> hash list \<Rightarrow> (node_path \<times> hash) list \<Rightarrow> bool" where
  "nodes_ok H height hs nodes \<equiv> nodes_between H height hs hs 0 nodes"

lemma nodes_between_same: "nodes_between H height hs hs m = nodes_between H height hs hs 0"
  by (simp add: nodes_between_def fun_eq_iff)

lemma nodes_between_end:
  "unat height < m \<Longrightarrow> nodes_between H height hs hs' m nodes \<Longrightarrow> nodes_ok H height hs' nodes"
  by (auto simp: nodes_between_def word_le_nat_alt Let_def)

lemma node_hash_between:
  "nodes_between H height hs hs' m nodes \<Longrightarrow> l \<le> height \<Longrightarrow> unat l < m \<Longrightarrow>
   node_hash nodes l i = hash_at H hs' (unat l) (unat i)"
  by (auto simp: nodes_between_def node_hash_def hash_at_beyond not_less)

text \<open>Storing the node above the new leaf on the next level.\<close>

lemma nodes_between_store:
  assumes n: "nodes_between H height hs (hs @ [x]) m nodes" and m: "m \<le> unat height"
    and i: "i = length hs div 2 ^ m" "i < 2 ^ 64"
  shows "nodes_between H height hs (hs @ [x]) (Suc m)
    (AList.update \<lparr>np_level = of_nat m, np_index = of_nat i\<rparr> (hash_at H (hs @ [x]) m i) nodes)"
proof -
  have "unat height < 2 ^ LENGTH(8)" by (rule unsigned_less)
  then have "m < 256" using m by simp
  then have level: "unat (of_nat m :: 8 word) = m" by (simp add: unsigned_of_nat take_bit_nat_eq_self)
  have index: "unat (of_nat i :: u64) = i" using i(2) by (simp add: unsigned_of_nat take_bit_nat_eq_self)
  have here: "i * 2 ^ m < length (hs @ [x])"
    using div_times_less_eq_dividend [of "length hs" "2 ^ m"] by (simp add: i(1) less_Suc_eq_le)
  have split: "unat l < Suc m \<longleftrightarrow> unat l < m \<or> l = of_nat m" for l :: "8 word"
    using level by (metis less_Suc_eq word_unat_eq_iff)
  show ?thesis
    unfolding nodes_between_def
  proof (intro conjI allI)
    show "distinct (map fst (AList.update \<lparr>np_level = of_nat m, np_index = of_nat i\<rparr> (hash_at H (hs @ [x]) m i) nodes))"
      using n by (simp add: nodes_between_def distinct_update)
    fix l and j :: u64
    have old: "map_of nodes \<lparr>np_level = l, np_index = j\<rparr> =
          (let xs = if unat l < m then hs @ [x] else hs in
           if l \<le> height \<and> unat j * 2 ^ unat l < length xs then Some (hash_at H xs (unat l) (unat j)) else None)"
      using n unfolding nodes_between_def by blast
    consider "l \<noteq> of_nat m" | "l = of_nat m" "j = of_nat i" | "l = of_nat m" "j \<noteq> of_nat i" by blast
    then show "map_of (AList.update \<lparr>np_level = of_nat m, np_index = of_nat i\<rparr> (hash_at H (hs @ [x]) m i) nodes)
            \<lparr>np_level = l, np_index = j\<rparr> =
          (let xs = if unat l < Suc m then hs @ [x] else hs in
           if l \<le> height \<and> unat j * 2 ^ unat l < length xs then Some (hash_at H xs (unat l) (unat j)) else None)"
    proof cases
      case 1
      then show ?thesis using old by (simp add: update_conv' split)
    next
      case 2
      then show ?thesis using here level index m by (simp add: update_conv' word_le_nat_alt)
    next
      case 3
      then have "unat j \<noteq> length hs div 2 ^ m" using index i(1) by (metis word_unat_eq_iff)
      note same = hash_at_other [OF this]
      show ?thesis using 3 old level same by (simp add: update_conv')
    qed
  qed
qed

lemma of_nat_half:
  assumes "n < 2 ^ 64"
  shows "(of_nat (n div 2 ^ m) :: u64) div 2 = of_nat (n div 2 ^ Suc m)"
proof (rule word_unat_eq_iff [THEN iffD2])
  have "n div 2 ^ m < 2 ^ 64" "n div 2 ^ Suc m < 2 ^ 64"
    using assms by (meson div_le_dividend le_less_trans)+
  then have "unat (of_nat (n div 2 ^ m) :: u64) = n div 2 ^ m" "unat (of_nat (n div 2 ^ Suc m) :: u64) = n div 2 ^ Suc m"
    by (simp_all add: unsigned_of_nat take_bit_nat_eq_self)
  moreover have "n div 2 ^ Suc m = n div 2 ^ m div 2" by (simp add: power_Suc2 div_mult2_eq del: power_Suc)
  ultimately show "unat ((of_nat (n div 2 ^ m) :: u64) div 2) = unat (of_nat (n div 2 ^ Suc m) :: u64)"
    by (simp add: unat_div)
qed

lemma unat_of_nat_path: "n < 2 ^ 64 \<Longrightarrow> unat (of_nat (n div 2 ^ m) :: u64) = n div 2 ^ m"
proof -
  assume "n < 2 ^ 64"
  then have "n div 2 ^ m < 2 ^ 64" by (meson div_le_dividend le_less_trans)
  then show ?thesis by (simp add: unsigned_of_nat take_bit_nat_eq_self)
qed

lemma unat_of_nat_level: "m \<le> unat (height :: 8 word) \<Longrightarrow> unat (of_nat m :: 8 word) = m"
proof -
  have "unat height < 2 ^ LENGTH(8)" by (rule unsigned_less)
  moreover assume "m \<le> unat height"
  ultimately show ?thesis by (simp add: unsigned_of_nat take_bit_nat_eq_self)
qed

lemma insert_loop:
  assumes n: "n = length hs" "n < 2 ^ 64" and start: "nodes_between H height hs (hs @ [x]) (Suc 0) nodes"
    and m: "m \<le> unat height"
  shows "\<exists>nodes'. fold (insert_level H) (map of_nat [0..<m]) (nodes, x, of_nat n, []) =
      (nodes', hash_at H (hs @ [x]) m (n div 2 ^ m), of_nat (n div 2 ^ m), siblings_of H (hs @ [x]) n m)
    \<and> nodes_between H height hs (hs @ [x]) (Suc m) nodes'"
  using m
proof (induction m)
  case 0
  then show ?case using start by (simp add: siblings_of_def hash_at_leaf n(1))
next
  case (Suc m)
  let ?hs = "hs @ [x]" and ?i = "n div 2 ^ m" and ?j = "n div 2 ^ Suc m"
  from Suc obtain nodes' where loop: "fold (insert_level H) (map of_nat [0..<m]) (nodes, x, of_nat n, []) =
      (nodes', hash_at H ?hs m ?i, of_nat ?i, siblings_of H ?hs n m)"
    and nodes': "nodes_between H height hs ?hs (Suc m) nodes'" by auto
  have level: "unat (of_nat m :: 8 word) = m" "unat (of_nat (Suc m) :: 8 word) = Suc m"
    using Suc.prems unat_of_nat_level [of m height] unat_of_nat_level [of "Suc m" height] by simp_all
  have "of_nat m \<le> height" using Suc.prems level(1) by (simp add: word_le_nat_alt)
  then have sib: "node_hash nodes' (of_nat m) (of_nat ?i XOR 1) = hash_at H ?hs m (sibling ?i)"
    using node_hash_between [OF nodes'] level(1) unat_of_nat_path [OF n(2)] by (simp add: unat_sibling)
  have even: "(of_nat ?i :: u64) mod 2 = 0 \<longleftrightarrow> even ?i"
    using unat_of_nat_path [OF n(2)] by (simp add: even_unat)
  have up: "hash_at H ?hs (Suc m) ?j =
      (if even ?i then hash_node H (hash_at H ?hs m ?i) (hash_at H ?hs m (sibling ?i))
       else hash_node H (hash_at H ?hs m (sibling ?i)) (hash_at H ?hs m ?i))"
    using hash_at_climb [of n ?hs H m] n(1) by (simp add: climb_def)
  have "?j < 2 ^ 64" using n(2) by (meson div_le_dividend le_less_trans)
  then have "nodes_between H height hs ?hs (Suc (Suc m))
      (AList.update \<lparr>np_level = of_nat (Suc m), np_index = of_nat ?j\<rparr> (hash_at H ?hs (Suc m) ?j) nodes')"
    using nodes_between_store [OF nodes' Suc.prems] n(1) by simp
  moreover have "fold (insert_level H) (map of_nat [0..<Suc m]) (nodes, x, of_nat n, []) =
      (AList.update \<lparr>np_level = of_nat (Suc m), np_index = of_nat ?j\<rparr> (hash_at H ?hs (Suc m) ?j) nodes',
       hash_at H ?hs (Suc m) ?j, of_nat ?j, siblings_of H ?hs n (Suc m))"
    using loop sib even up of_nat_half [OF n(2), of m]
    by (simp add: insert_level_def Let_def siblings_of_def direction_of_def add.commute)
  ultimately show ?case by blast
qed

lemma prove_loop:
  assumes ok: "nodes_ok H (mk_height t) hs (mk_nodes t)" and j: "unat j < length hs"
    and m: "m \<le> unat (mk_height t)"
  shows "fold (prove_level t) (map of_nat [0..<m]) (j, []) = (of_nat (unat j div 2 ^ m), siblings_of H hs (unat j) m)"
  using m
proof (induction m)
  case (Suc m)
  let ?i = "unat j div 2 ^ m"
  have "unat j < 2 ^ LENGTH(64)" by (rule unsigned_less)
  then have n: "unat j < 2 ^ 64" by simp
  have level: "unat (of_nat m :: 8 word) = m" using Suc.prems unat_of_nat_level [of m "mk_height t"] by simp
  have "of_nat m \<le> mk_height t" using Suc.prems level by (simp add: word_le_nat_alt)
  moreover have "nodes_between H (mk_height t) hs hs (Suc m) (mk_nodes t)" using ok by (simp add: nodes_between_same [of _ _ _ "Suc m"])
  ultimately have sib: "node_hash (mk_nodes t) (of_nat m) (of_nat ?i XOR 1) = hash_at H hs m (sibling ?i)"
    using node_hash_between level unat_of_nat_path [OF n] by (simp add: unat_sibling)
  have "(of_nat ?i :: u64) mod 2 = 0 \<longleftrightarrow> even ?i"
    using unat_of_nat_path [OF n] by (simp add: even_unat)
  with Suc sib show ?case
    by (simp add: prove_level_def siblings_of_def direction_of_def of_nat_half [OF n])
qed (simp add: siblings_of_def)

section \<open>The state of a tree after a history of insertions\<close>

definition block_root :: "hasher \<Rightarrow> 8 word \<Rightarrow> hash list \<Rightarrow> nat \<Rightarrow> hash" where
  "block_root H height hs j = hash_at H hs (unat height) (j div 2 ^ unat height)"

definition merkle_ok :: "hasher \<Rightarrow> (byte list \<times> byte list) list \<Rightarrow> merkle_tree \<Rightarrow> bool" where
  "merkle_ok H kvs t \<longleftrightarrow> nodes_ok H (mk_height t) (leaf_hashes H kvs) (mk_nodes t)
     \<and> unat (mk_leaf_count t) = length kvs
     \<and> mk_root t = (if kvs = [] then hash_empty
          else block_root H (mk_height t) (leaf_hashes H kvs) (length kvs - 1))
     \<and> mk_leaf_data t = map_of (rev kvs)
     \<and> (\<forall>k. mk_key_to_index t k = None \<longleftrightarrow> k \<notin> fst ` set kvs)
     \<and> (\<forall>k j. mk_key_to_index t k = Some j \<longrightarrow>
          unat j < length kvs \<and> fst (kvs ! unat j) = k \<and> snd (kvs ! unat j) = the (map_of (rev kvs) k)
          \<and> (\<forall>i. unat j < i \<longrightarrow> i < length kvs \<longrightarrow> fst (kvs ! i) \<noteq> k))"

lemma length_leaf_hashes [simp]: "length (leaf_hashes H kvs) = length kvs"
  by (simp add: leaf_hashes_def)

lemma merkle_ok_new: "merkle_ok H [] (mk_new height)"
  by (simp add: merkle_ok_def mk_new_def nodes_between_def leaf_hashes_def Let_def)

lemma mk_insert_ok:
  assumes t: "merkle_ok H kvs t" and len: "Suc (length kvs) < 2 ^ 64"
  obtains t' where "mk_insert H k v t = (\<lparr>mp_leaf = \<lparr>ml_key = k, ml_value = v\<rparr>,
      mp_siblings = siblings_of H (leaf_hashes H (kvs @ [(k, v)])) (length kvs) (unat (mk_height t))\<rparr>, t')"
    and "merkle_ok H (kvs @ [(k, v)]) t'" and "mk_height t' = mk_height t"
proof -
  let ?hs = "leaf_hashes H kvs" and ?x = "hash_leaf H k v" and ?n = "length kvs" and ?h = "unat (mk_height t)"
  have hs': "leaf_hashes H (kvs @ [(k, v)]) = ?hs @ [?x]" by (simp add: leaf_hashes_def)
  have n: "?n = length ?hs" "?n < 2 ^ 64" using len by simp_all
  have count: "unat (mk_leaf_count t) = ?n" using t by (simp add: merkle_ok_def)
  then have index: "mk_leaf_count t = of_nat ?n" 
    using n(2) by (simp add: word_unat_eq_iff unsigned_of_nat take_bit_nat_eq_self)
  have "nodes_between H (mk_height t) ?hs (?hs @ [?x]) 0 (mk_nodes t)"
    using t by (simp add: merkle_ok_def nodes_between_def)
  from nodes_between_store [OF this le0, of ?n]
  have "nodes_between H (mk_height t) ?hs (?hs @ [?x]) (Suc 0)
      (AList.update \<lparr>np_level = of_nat 0, np_index = of_nat ?n\<rparr> (hash_at H (?hs @ [?x]) 0 ?n) (mk_nodes t))"
    using n by (simp only: power_0 div_by_1)
  moreover have "hash_at H (?hs @ [?x]) 0 ?n = ?x" by (simp add: hash_at_def)
  ultimately have "nodes_between H (mk_height t) ?hs (?hs @ [?x]) (Suc 0)
      (AList.update \<lparr>np_level = 0, np_index = of_nat ?n\<rparr> ?x (mk_nodes t))" by simp
  from insert_loop [OF n this order_refl] obtain nodes' where
    loop: "fold (insert_level H) (levels_below (mk_height t))
        (AList.update \<lparr>np_level = 0, np_index = of_nat ?n\<rparr> ?x (mk_nodes t), ?x, of_nat ?n, []) =
        (nodes', block_root H (mk_height t) (?hs @ [?x]) ?n, of_nat (?n div 2 ^ ?h), siblings_of H (?hs @ [?x]) ?n ?h)"
    and nodes': "nodes_between H (mk_height t) ?hs (?hs @ [?x]) (Suc ?h) nodes'"
    unfolding levels_below_def block_root_def by blast
  let ?t = "t\<lparr>mk_nodes := nodes', mk_root := block_root H (mk_height t) (?hs @ [?x]) ?n,
      mk_leaf_count := of_nat ?n + 1, mk_key_to_index := (mk_key_to_index t)(k \<mapsto> of_nat ?n),
      mk_leaf_data := (mk_leaf_data t)(k \<mapsto> v)\<rparr>"
  have ins: "mk_insert H k v t = (\<lparr>mp_leaf = \<lparr>ml_key = k, ml_value = v\<rparr>,
      mp_siblings = siblings_of H (?hs @ [?x]) ?n ?h\<rparr>, ?t)"
    using loop by (simp add: mk_insert_def index Let_def)
  have "(of_nat ?n + 1 :: u64) = of_nat (Suc ?n)" by simp
  then have "unat (of_nat ?n + 1 :: u64) = Suc ?n"
    using len by (simp only: unsigned_of_nat) (simp add: take_bit_nat_eq_self)
  moreover have "unat (of_nat ?n :: u64) = ?n" using n(2) by (simp add: unsigned_of_nat take_bit_nat_eq_self)
  moreover have "nodes_ok H (mk_height t) (?hs @ [?x]) nodes'" using nodes_between_end [OF _ nodes'] by simp
  ultimately have "merkle_ok H (kvs @ [(k, v)]) ?t"
    using t unfolding merkle_ok_def hs' by (auto simp: nth_append intro: less_SucI)
  then show thesis using ins hs' by (intro that [of ?t]) simp_all
qed

lemma insert_all_ok:
  assumes "merkle_ok H kvs t" and "length kvs + length xs < 2 ^ 64"
  shows "merkle_ok H (kvs @ xs) (insert_all H xs t) \<and> mk_height (insert_all H xs t) = mk_height t"
  using assms
proof (induction xs arbitrary: kvs t)
  case (Cons x xs)
  obtain k v where x: "x = (k, v)" by (cases x)
  have "Suc (length kvs) < 2 ^ 64" using Cons.prems(2) by simp
  then obtain t' p where "mk_insert H k v t = (p, t')" "merkle_ok H (kvs @ [(k, v)]) t'" "mk_height t' = mk_height t"
    using mk_insert_ok [OF Cons.prems(1)] by metis
  with Cons.IH [of "kvs @ [(k, v)]" t'] Cons.prems(2) show ?case by (simp add: x)
qed simp

end
