(* ===== verification/MerkleProperties.thy ===== *)
theory MerkleProperties
  imports Merkle
begin

text \<open>
  What the Merkle tree promises: its root is the root of the tree recomputed from all leaves,
  its proofs verify, a proof commits to the leaf, and two trees differ where their nodes do.
  No property of the hash function is assumed; where collisions matter, the two inputs that
  collide are named.
\<close>

section \<open>Roots and proofs\<close>

lemma insert_all_new:
  assumes "length kvs < 2 ^ 64"
  shows "merkle_ok H kvs (insert_all H kvs (mk_new height))"
    and "mk_height (insert_all H kvs (mk_new height)) = height"
  using insert_all_ok [OF merkle_ok_new, where xs = kvs] assms by (simp_all add: mk_new_def)

lemma block_root_within:
  "j < 2 ^ unat height \<Longrightarrow> block_root H height hs j = subtree H (unat height) hs"
  by (simp add: block_root_def hash_at_def)

text \<open>A tree is recomputed from its insertions; the last \<open>2 ^ height\<close>-aligned block counts.\<close>

lemma merkle_root:
  assumes "merkle_ok H kvs t"
  shows "mk_root t = block_root H (mk_height t) (leaf_hashes H kvs) (length kvs - 1)"
  using assms by (cases "kvs = []") (simp_all add: merkle_ok_def block_root_def hash_at_def leaf_hashes_def)

lemma prove_key:
  assumes t: "merkle_ok H kvs t" and v: "map_of (rev kvs) k = Some v"
  obtains j where "j < length kvs" and "kvs ! j = (k, v)" and "\<forall>i. j < i \<longrightarrow> i < length kvs \<longrightarrow> fst (kvs ! i) \<noteq> k"
    and "mk_prove t k = Some \<lparr>mp_leaf = \<lparr>ml_key = k, ml_value = v\<rparr>,
      mp_siblings = siblings_of H (leaf_hashes H kvs) j (unat (mk_height t))\<rparr>"
proof -
  have "k \<in> fst ` set kvs" using v by (metis map_of_eq_None_iff option.distinct(1) set_rev)
  then obtain w where w: "mk_key_to_index t k = Some w" using t by (auto simp: merkle_ok_def)
  have j: "unat w < length kvs" "fst (kvs ! unat w) = k" "snd (kvs ! unat w) = v"
      "\<forall>i. unat w < i \<longrightarrow> i < length kvs \<longrightarrow> fst (kvs ! i) \<noteq> k"
    using t w v by (auto simp: merkle_ok_def)
  have "nodes_ok H (mk_height t) (leaf_hashes H kvs) (mk_nodes t)" "mk_leaf_data t k = Some v"
    using t v by (simp_all add: merkle_ok_def)
  with prove_loop [OF this(1) _ order_refl, of w] j(1) w
  have "mk_prove t k = Some \<lparr>mp_leaf = \<lparr>ml_key = k, ml_value = v\<rparr>,
      mp_siblings = siblings_of H (leaf_hashes H kvs) (unat w) (unat (mk_height t))\<rparr>"
    by (simp add: mk_prove_def levels_below_def)
  with j show thesis by (intro that [of "unat w"]) (auto simp: prod_eq_iff)
qed

lemma prove_absent: "merkle_ok H kvs t \<Longrightarrow> k \<notin> fst ` set kvs \<Longrightarrow> mk_prove t k = None"
  by (simp add: merkle_ok_def mk_prove_def split: option.split)

lemma verify_leaf:
  assumes "merkle_ok H kvs t" and "j < length kvs" and "kvs ! j = (k, v)"
    and "mp_leaf p = \<lparr>ml_key = k, ml_value = v\<rparr>"
    and "mp_siblings p = siblings_of H (leaf_hashes H kvs) j (unat (mk_height t))"
  shows "mk_verify H t p = Inr () \<longleftrightarrow> block_root H (mk_height t) (leaf_hashes H kvs) j = mk_root t"
  using fold_climb [of j "leaf_hashes H kvs" H "unat (mk_height t)"] assms
  by (simp add: mk_verify_def verify_proof_def leaf_hashes_def block_root_def)

text \<open>
  C24. The incremental root is the root of the whole tree. After any insertions that fit the
  height, the root kept by recomputing one path per insertion is the hash of the complete
  tree computed from all leaf hashes, missing subtrees counting as the empty hash; and every
  stored node is the hash of the leaves below it.
\<close>

theorem incremental_root_exact:
  assumes "length kvs \<le> 2 ^ unat height" and "length kvs < 2 ^ 64" and "t = insert_all H kvs (mk_new height)"
  shows "mk_root t = subtree H (unat height) (leaf_hashes H kvs)
    \<and> (\<forall>l i. l \<le> height \<longrightarrow> unat i * 2 ^ unat l < length kvs \<longrightarrow>
          map_of (mk_nodes t) \<lparr>np_level = l, np_index = i\<rparr>
            = Some (subtree H (unat l) (drop (unat i * 2 ^ unat l) (leaf_hashes H kvs))))"
proof -
  note t = insert_all_new [OF assms(2), of H height, folded assms(3)]
  have "length kvs - 1 < 2 ^ unat height" using assms(1) by (cases kvs) simp_all
  then have "mk_root t = subtree H (unat height) (leaf_hashes H kvs)"
    using merkle_root [OF t(1)] t(2) by (simp add: block_root_within)
  moreover have "nodes_ok H height (leaf_hashes H kvs) (mk_nodes t)"
    using t by (simp add: merkle_ok_def)
  ultimately show ?thesis by (simp add: nodes_between_def hash_at_def Let_def)
qed

text \<open>A cheap stand-in for a hash function: the input itself.\<close>

definition plain_hash :: hasher where
  "plain_hash bs = bs"

theorem incremental_root_exact_witness:
  "mk_root (insert_all plain_hash [([1], [2]), ([3], [4])] (mk_new 1))
     = node_input (leaf_input [1] [2]) (leaf_input [3] [4])"
  using incremental_root_exact [of "[([1], [2]), ([3], [4])]" 1 _ plain_hash]
  by (simp add: leaf_hashes_def hash_leaf_def hash_node_def plain_hash_def)

text \<open>
  C25. Every key inserted can be proved, and no other. Within the capacity of the tree \<open>prove\<close>
  answers \<open>None\<close> exactly for the keys never inserted; for the others it gives a proof of the
  key's latest value, one sibling per level, which \<open>verify\<close> accepts. The proof returned by
  \<open>insert\<close> is the one \<open>prove\<close> gives afterwards, and \<open>verify\<close> accepts it in the new tree.
\<close>

theorem inclusion_proofs_verify:
  assumes "length kvs \<le> 2 ^ unat height" and "Suc (length kvs) < 2 ^ 64" and t_def: "t = insert_all H kvs (mk_new height)"
  shows "(mk_prove t k = None \<longleftrightarrow> k \<notin> fst ` set kvs)
    \<and> (\<forall>v. map_of (rev kvs) k = Some v \<longrightarrow> (\<exists>p. mk_prove t k = Some p
          \<and> mp_leaf p = \<lparr>ml_key = k, ml_value = v\<rparr> \<and> length (mp_siblings p) = unat height
          \<and> mk_verify H t p = Inr ()))
    \<and> (\<exists>p t'. mk_insert H k x t = (p, t') \<and> mk_prove t' k = Some p \<and> mk_verify H t' p = Inr ())"
proof (intro conjI allI impI)
  have "length kvs < 2 ^ 64" using assms(2) by simp
  note t = insert_all_new [OF this, of H height, folded t_def]
  show "mk_prove t k = None \<longleftrightarrow> k \<notin> fst ` set kvs"
  proof (cases "map_of (rev kvs) k")
    case None
    with t(1) show ?thesis
      by (auto simp: merkle_ok_def mk_prove_def map_of_eq_None_iff split: option.split)
  next
    case (Some v)
    obtain j where "mk_prove t k = Some \<lparr>mp_leaf = \<lparr>ml_key = k, ml_value = v\<rparr>,
        mp_siblings = siblings_of H (leaf_hashes H kvs) j (unat (mk_height t))\<rparr>"
      by (rule prove_key [OF t(1) Some])
    moreover have "k \<in> fst ` set kvs" using Some by (metis map_of_eq_None_iff option.distinct(1) set_rev)
    ultimately show ?thesis by simp
  qed
  fix v
  assume "map_of (rev kvs) k = Some v"
  then obtain j where j: "j < length kvs" "kvs ! j = (k, v)"
      "mk_prove t k = Some \<lparr>mp_leaf = \<lparr>ml_key = k, ml_value = v\<rparr>,
        mp_siblings = siblings_of H (leaf_hashes H kvs) j (unat (mk_height t))\<rparr>"
    by (rule prove_key [OF t(1)])
  have "block_root H (mk_height t) (leaf_hashes H kvs) j = mk_root t"
    using merkle_root [OF t(1)] j(1) assms(1) t(2) by (simp add: block_root_within)
  with verify_leaf [OF t(1) j(1,2)] j(3) t(2)
  show "\<exists>p. mk_prove t k = Some p \<and> mp_leaf p = \<lparr>ml_key = k, ml_value = v\<rparr>
      \<and> length (mp_siblings p) = unat height \<and> mk_verify H t p = Inr ()"
    by (simp add: siblings_of_def)
next
  have "length kvs < 2 ^ 64" using assms(2) by simp
  note t = insert_all_new [OF this, of H height, folded t_def]
  let ?kvs = "kvs @ [(k, x)]"
  obtain t' where i: "mk_insert H k x t = (\<lparr>mp_leaf = \<lparr>ml_key = k, ml_value = x\<rparr>,
        mp_siblings = siblings_of H (leaf_hashes H ?kvs) (length kvs) (unat (mk_height t))\<rparr>, t')"
    and t': "merkle_ok H ?kvs t'" "mk_height t' = mk_height t"
    by (rule mk_insert_ok [OF t(1) assms(2)])
  obtain j where j: "j < length ?kvs" "\<forall>i. j < i \<longrightarrow> i < length ?kvs \<longrightarrow> fst (?kvs ! i) \<noteq> k"
      "mk_prove t' k = Some \<lparr>mp_leaf = \<lparr>ml_key = k, ml_value = x\<rparr>,
        mp_siblings = siblings_of H (leaf_hashes H ?kvs) j (unat (mk_height t'))\<rparr>"
    by (rule prove_key [OF t'(1), of k x]) simp_all
  have "j = length kvs" using j(1) j(2) [rule_format, of "length kvs"] by fastforce
  moreover have "mk_verify H t' (fst (mk_insert H k x t)) = Inr ()"
    using verify_leaf [OF t'(1), of "length kvs" k x] merkle_root [OF t'(1)] t'(2) i by simp
  ultimately show "\<exists>p t'. mk_insert H k x t = (p, t') \<and> mk_prove t' k = Some p \<and> mk_verify H t' p = Inr ()"
    using i j(3) t'(2) by simp
qed

theorem inclusion_proofs_verify_witness:
  "\<exists>p. mk_prove (insert_all plain_hash [([1], [2]), ([3], [4]), ([1], [5])] (mk_new 2)) [1] = Some p
     \<and> mp_leaf p = \<lparr>ml_key = [1], ml_value = [5]\<rparr>
     \<and> mk_verify plain_hash (insert_all plain_hash [([1], [2]), ([3], [4]), ([1], [5])] (mk_new 2)) p = Inr ()"
  using inclusion_proofs_verify [of "[([1], [2]), ([3], [4]), ([1], [5])]" 2 _ plain_hash "[1]"] by auto

text \<open>
  C27. The capacity is not checked. \<open>max_leaves\<close> is \<open>2 ^ height\<close> for heights below 64 and wraps
  above, and \<open>insert\<close> goes on past it: the root then covers only the last aligned block of
  \<open>2 ^ height\<close> leaves, and the proof of a key verifies only if the root of the key's own block
  equals the root of the last block.
\<close>

theorem capacity_not_checked:
  assumes "length kvs < 2 ^ 64" and t: "t = insert_all H kvs (mk_new height)"
  shows "unat (max_leaves t) = 2 ^ (unat height mod 64)
    \<and> unat (mk_leaf_count t) = length kvs
    \<and> mk_root t = block_root H height (leaf_hashes H kvs) (length kvs - 1)
    \<and> (\<forall>k v. map_of (rev kvs) k = Some v \<longrightarrow> (\<exists>j p. j < length kvs \<and> kvs ! j = (k, v) \<and> mk_prove t k = Some p
          \<and> (mk_verify H t p = Inr () \<longleftrightarrow>
               block_root H height (leaf_hashes H kvs) j = block_root H height (leaf_hashes H kvs) (length kvs - 1))))"
proof -
  note ok = insert_all_new [OF assms(1), of H height, folded t]
  note root = merkle_root [OF ok(1), unfolded ok(2)]
  have "unat (push_bit n 1 :: u64) = 2 ^ n" if "n < 64" for n
  proof -
    have "(2 :: nat) ^ n < 2 ^ 64" using that by (rule power_strict_increasing) simp
    then have "unat (of_nat (2 ^ n) :: u64) = 2 ^ n"
      using that by (simp only: unsigned_of_nat) (simp add: take_bit_nat_eq_self)
    then show ?thesis by simp
  qed
  then have "unat (max_leaves t) = 2 ^ (unat height mod 64)" by (simp add: max_leaves_def ok(2))
  moreover have "unat (mk_leaf_count t) = length kvs" using ok(1) by (simp add: merkle_ok_def)
  moreover have "\<exists>j p. j < length kvs \<and> kvs ! j = (k, v) \<and> mk_prove t k = Some p
          \<and> (mk_verify H t p = Inr () \<longleftrightarrow>
               block_root H height (leaf_hashes H kvs) j = block_root H height (leaf_hashes H kvs) (length kvs - 1))"
    if v: "map_of (rev kvs) k = Some v" for k v
  proof -
    obtain j where j: "j < length kvs" "kvs ! j = (k, v)"
        "mk_prove t k = Some \<lparr>mp_leaf = \<lparr>ml_key = k, ml_value = v\<rparr>,
          mp_siblings = siblings_of H (leaf_hashes H kvs) j (unat (mk_height t))\<rparr>"
      by (rule prove_key [OF ok(1) v])
    let ?p = "\<lparr>mp_leaf = \<lparr>ml_key = k, ml_value = v\<rparr>,
          mp_siblings = siblings_of H (leaf_hashes H kvs) j (unat height)\<rparr>"
    have "mk_verify H t ?p = Inr () \<longleftrightarrow>
        block_root H height (leaf_hashes H kvs) j = block_root H height (leaf_hashes H kvs) (length kvs - 1)"
      using verify_leaf [OF ok(1) j(1,2), of ?p] ok(2) root by simp
    with j ok(2) show ?thesis by (intro exI [of _ j] exI [of _ ?p]) simp
  qed
  ultimately show ?thesis using root by blast
qed

theorem capacity_not_checked_witness:
  "\<exists>p. mk_prove (insert_all plain_hash [([1], [2]), ([3], [4])] (mk_new 0)) [1] = Some p
     \<and> mk_verify plain_hash (insert_all plain_hash [([1], [2]), ([3], [4])] (mk_new 0)) p \<noteq> Inr ()"
proof -
  let ?kvs = "[([1], [2]), ([3], [4])] :: (byte list \<times> byte list) list"
  let ?t = "insert_all plain_hash ?kvs (mk_new 0)" and ?hs = "leaf_hashes plain_hash ?kvs"
  have len: "length ?kvs < 2 ^ 64" and v: "map_of (rev ?kvs) [1] = Some [2]" by simp_all
  from capacity_not_checked [OF len refl, of plain_hash 0, THEN conjunct2, THEN conjunct2, THEN conjunct2, rule_format, OF v]
  obtain j p where j: "j < length ?kvs" "?kvs ! j = ([1], [2])" and p: "mk_prove ?t [1] = Some p"
    and v: "mk_verify plain_hash ?t p = Inr () \<longleftrightarrow> block_root plain_hash 0 ?hs j = block_root plain_hash 0 ?hs (length ?kvs - 1)"
    by blast
  have "j = 0" using j by (cases j) simp_all
  then have "block_root plain_hash 0 (leaf_hashes plain_hash ?kvs) j \<noteq> block_root plain_hash 0 (leaf_hashes plain_hash ?kvs) (length ?kvs - 1)"
    by (simp add: block_root_def hash_at_def leaf_hashes_def hash_leaf_def plain_hash_def leaf_input_def)
  with p v show ?thesis by blast
qed

section \<open>What a proof commits to\<close>

text \<open>The inputs hashed by \<open>verify_proof\<close> above the leaf, from the bottom up.\<close>

fun climb_inputs :: "hasher \<Rightarrow> (direction \<times> hash) list \<Rightarrow> hash \<Rightarrow> byte list list" where
  "climb_inputs H [] h = []"
| "climb_inputs H ((d, s) # ps) h =
     (let input = (case d of DirLeft \<Rightarrow> node_input s h | DirRight \<Rightarrow> node_input h s)
      in input # climb_inputs H ps (H input))"

definition verify_inputs :: "hasher \<Rightarrow> byte list \<Rightarrow> byte list \<Rightarrow> merkle_proof \<Rightarrow> byte list list" where
  "verify_inputs H k v p = leaf_input k v # climb_inputs H (mp_siblings p) (hash_leaf H k v)"

text \<open>Two verifications meet in a collision: different inputs at the same depth, one digest.\<close>

definition collide :: "hasher \<Rightarrow> byte list list \<Rightarrow> byte list list \<Rightarrow> bool" where
  "collide H xs ys \<longleftrightarrow> (\<exists>(x, y) \<in> set (zip (rev xs) (rev ys)). x \<noteq> y \<and> H x = H y)"

lemma length_climb_inputs [simp]: "length (climb_inputs H ps h) = length ps"
  by (induction H ps h rule: climb_inputs.induct) (simp_all add: Let_def)

lemma climb_inputs_snoc:
  "climb_inputs H (ps @ [(d, s)]) h = climb_inputs H ps h
     @ [case d of DirLeft \<Rightarrow> node_input s (fold (climb H) ps h) | DirRight \<Rightarrow> node_input (fold (climb H) ps h) s]"
  by (induction H ps h rule: climb_inputs.induct)
    (auto simp: Let_def climb_def hash_node_def split: direction.splits)

lemma node_input_inject:
  assumes "node_input l r = node_input l' r'" and "length l = length l'"
  shows "l = l' \<and> r = r'"
  using assms by (simp add: node_input_def)

lemma leaf_not_node: "leaf_input k v \<noteq> node_input l r"
  by (simp add: leaf_input_def node_input_def string_bytes_def)

lemma leaf_input_eq: "leaf_input k v = leaf_input k' v' \<longleftrightarrow> k @ string_bytes '':'' @ v = k' @ string_bytes '':'' @ v'"
  by (simp add: leaf_input_def)

lemma collide_append:
  assumes "length xs = length ys"
  shows "collide H (as @ xs) (bs @ ys) \<longleftrightarrow> collide H xs ys \<or> collide H as bs"
proof -
  have "zip (rev (as @ xs)) (rev (bs @ ys)) = zip (rev xs) (rev ys) @ zip (rev as) (rev bs)"
    using assms by simp
  then show ?thesis by (auto simp: collide_def)
qed

lemma collide_single: "collide H [x] (bs @ [y]) \<longleftrightarrow> x \<noteq> y \<and> H x = H y"
  by (simp add: collide_def)

lemma climb_inputs_append:
  "climb_inputs H (ps @ qs) h = climb_inputs H ps h @ climb_inputs H qs (fold (climb H) ps h)"
  by (induction H ps h rule: climb_inputs.induct)
    (auto simp: Let_def climb_def hash_node_def split: direction.splits)

lemma climb_length: "\<forall>x. length (H x) = 32 \<Longrightarrow> length h = 32 \<Longrightarrow> length (fold (climb H) ps h) = 32"
  by (induction ps arbitrary: h) (simp_all add: climb_def hash_node_def split: prod.split direction.split)

text \<open>Equal roots over the same directions: the hashes below are equal or the inputs collide.\<close>

lemma climb_collide:
  assumes digest: "\<forall>x. length (H x) = 32" and "length h = 32" and "length h' = 32"
    and "map fst ps = map fst qs" and "fold (climb H) ps h = fold (climb H) qs h'"
  shows "h = h' \<or> collide H (climb_inputs H ps h) (climb_inputs H qs h')"
  using assms(4,5)
proof (induction ps arbitrary: qs rule: rev_induct)
  case Nil
  then show ?case by simp
next
  case (snoc e ps)
  obtain qs' e' where qs: "qs = qs' @ [e']" using snoc.prems(1) by (cases qs rule: rev_cases) simp_all
  obtain d s s' where e: "e = (d, s)" "e' = (d, s')" using snoc.prems(1) qs by (cases e; cases e') simp
  have dirs: "map fst ps = map fst qs'" using snoc.prems(1) qs by simp
  then have len: "length (climb_inputs H ps h) = length (climb_inputs H qs' h')"
    by (metis length_climb_inputs length_map)
  let ?x = "fold (climb H) ps h" and ?y = "fold (climb H) qs' h'"
  have hash_len: "length ?x = 32" "length ?y = 32" using assms by (simp_all add: climb_length)
  let ?i = "case d of DirLeft \<Rightarrow> node_input s ?x | DirRight \<Rightarrow> node_input ?x s"
  let ?j = "case d of DirLeft \<Rightarrow> node_input s' ?y | DirRight \<Rightarrow> node_input ?y s'"
  have same: "H ?i = H ?j"
    using snoc.prems(2) by (simp add: qs e climb_def hash_node_def split: direction.splits)
  have col: "collide H (climb_inputs H (ps @ [e]) h) (climb_inputs H qs h') \<longleftrightarrow>
      ?i \<noteq> ?j \<or> collide H (climb_inputs H ps h) (climb_inputs H qs' h')"
    unfolding qs e climb_inputs_snoc
    using collide_append [of "[?i]" "[?j]"] collide_single [of H ?i "[]" ?j] same by simp
  show ?case
  proof (cases "?i = ?j")
    case True
    then have "?x = ?y" using hash_len by (cases d) (auto simp: node_input_def)
    from snoc.IH [OF dirs this] show ?thesis unfolding col by blast
  qed (simp add: col)
qed

text \<open>
  C26. A proof commits to the leaf, up to collisions of the hash function. Let two proofs verify
  against one root, the second with the directions of the first, possibly below further ones.
  Then both are for the same string \<open>key:value\<close> at the same place, or the inputs hashed by the
  two verifications contain a collision at the same height: a leaf can not be exchanged, and an
  inner node can not be passed off as a leaf. Splitting the string \<open>key:value\<close> elsewhere, however,
  does not change what is verified.
\<close>

theorem proofs_bind_leaf:
  assumes digest: "\<forall>x. length (H x) = 32"
    and p: "verify_proof H root k v p" and p': "verify_proof H root k' v' p'"
    and dirs: "mp_directions p' = ds @ mp_directions p"
  shows "(ds = [] \<and> k @ string_bytes '':'' @ v = k' @ string_bytes '':'' @ v'
      \<or> collide H (verify_inputs H k v p) (verify_inputs H k' v' p'))
    \<and> (\<forall>k2 v2. k2 @ string_bytes '':'' @ v2 = k @ string_bytes '':'' @ v \<longrightarrow> verify_proof H root k2 v2 p)"
proof
  show "\<forall>k2 v2. k2 @ string_bytes '':'' @ v2 = k @ string_bytes '':'' @ v \<longrightarrow> verify_proof H root k2 v2 p"
    using p by (simp add: verify_proof_def hash_leaf_def leaf_input_def)
  let ?ps = "mp_siblings p" and ?qs = "take (length ds) (mp_siblings p')" and ?rs = "drop (length ds) (mp_siblings p')"
  let ?leaf = "hash_leaf H k' v'"
  have split: "mp_siblings p' = ?qs @ ?rs" by simp
  have m: "map fst (mp_siblings p') = ds @ map fst ?ps" using dirs by (simp add: mp_directions_def)
  have "length (mp_siblings p') = length ds + length ?ps" using arg_cong [OF m, of length] by simp
  then have d: "map fst ?ps = map fst ?rs" "length ?qs = length ds" by (simp_all add: m flip: drop_map)
  have leaf_len: "length (hash_leaf H a b) = 32" for a b using digest by (simp add: hash_leaf_def)
  have node_len: "length (fold (climb H) ?qs ?leaf) = 32"
    using leaf_len digest by (simp add: climb_length)
  have "fold (climb H) ?ps (hash_leaf H k v) = fold (climb H) ?rs (fold (climb H) ?qs ?leaf)"
    using p p' split by (metis comp_apply fold_append verify_proof_def)
  from climb_collide [OF digest leaf_len node_len d(1) this]
  have cases: "hash_leaf H k v = fold (climb H) ?qs ?leaf
      \<or> collide H (climb_inputs H ?ps (hash_leaf H k v)) (climb_inputs H ?rs (fold (climb H) ?qs ?leaf))" .
  have "length (climb_inputs H ?ps (hash_leaf H k v)) = length (climb_inputs H ?rs (fold (climb H) ?qs ?leaf))"
    using d(1) by (metis length_climb_inputs length_map)
  from collide_append [OF this, of H "[leaf_input k v]" "leaf_input k' v' # climb_inputs H ?qs ?leaf"]
  have all: "collide H (verify_inputs H k v p) (verify_inputs H k' v' p') \<longleftrightarrow>
      collide H (climb_inputs H ?ps (hash_leaf H k v)) (climb_inputs H ?rs (fold (climb H) ?qs ?leaf))
      \<or> collide H [leaf_input k v] (leaf_input k' v' # climb_inputs H ?qs ?leaf)"
    using climb_inputs_append [of H ?qs ?rs ?leaf] by (simp add: verify_inputs_def)
  show "ds = [] \<and> k @ string_bytes '':'' @ v = k' @ string_bytes '':'' @ v'
      \<or> collide H (verify_inputs H k v p) (verify_inputs H k' v' p')"
  proof (cases "hash_leaf H k v = fold (climb H) ?qs ?leaf")
    case False
    with cases all show ?thesis by blast
  next
    case eq: True
    show ?thesis
    proof (cases ?qs rule: rev_cases)
      case Nil
      have "ds = []" using d(2) unfolding Nil by simp
      moreover have "H (leaf_input k v) = H (leaf_input k' v')" using eq unfolding Nil by (simp add: hash_leaf_def)
      ultimately show ?thesis
        unfolding all Nil using collide_single [of H "leaf_input k v" "[]"] by (auto simp: leaf_input_eq)
    next
      case (snoc qs e)
      obtain d s where e: "e = (d, s)" by (cases e)
      have "\<exists>l r. climb_inputs H ?qs ?leaf = climb_inputs H qs ?leaf @ [node_input l r]
          \<and> H (leaf_input k v) = H (node_input l r)"
        using eq unfolding snoc e climb_inputs_snoc
        by (cases d) (auto simp: climb_def hash_node_def hash_leaf_def)
      then have "collide H [leaf_input k v] (leaf_input k' v' # climb_inputs H ?qs ?leaf)"
        using leaf_not_node by (auto simp: collide_def)
      then show ?thesis unfolding all by blast
    qed
  qed
qed

text \<open>A hash function with digests of 32 bytes: the input, cut or filled up to that length.\<close>

definition cut_hash :: hasher where
  "cut_hash bs = take 32 (drop 5 bs @ replicate 32 0)"

theorem proofs_bind_leaf_witness:
  "\<exists>p. verify_proof cut_hash (mk_root (insert_all cut_hash [([1, 58, 2], [3])] (mk_new 1))) [1] [2, 58, 3] p
     \<and> mk_prove (insert_all cut_hash [([1, 58, 2], [3])] (mk_new 1)) [1] = None"
proof -
  let ?t = "insert_all cut_hash [([1, 58, 2], [3])] (mk_new 1)"
  obtain j where p: "mk_prove ?t [1, 58, 2] = Some \<lparr>mp_leaf = \<lparr>ml_key = [1, 58, 2], ml_value = [3]\<rparr>,
      mp_siblings = siblings_of cut_hash (leaf_hashes cut_hash [([1, 58, 2], [3])]) j (unat (mk_height ?t))\<rparr>" (is "_ = Some ?p")
    and j: "j < length [([1, 58, 2] :: byte list, [3] :: byte list)]"
    using prove_key [OF insert_all_new(1), of "[([1, 58, 2], [3])]" "[1, 58, 2]" "[3]" cut_hash 1] by auto
  have "\<forall>x. length (cut_hash x) = 32" by (simp add: cut_hash_def min_def)
  moreover have len: "length [([1, 58, 2] :: byte list, [3] :: byte list)] < 2 ^ 64" by simp
  have "mk_verify cut_hash ?t ?p = Inr ()"
    using verify_leaf [OF insert_all_new(1) [OF len, of cut_hash 1] j, of "[1, 58, 2]" "[3]" ?p]
      merkle_root [OF insert_all_new(1) [OF len, of cut_hash 1]] j by simp
  then have v: "verify_proof cut_hash (mk_root ?t) [1, 58, 2] [3] ?p" by (simp add: mk_verify_def split: if_splits)
  ultimately have "\<forall>k2 v2. k2 @ string_bytes '':'' @ v2 = [1, 58, 2] @ string_bytes '':'' @ [3]
      \<longrightarrow> verify_proof cut_hash (mk_root ?t) k2 v2 ?p"
    using proofs_bind_leaf [OF _ v v, of "[]"] by simp
  then have "verify_proof cut_hash (mk_root ?t) [1] [2, 58, 3] ?p" by (simp add: string_bytes_def)
  moreover have "mk_prove ?t [1] = None"
    by (rule prove_absent [OF insert_all_new(1) [OF len]]) simp
  ultimately show ?thesis by blast
qed

section \<open>Differences and snapshots\<close>

text \<open>The nodes determine the number of leaves, the height unless there are none, and the root.\<close>

lemma node_lookup:
  "merkle_ok H kvs t \<Longrightarrow> map_of (mk_nodes t) \<lparr>np_level = l, np_index = i\<rparr> =
     (if l \<le> mk_height t \<and> unat i * 2 ^ unat l < length kvs
      then Some (hash_at H (leaf_hashes H kvs) (unat l) (unat i)) else None)"
  by (simp add: merkle_ok_def nodes_between_def)

lemma length_from_nodes:
  assumes t: "merkle_ok H kvs t" and t': "merkle_ok H kvs' t'"
    and same: "map_of (mk_nodes t) = map_of (mk_nodes t')"
  shows "length kvs \<le> length kvs'" and "kvs \<noteq> [] \<Longrightarrow> mk_height t \<le> mk_height t'"
proof -
  show "length kvs \<le> length kvs'"
  proof (rule ccontr)
    assume "\<not> length kvs \<le> length kvs'"
    then have "unat (mk_leaf_count t') < length kvs" using t' by (simp add: merkle_ok_def)
    then have "map_of (mk_nodes t) \<lparr>np_level = 0, np_index = mk_leaf_count t'\<rparr> \<noteq> None"
      using node_lookup [OF t, of 0 "mk_leaf_count t'"] by simp
    moreover have "map_of (mk_nodes t') \<lparr>np_level = 0, np_index = mk_leaf_count t'\<rparr> = None"
      using node_lookup [OF t', of 0 "mk_leaf_count t'"] t' by (simp add: merkle_ok_def)
    ultimately show False using same by simp
  qed
  assume "kvs \<noteq> []"
  then have "map_of (mk_nodes t) \<lparr>np_level = mk_height t, np_index = 0\<rparr> \<noteq> None"
    using node_lookup [OF t, of "mk_height t" 0] by simp
  then show "mk_height t \<le> mk_height t'"
    using node_lookup [OF t', of "mk_height t" 0] same by (simp split: if_splits)
qed

lemma same_nodes_same_root:
  assumes t: "merkle_ok H kvs t" and t': "merkle_ok H kvs' t'"
    and same: "map_of (mk_nodes t) = map_of (mk_nodes t')"
  shows "mk_root t = mk_root t'"
proof -
  have n: "length kvs = length kvs'"
    using length_from_nodes(1) [OF t t' same] length_from_nodes(1) [OF t' t same [symmetric]] by simp
  show ?thesis
  proof (cases "kvs = []")
    case True
    with n t t' show ?thesis by (simp add: merkle_ok_def)
  next
    case False
    then have h: "mk_height t = mk_height t'"
      using length_from_nodes(2) [OF t t' same] length_from_nodes(2) [OF t' t same [symmetric]] n by fastforce
    have "unat (mk_leaf_count t) < 2 ^ LENGTH(64)" by (rule unsigned_less)
    then have "length kvs < 2 ^ 64" using t by (simp add: merkle_ok_def)
    then have "length kvs - 1 < 2 ^ 64" by simp
    let ?j = "(length kvs - 1) div 2 ^ unat (mk_height t)"
    let ?i = "of_nat ?j :: u64"
    have i: "unat ?i = ?j" using \<open>length kvs - 1 < 2 ^ 64\<close> by (rule unat_of_nat_path)
    have "?j * 2 ^ unat (mk_height t) < length kvs"
      using False div_times_less_eq_dividend [of "length kvs - 1" "2 ^ unat (mk_height t)"]
      by (cases kvs) (simp_all add: less_Suc_eq_le)
    then have "Some (mk_root t) = map_of (mk_nodes t) \<lparr>np_level = mk_height t, np_index = ?i\<rparr>"
      "Some (mk_root t') = map_of (mk_nodes t') \<lparr>np_level = mk_height t, np_index = ?i\<rparr>"
      using node_lookup [OF t, of "mk_height t" ?i] node_lookup [OF t', of "mk_height t" ?i]
        merkle_root [OF t] merkle_root [OF t'] i h n by (simp_all add: block_root_def)
    then have "Some (mk_root t) = Some (mk_root t')" using same by (simp only:)
    then show ?thesis by simp
  qed
qed

text \<open>
  C28. Two trees differ where their nodes do. The difference of two trees that grew by insertions
  is empty exactly when their roots are equal; when the roots are different it lists exactly
  the paths at which one tree has no node or another hash.
\<close>

theorem diff_exact:
  assumes "length kvs < 2 ^ 64" and "length kvs' < 2 ^ 64"
    and t: "t = insert_all H kvs (mk_new height)" and t': "t' = insert_all H kvs' (mk_new height')"
  shows "(mk_diff t t' = [] \<longleftrightarrow> mk_root t = mk_root t')
    \<and> (mk_root t \<noteq> mk_root t' \<longrightarrow>
         set (mk_diff t t') = {p. map_of (mk_nodes t) p \<noteq> map_of (mk_nodes t') p})"
proof -
  note ok = insert_all_new [OF assms(1), of H height, folded t]
  note ok' = insert_all_new [OF assms(2), of H height', folded t']
  have nodes: "nodes_ok H height (leaf_hashes H kvs) (mk_nodes t)" "distinct (map fst (mk_nodes t))"
    and nodes': "nodes_ok H height' (leaf_hashes H kvs') (mk_nodes t')" "distinct (map fst (mk_nodes t'))"
    using ok ok' by (simp_all add: merkle_ok_def nodes_between_def)
  have set: "set (mk_diff t t') = {p. map_of (mk_nodes t) p \<noteq> map_of (mk_nodes t') p}" if "mk_root t \<noteq> mk_root t'"
  proof (intro set_eqI)
    fix p
    show "p \<in> set (mk_diff t t') \<longleftrightarrow> p \<in> {p. map_of (mk_nodes t) p \<noteq> map_of (mk_nodes t') p}"
    proof (cases "map_of (mk_nodes t) p")
      case None
      then show ?thesis
        using that map_of_eq_None_iff [of "mk_nodes t" p] map_of_eq_None_iff [of "mk_nodes t'" p]
        by (auto simp: mk_diff_def image_iff split: option.splits)
    next
      case (Some h)
      then have "(p, g) \<in> set (mk_nodes t) \<longleftrightarrow> g = h" for g
        using nodes(2) by (metis map_of_is_SomeI map_of_SomeD option.inject)
      then show ?thesis using that Some by (auto simp: mk_diff_def image_iff split: option.splits)
    qed
  qed
  have "mk_root t = mk_root t'" if same: "map_of (mk_nodes t) = map_of (mk_nodes t')"
    using same_nodes_same_root [OF ok(1) ok'(1)] same by blast
  then have "mk_diff t t' = [] \<longleftrightarrow> mk_root t = mk_root t'"
    using set by (fastforce simp: mk_diff_def)
  with set show ?thesis by blast
qed

theorem diff_exact_witness:
  "mk_diff (insert_all plain_hash [([1], [2])] (mk_new 0)) (insert_all plain_hash [([1], [3])] (mk_new 0)) \<noteq> []"
proof -
  have root: "mk_root (insert_all plain_hash [([1], v)] (mk_new 0)) = leaf_input [1] v" for v
    using merkle_root [OF insert_all_new(1), of "[([1], v)]" plain_hash 0] insert_all_new(2) [of "[([1], v)]" plain_hash 0]
    by (simp add: block_root_def hash_at_def leaf_hashes_def hash_leaf_def plain_hash_def)
  show ?thesis
    using diff_exact [OF _ _ refl refl, of "[([1], [2])]" "[([1], [3])]" plain_hash 0 0]
    by (simp add: root leaf_input_def del: insert_all.simps)
qed

text \<open>Rolling back to a snapshot restores the tree, whatever was done since.\<close>

lemma rollback_snapshot: "mk_rollback (mk_snapshot t) t' = (Inr (), t)"
  by (simp add: mk_rollback_def mk_snapshot_def)

end
