(* ===== verification/Monoidal.thy ===== *)
theory Monoidal
  imports LsmTree_Correct
begin

text \<open>
  \<open>src/monoidal.rs\<close>: values that can be combined, the trees that hold them and the folds over
  ranges. An implementation of the trait \<open>Monoidal\<close> is a record of its two functions; what its
  documentation demands of them are the locales below, interpreted for the instances the file
  provides. The bincode serialisation of values is a parameter.
\<close>

section \<open>The trait and its laws\<close>

record 'v monoidal =
  mempty :: 'v
  mappend :: "'v \<Rightarrow> 'v \<Rightarrow> 'v"

locale unital =
  fixes unit :: 'v and plus :: "'v \<Rightarrow> 'v \<Rightarrow> 'v"
  assumes unit_left: "plus unit x = x"
    and unit_right: "plus x unit = x"

locale monoid_laws = unital +
  assumes assoc: "plus (plus x y) z = plus x (plus y z)"
begin

lemma foldl_start: "foldl plus x ys = plus x (foldl plus unit ys)"
proof (induction ys arbitrary: x)
  case (Cons y ys)
  from Cons [of "plus x y"] Cons [of "plus unit y"] show ?case by (simp add: assoc unit_left)
qed (simp add: unit_right)

lemma foldl_append: "foldl plus unit (xs @ ys) = plus (foldl plus unit xs) (foldl plus unit ys)"
  using foldl_start [of "foldl plus unit xs" ys] by simp

end

text \<open>The values of a table can be added when they can be added one by one.\<close>

definition table_append :: "'v \<Rightarrow> ('v \<Rightarrow> 'v \<Rightarrow> 'v) \<Rightarrow> ('k \<rightharpoonup> 'v) \<Rightarrow> ('k \<rightharpoonup> 'v) \<Rightarrow> ('k \<rightharpoonup> 'v)" where
  "table_append dflt add a b =
     (\<lambda>k. case b k of None \<Rightarrow> a k | Some v \<Rightarrow> Some (add (case a k of Some w \<Rightarrow> w | None \<Rightarrow> dflt) v))"

text \<open>The loop of the source, over the entries of the second table in any order.\<close>

definition table_append_loop :: "'v \<Rightarrow> ('v \<Rightarrow> 'v \<Rightarrow> 'v) \<Rightarrow> ('k \<rightharpoonup> 'v) \<Rightarrow> ('k \<times> 'v) list \<Rightarrow> ('k \<rightharpoonup> 'v)" where
  "table_append_loop dflt add self other =
     fold (\<lambda>(k, v) result. result(k \<mapsto> add (case result k of Some w \<Rightarrow> w | None \<Rightarrow> dflt) v)) other self"

lemma table_append_loop_eq:
  "distinct (map fst other) \<Longrightarrow> table_append_loop dflt add self other = table_append dflt add self (map_of other)"
proof (induction other arbitrary: self)
  case (Cons e other)
  obtain k v where e: "e = (k, v)" by (cases e)
  let ?self = "self(k \<mapsto> add (case self k of Some w \<Rightarrow> w | None \<Rightarrow> dflt) v)"
  have "map_of other k = None" using Cons.prems e by (simp add: map_of_eq_None_iff)
  then have "table_append dflt add ?self (map_of other) = table_append dflt add self (map_of (e # other))"
    by (auto simp: table_append_def e fun_eq_iff split: option.split)
  moreover have "table_append_loop dflt add self (e # other) = table_append_loop dflt add ?self other"
    by (simp add: table_append_loop_def e)
  moreover have "distinct (map fst other)" using Cons.prems by simp
  ultimately show ?case using Cons.IH [of ?self] by (simp del: fun_upd_apply map_of.simps)
qed (simp add: table_append_loop_def table_append_def)

text \<open>Tables over a monoid form a monoid.\<close>

locale table_values = monoid_laws

sublocale table_values \<subseteq> table: monoid_laws "Map.empty :: 'k \<rightharpoonup> 'a" "table_append unit plus"
  by unfold_locales (auto simp: table_append_def fun_eq_iff assoc unit_left split: option.split)

section \<open>The instances\<close>

type_synonym i64 = "64 word"

definition u64_saturating_add :: "u64 \<Rightarrow> u64 \<Rightarrow> u64" where
  "u64_saturating_add a b = of_nat (min (2 ^ 64 - 1) (unat a + unat b))"

definition i64_saturating_add :: "i64 \<Rightarrow> i64 \<Rightarrow> i64" where
  "i64_saturating_add a b =
     (let s = sint a + sint b in of_int (max (- (2 ^ 63)) (min (2 ^ 63 - 1) s)))"

definition u64_monoidal :: "u64 monoidal" where
  "u64_monoidal = \<lparr>mempty = 0, mappend = u64_saturating_add\<rparr>"

definition i64_monoidal :: "i64 monoidal" where
  "i64_monoidal = \<lparr>mempty = 0, mappend = i64_saturating_add\<rparr>"

definition vec_monoidal :: "'a list monoidal" where
  "vec_monoidal = \<lparr>mempty = [], mappend = (@)\<rparr>"

text \<open>A hash table whose values have a default and \<open>+=\<close>, such as \<open>u64\<close>, which wraps.\<close>

definition table_monoidal :: "'v \<Rightarrow> ('v \<Rightarrow> 'v \<Rightarrow> 'v) \<Rightarrow> ('k \<rightharpoonup> 'v) monoidal" where
  "table_monoidal dflt add = \<lparr>mempty = Map.empty, mappend = table_append dflt add\<rparr>"

lemma unat_u64_add: "unat (u64_saturating_add a b) = min (2 ^ 64 - 1) (unat a + unat b)"
  by (simp add: u64_saturating_add_def unsigned_of_nat take_bit_nat_eq_self)

interpretation u64_sum: monoid_laws "mempty u64_monoidal" "mappend u64_monoidal"
proof unfold_locales
  fix x y z :: u64
  have "unat x < 2 ^ LENGTH(64)" by (rule unsigned_less)
  then have x: "unat x \<le> 2 ^ 64 - 1" by simp
  show "mappend u64_monoidal (mempty u64_monoidal) x = x" "mappend u64_monoidal x (mempty u64_monoidal) = x"
    using x by (simp_all add: u64_monoidal_def word_unat_eq_iff unat_u64_add)
  show "mappend u64_monoidal (mappend u64_monoidal x y) z = mappend u64_monoidal x (mappend u64_monoidal y z)"
    by (simp add: u64_monoidal_def word_unat_eq_iff unat_u64_add)
qed

interpretation vec_concat: monoid_laws "mempty vec_monoidal" "mappend vec_monoidal"
  by unfold_locales (simp_all add: vec_monoidal_def)

interpretation u64_table: table_values "0 :: u64" "(+)"
  by unfold_locales (simp_all add: add.assoc)

text \<open>The identity laws hold for \<open>i64\<close>; associativity is looked at with the properties.\<close>

lemma sint_range: "- (2 ^ 63) \<le> sint (a :: i64)" "sint (a :: i64) \<le> 2 ^ 63 - 1"
  using sint_greater_eq [of a] sint_less [of a] by simp_all

interpretation i64_sum: unital "mempty i64_monoidal" "mappend i64_monoidal"
proof unfold_locales
  fix x :: i64
  show "mappend i64_monoidal (mempty i64_monoidal) x = x" "mappend i64_monoidal x (mempty i64_monoidal) = x"
    using sint_range [of x] by (simp_all add: i64_monoidal_def i64_saturating_add_def Let_def min_def max_def)
qed

section \<open>The tree of monoidal values\<close>

record 'v value_codec =
  vc_ser :: "'v \<Rightarrow> string + byte list"
  vc_de :: "byte list \<Rightarrow> string + 'v"

text \<open>Bincode reads back what it wrote.\<close>

definition value_codec_ok :: "'v value_codec \<Rightarrow> bool" where
  "value_codec_ok c \<longleftrightarrow> (\<forall>v bs. vc_ser c v = Inr bs \<longrightarrow> vc_de c bs = Inr v)"

text \<open>A \<open>MonoidalLsmTree\<close> holds the tree and a type, so it is the tree.\<close>

definition mono_insert :: "codecs \<Rightarrow> 'v value_codec \<Rightarrow> key \<Rightarrow> 'v \<Rightarrow> (lsm_tree, unit) io" where
  "mono_insert x c key value =
     io_bind (io_lift (map_err Bincode (vc_ser c value))) (\<lambda>bs. tree_insert x key (Value bs))"

definition mono_get :: "codecs \<Rightarrow> 'v monoidal \<Rightarrow> 'v value_codec \<Rightarrow> lsm_tree \<Rightarrow> key \<Rightarrow> 'v res" where
  "mono_get x m c t key =
     res_bind (tree_get x t key) (\<lambda>r. case r of
       Some v \<Rightarrow> map_err Bincode (vc_de c (value_bytes v))
     | None \<Rightarrow> Inr (mempty m))"

definition mono_delete :: "codecs \<Rightarrow> key \<Rightarrow> (lsm_tree, unit) io" where
  "mono_delete x key = tree_delete x key"

text \<open>The loop of the folds: values that can not be read are passed over.\<close>

definition fold_entries :: "'v monoidal \<Rightarrow> 'v value_codec \<Rightarrow> (key \<times> lsm_value) list \<Rightarrow> 'v" where
  "fold_entries m c entries =
     foldl (\<lambda>accumulator (_, v). case vc_de c (value_bytes v) of
         Inr value \<Rightarrow> mappend m accumulator value
       | Inl _ \<Rightarrow> accumulator) (mempty m) entries"

definition range_fold :: "'v monoidal \<Rightarrow> 'v value_codec \<Rightarrow> lsm_tree \<Rightarrow> key \<Rightarrow> key \<Rightarrow> 'v" where
  "range_fold m c t lo hi = fold_entries m c (ri_entries (tree_range t lo hi))"

definition prefix_fold :: "'v monoidal \<Rightarrow> 'v value_codec \<Rightarrow> lsm_tree \<Rightarrow> byte list \<Rightarrow> 'v" where
  "prefix_fold m c t prefix = fold_entries m c (ri_entries (scan_prefix t prefix))"

definition mono_snapshot :: "lsm_tree \<Rightarrow> lsm_snapshot \<times> lsm_tree" where
  "mono_snapshot t = tree_snapshot t"

definition mono_rollback :: "lsm_snapshot \<Rightarrow> (lsm_tree, unit) io" where
  "mono_rollback snap = tree_rollback snap"

definition mono_compact :: "codecs \<Rightarrow> (lsm_tree, unit) io" where
  "mono_compact x = tree_compact x"

definition snapshot_range_fold :: "'v monoidal \<Rightarrow> 'v value_codec \<Rightarrow> disk \<Rightarrow> lsm_snapshot \<Rightarrow> key \<Rightarrow> key \<Rightarrow> 'v" where
  "snapshot_range_fold m c d snap lo hi =
     fold_entries m c (filter (\<lambda>(key, _). lo \<le> key \<and> key \<le> hi) (ri_entries (snapshot_iter d snap)))"

section \<open>Folds\<close>

text \<open>The values that can be read, in order.\<close>

definition readable :: "'v value_codec \<Rightarrow> (key \<times> lsm_value) list \<Rightarrow> 'v list" where
  "readable c es = List.map_filter (\<lambda>(_, v). case vc_de c (value_bytes v) of Inr w \<Rightarrow> Some w | Inl _ \<Rightarrow> None) es"

lemma fold_entries_eq: "fold_entries m c es = foldl (mappend m) (mempty m) (readable c es)"
proof -
  have "foldl (\<lambda>acc (_, v). case vc_de c (value_bytes v) of Inr w \<Rightarrow> mappend m acc w | Inl _ \<Rightarrow> acc) a es
      = foldl (mappend m) a (readable c es)" for a
    by (induction es arbitrary: a) (auto simp: readable_def map_filter_simps split: sum.split)
  then show ?thesis by (simp add: fold_entries_def)
qed

lemma readable_append [simp]: "readable c (es @ fs) = readable c es @ readable c fs"
  by (simp add: readable_def map_filter_def)

end
