(* ===== verification/MonoidalProperties.thy ===== *)
theory MonoidalProperties
  imports Monoidal QueryProperties
begin

text \<open>
  What the folds of a monoidal tree compute: the combination of the live values in the range, in
  key order, whatever runs and memtables they lie in.
\<close>

section \<open>The entries of a range\<close>

lemma entries_unique:
  assumes "sorted_wrt (<) (map fst es)" and "sorted_wrt (<) (map fst fs)" and "set es = set (fs :: (key \<times> lsm_value) list)"
  shows "es = fs"
proof (rule map_sorted_distinct_set_unique [of fst])
  have inj: "inj_on fst (set es)"
    using assms(1) by (simp add: strict_sorted_iff distinct_map)
  show "inj_on fst (set es \<union> set fs)" using inj assms(3) by simp
qed (use assms in \<open>auto simp: strict_sorted_iff\<close>)

lemma range_entries_eq:
  assumes "tree_ok x t M" and "sorted_wrt (<) (map fst es)"
    and "\<forall>k v. (k, v) \<in> set es \<longleftrightarrow> lo \<le> k \<and> k \<le> hi \<and> tree_view t k = Some v"
  shows "ri_entries (tree_range t lo hi) = es"
  using assms tree_range_entries [OF assms(1), where lo = lo and hi = hi] by (intro entries_unique) auto

text \<open>The least key above a given one.\<close>

definition next_key :: "key \<Rightarrow> key" where
  "next_key k = Key (key_bytes k @ [0])"

lemma snoc_zero_le: "ys @ [0] \<le> (xs :: byte list) \<longleftrightarrow> ys < xs"
proof (induction ys arbitrary: xs)
  case Nil
  show ?case by (cases xs) (auto simp: word_neq_0_conv)
next
  case (Cons y ys)
  show ?case
  proof (cases xs)
    case (Cons z zs)
    then show ?thesis using Cons.IH [of zs] by auto
  qed simp
qed

lemma next_key_le: "next_key a \<le> k \<longleftrightarrow> a < k"
  by (simp add: next_key_def less_eq_key_def less_key_def snoc_zero_le)

lemma range_entries_split:
  assumes t: "tree_ok x t M" and "lo \<le> mid" and "mid \<le> hi"
  shows "ri_entries (tree_range t lo hi) =
    ri_entries (tree_range t lo mid) @ ri_entries (tree_range t (next_key mid) hi)"
proof (rule range_entries_eq [OF t])
  have le: "k \<le> mid" if "(k, v) \<in> set (ri_entries (tree_range t lo mid))" for k v
    using that by (simp add: tree_range_entries(2) [OF t])
  have gt: "mid < k" if "(k, v) \<in> set (ri_entries (tree_range t (next_key mid) hi))" for k v
    using that by (simp add: tree_range_entries(2) [OF t] next_key_le)
  show "sorted_wrt (<) (map fst (ri_entries (tree_range t lo mid) @ ri_entries (tree_range t (next_key mid) hi)))"
    using tree_range_entries(1) [OF t] le gt by (auto simp: sorted_wrt_append intro: le_less_trans [OF le gt])
  show "\<forall>k v. (k, v) \<in> set (ri_entries (tree_range t lo mid) @ ri_entries (tree_range t (next_key mid) hi)) \<longleftrightarrow>
      lo \<le> k \<and> k \<le> hi \<and> tree_view t k = Some v"
    using assms(2,3) by (auto simp: tree_range_entries(2) [OF t] next_key_le)
qed

section \<open>Folds\<close>

text \<open>Little-endian bytes as a serialiser of 64-bit numbers.\<close>

definition u64_codec :: "u64 value_codec" where
  "u64_codec = \<lparr>vc_ser = (\<lambda>v. Inr (le_bytes 8 (unat v))),
     vc_de = (\<lambda>bs. if length bs = 8 then Inr (of_nat (le_nat bs)) else Inl ''invalid length'')\<rparr>"

definition u64_value :: "u64 \<Rightarrow> lsm_value" where
  "u64_value v = Value (le_bytes 8 (unat v))"

lemma de_u64_value: "vc_de u64_codec (value_bytes (u64_value v)) = Inr v"
proof -
  have "unat v < 2 ^ LENGTH(64)" by (rule unsigned_less)
  then have "le_nat (le_bytes 8 (unat v)) = unat v" by (simp add: codec_simps)
  then show ?thesis by (simp add: u64_codec_def u64_value_def)
qed

lemma u64_codec_ok: "value_codec_ok u64_codec"
  using de_u64_value by (auto simp: value_codec_ok_def u64_value_def) (auto simp: u64_codec_def)

text \<open>The sum of the values that can be read.\<close>

definition amount :: "u64 value_codec \<Rightarrow> lsm_value \<Rightarrow> nat" where
  "amount c v = (case vc_de c (value_bytes v) of Inr w \<Rightarrow> unat w | Inl _ \<Rightarrow> 0)"

lemma foldl_u64: "unat (foldl u64_saturating_add a xs) = min (2 ^ 64 - 1) (unat a + sum_list (map unat xs))"
proof (induction xs arbitrary: a)
  case Nil
  have "unat a < 2 ^ LENGTH(64)" by (rule unsigned_less)
  then show ?case by simp
next
  case (Cons x xs)
  have "foldl u64_saturating_add a (x # xs) = foldl u64_saturating_add (u64_saturating_add a x) xs" by simp
  then show ?case using Cons.IH [of "u64_saturating_add a x"] unat_u64_add [of a x] by simp
qed

lemma sum_readable: "sum_list (map unat (readable c es)) = sum_list (map (amount c \<circ> snd) es)"
  by (induction es) (auto simp: readable_def map_filter_simps amount_def split: sum.split)

text \<open>
  C29. A fold of \<open>u64\<close> balances is their total. The fold over a range is the sum of the balances
  of the keys in the range that are alive, each counted once with its latest value, capped at
  the largest \<open>u64\<close>; a value that can not be read counts as nothing.
\<close>

theorem u64_range_fold_total:
  assumes "tree_ok x t M"
  shows "unat (range_fold u64_monoidal c t lo hi) =
    min (2 ^ 64 - 1) (\<Sum>k | lo \<le> k \<and> k \<le> hi \<and> tree_view t k \<noteq> None. amount c (the (tree_view t k)))"
proof -
  let ?es = "ri_entries (tree_range t lo hi)"
  note es = tree_range_entries [OF assms, where lo = lo and hi = hi]
  have d: "distinct (map fst ?es)" using es(1) by (simp add: strict_sorted_iff)
  have "fst ` set ?es = {k. lo \<le> k \<and> k \<le> hi \<and> tree_view t k \<noteq> None}"
    using es(2) by (force simp: image_iff)
  moreover have "sum_list (map (amount c \<circ> snd) ?es) = (\<Sum>e \<in> set ?es. amount c (snd e))"
    using d by (simp add: sum_list_distinct_conv_sum_set distinct_map)
  moreover have "(\<Sum>e \<in> set ?es. amount c (snd e)) = (\<Sum>k \<in> fst ` set ?es. amount c (the (tree_view t k)))"
    using d es(2) by (intro sum.reindex_cong [symmetric, of fst]) (auto simp: distinct_map inj_on_def)
  ultimately show ?thesis
    using foldl_u64 [of 0 "readable c ?es"]
    by (simp add: range_fold_def fold_entries_eq u64_monoidal_def sum_readable)
qed

text \<open>A tree with four balances, the last at the limit of the type.\<close>

definition balances :: lsm_tree where
  "balances = memtable_tree [(Key [1], u64_value 100), (Key [2], u64_value 7), (Key [1], u64_value 200),
     (Key [9], u64_value (- 1))]"

lemma balances_ok: "tree_ok x balances {#}"
  by (simp add: balances_def memtable_tree_ok)

lemma balances_view: "tree_view balances =
    [Key [1] \<mapsto> u64_value 200, Key [2] \<mapsto> u64_value 7, Key [9] \<mapsto> u64_value (- 1)]"
  by (simp add: balances_def memtable_tree_view fun_eq_iff)

theorem u64_range_fold_total_witness:
  "range_fold u64_monoidal u64_codec balances (Key [1]) (Key [5]) = 207"
proof -
  have keys: "{k. Key [1] \<le> k \<and> k \<le> Key [5] \<and> tree_view balances k \<noteq> None} = {Key [1], Key [2]}"
    by (auto simp: balances_view split: if_splits)
  have "unat (range_fold u64_monoidal u64_codec balances (Key [1]) (Key [5])) = 207"
    using u64_range_fold_total [OF balances_ok, of u64_codec "Key [1]" "Key [5]"] keys
    by (simp add: balances_view amount_def de_u64_value)
  then show ?thesis by (simp add: word_unat_eq_iff)
qed

text \<open>
  C30. A fold may be computed in parts: for every monoid, the fold over a range is the
  combination of the fold up to a key and the fold from the next key on, wherever the range is
  cut.
\<close>

theorem range_fold_splits:
  assumes t: "tree_ok x t M" and laws: "monoid_laws (mempty m) (mappend m)" and "lo \<le> mid" and "mid \<le> hi"
  shows "range_fold m c t lo hi = mappend m (range_fold m c t lo mid) (range_fold m c t (next_key mid) hi)"
proof -
  have "foldl (mappend m) (mempty m) (xs @ ys) = mappend m (foldl (mappend m) (mempty m) xs) (foldl (mappend m) (mempty m) ys)"
    for xs ys by (rule monoid_laws.foldl_append [OF laws])
  then show ?thesis
    by (simp add: range_fold_def fold_entries_eq range_entries_split [OF t assms(3,4)] del: foldl_append)
qed

theorem range_fold_splits_witness:
  "range_fold u64_monoidal u64_codec balances (Key [1]) (Key [9]) =
     mappend u64_monoidal (range_fold u64_monoidal u64_codec balances (Key [1]) (Key [1]))
       (range_fold u64_monoidal u64_codec balances (Key [1, 0]) (Key [9]))"
  using range_fold_splits [OF memtable_tree_ok u64_sum.monoid_laws_axioms, of "Key [1]" "Key [1]" "Key [9]"]
  by (simp add: balances_def next_key_def)

text \<open>
  C31. Signed balances do not add up in parts. Saturating addition of \<open>i64\<close> has the identity but
  is not associative, against the law the trait demands, so a fold over a range depends on
  how the range is cut: the same three entries give one total when they are folded in one go
  and another when the fold is put together from two halves.
\<close>

theorem i64_fold_depends_on_cut:
  "\<not> monoid_laws (mempty i64_monoidal) (mappend i64_monoidal)
   \<and> (\<exists>t lo mid hi. tree_ok x t {#} \<and> lo \<le> mid \<and> mid \<le> hi
        \<and> range_fold i64_monoidal u64_codec t lo hi \<noteq>
            mappend i64_monoidal (range_fold i64_monoidal u64_codec t lo mid)
              (range_fold i64_monoidal u64_codec t (next_key mid) hi))"
proof
  let ?max = "0x7FFFFFFFFFFFFFFF :: i64"
  have max: "sint ?max = 0x7FFFFFFFFFFFFFFF" "sint (- 1 :: i64) = - 1" by simp_all
  have sums: "i64_saturating_add ?max 1 = ?max" "i64_saturating_add ?max (- 1) = ?max - 1"
      "i64_saturating_add 1 (- 1) = 0" "i64_saturating_add ?max 0 = ?max" "i64_saturating_add 0 ?max = ?max"
      "i64_saturating_add 0 1 = 1"
    by (simp_all add: i64_saturating_add_def max)
  show "\<not> monoid_laws (mempty i64_monoidal) (mappend i64_monoidal)"
    using sums monoid_laws.assoc [of "mempty i64_monoidal" "mappend i64_monoidal" ?max 1 "- 1"]
    by (auto simp: i64_monoidal_def)
  let ?es = "[(Key [1], u64_value ?max), (Key [2], u64_value 1), (Key [3], u64_value (- 1))]"
  let ?t = "memtable_tree ?es"
  have view: "tree_view ?t = map_of ?es" by (simp add: memtable_tree_view fun_eq_iff)
  have r: "ri_entries (tree_range ?t (Key [1]) (Key [3])) = ?es"
      "ri_entries (tree_range ?t (Key [1]) (Key [1])) = [(Key [1], u64_value ?max)]"
      "ri_entries (tree_range ?t (next_key (Key [1])) (Key [3])) = tl ?es"
    by (rule range_entries_eq [OF memtable_tree_ok]; auto simp: view next_key_le split: if_splits)+
  have "range_fold i64_monoidal u64_codec ?t (Key [1]) (Key [3]) = ?max - 1"
    "range_fold i64_monoidal u64_codec ?t (Key [1]) (Key [1]) = ?max"
    "range_fold i64_monoidal u64_codec ?t (next_key (Key [1])) (Key [3]) = 0"
    unfolding range_fold_def r by (simp_all add: fold_entries_def de_u64_value i64_monoidal_def sums)
  then have "range_fold i64_monoidal u64_codec ?t (Key [1]) (Key [3]) \<noteq>
      mappend i64_monoidal (range_fold i64_monoidal u64_codec ?t (Key [1]) (Key [1]))
        (range_fold i64_monoidal u64_codec ?t (next_key (Key [1])) (Key [3]))"
    by (simp add: i64_monoidal_def sums)
  with memtable_tree_ok show "\<exists>t lo mid hi. tree_ok x t {#} \<and> lo \<le> mid \<and> mid \<le> hi
        \<and> range_fold i64_monoidal u64_codec t lo hi \<noteq>
            mappend i64_monoidal (range_fold i64_monoidal u64_codec t lo mid)
              (range_fold i64_monoidal u64_codec t (next_key mid) hi)"
    by (intro exI [of _ ?t] exI [of _ "Key [1]"] exI [of _ "Key [3]"] conjI) auto
qed

text \<open>
  C32. A monoidal value comes back. When serialisation succeeds, \<open>insert\<close> returns \<open>Ok\<close>, also
  when it flushes, and the fold over the key alone is the value inserted; \<open>get\<close> gives it as
  well where lookups see the view. After \<open>delete\<close> the fold over the key is the identity. A
  value that does not serialise changes nothing.
\<close>

theorem monoidal_insert_roundtrip:
  assumes t: "tree_ok x t M" and total: "codecs_total x" and c: "value_codec_ok c" "vc_ser c v = Inr bs"
    and fits: "fits (mt_data (mt_insert k (Value bs) (lt_memtable t)))" "fits (mt_data (mt_delete k (lt_memtable t)))"
    and laws: "unital (mempty m) (mappend m)"
  shows "(\<exists>t'. mono_insert x c k v t = (Inr (), t') \<and> tree_ok x t' M \<and> range_fold m c t' k k = v
        \<and> (mt_get (lt_memtable t') k \<noteq> None
            \<or> levels_ordered (tree_levels t') \<and> no_tombstone (tree_disk t') (tree_levels t') k
            \<longrightarrow> mono_get x m c t' k = Inr v))
    \<and> (\<exists>t'. mono_delete x k t = (Inr (), t') \<and> tree_ok x t' M \<and> range_fold m c t' k k = mempty m)
    \<and> (\<forall>u e. vc_ser c u = Inl e \<longrightarrow> mono_insert x c k u t = (Inl (Bincode e), t))"
proof (intro conjI)
  note stored = write_memtable [OF t]
  have mt: "mt_ok (lt_memtable t)" using t by (simp add: tree_ok_def)
  have alone: "range_fold m c t' k k = (case tree_view t' k of None \<Rightarrow> mempty m | Some w \<Rightarrow>
      (case vc_de c (value_bytes w) of Inr u \<Rightarrow> u | Inl _ \<Rightarrow> mempty m))" if "tree_ok x t' M" for t'
  proof -
    have "ri_entries (tree_range t' k k) = (case tree_view t' k of None \<Rightarrow> [] | Some w \<Rightarrow> [(k, w)])"
      by (rule range_entries_eq [OF that]) (auto split: option.split)
    then show ?thesis using laws
      by (auto simp: range_fold_def fold_entries_def unital.unit_left split: option.split sum.split)
  qed
  obtain t' where i: "tree_insert x k (Value bs) t = (Inr (), t')"
    and f: "flushed x (t\<lparr>lt_memtable := mt_insert k (Value bs) (lt_memtable t)\<rparr>) t' M"
    by (rule tree_insert_ok [OF t total fits(1)])
  have ok: "tree_ok x t' M" using f by (simp add: flushed_def)
  have map: "tree_map t' k = Some (Some (Value bs))"
    using f stored(2) [of "mt_insert k (Value bs) (lt_memtable t)"] mt by (simp add: flushed_def)
  then have view: "tree_view t' k = Some (Value bs)" by (simp add: tree_view_def live_def)
  have de: "vc_de c bs = Inr v" using c by (simp add: value_codec_ok_def)
  have "tree_get x t' k = Inr (Some (Value bs))"
    if g: "mt_get (lt_memtable t') k \<noteq> None
        \<or> levels_ordered (tree_levels t') \<and> no_tombstone (tree_disk t') (tree_levels t') k"
  proof (cases "mt_get (lt_memtable t') k")
    case None
    with g tree_get_view [OF ok, of k] view show ?thesis by simp
  next
    case (Some w)
    have "mt_ok (lt_memtable t')" using ok by (simp add: tree_ok_def)
    then have "w = Some (Value bs)"
      using map Some write_memtable(3) [OF ok, of "lt_memtable t'"] by (simp add: map_add_def)
    with Some show ?thesis by (simp add: tree_get_def)
  qed
  with i ok alone [OF ok] view de c(2)
  show "\<exists>t'. mono_insert x c k v t = (Inr (), t') \<and> tree_ok x t' M \<and> range_fold m c t' k k = v
        \<and> (mt_get (lt_memtable t') k \<noteq> None
            \<or> levels_ordered (tree_levels t') \<and> no_tombstone (tree_disk t') (tree_levels t') k
            \<longrightarrow> mono_get x m c t' k = Inr v)"
    by (auto simp: mono_insert_def mono_get_def result_simps)
  obtain t' where d: "tree_delete x k t = (Inr (), t')"
    and f: "flushed x (t\<lparr>lt_memtable := mt_delete k (lt_memtable t)\<rparr>) t' M"
    by (rule tree_delete_ok [OF t total fits(2)])
  have ok: "tree_ok x t' M" using f by (simp add: flushed_def)
  have "tree_map t' k = Some None"
    using f stored(2) [of "mt_delete k (lt_memtable t)"] mt by (simp add: flushed_def)
  then have "tree_view t' k = None" by (simp add: tree_view_def live_def)
  with d ok alone [OF ok]
  show "\<exists>t'. mono_delete x k t = (Inr (), t') \<and> tree_ok x t' M \<and> range_fold m c t' k k = mempty m"
    by (auto simp: mono_delete_def)
  show "\<forall>u e. vc_ser c u = Inl e \<longrightarrow> mono_insert x c k u t = (Inl (Bincode e), t)"
    by (simp add: mono_insert_def result_simps)
qed

theorem monoidal_insert_roundtrip_witness:
  "\<exists>t'. mono_insert sample_codecs u64_codec (Key [4]) 1000 (memtable_tree []) = (Inr (), t')
     \<and> range_fold u64_monoidal u64_codec t' (Key [4]) (Key [4]) = 1000"
proof -
  have "fits (mt_data (mt_insert (Key [4]) (Value (le_bytes 8 1000)) (lt_memtable (memtable_tree []))))"
    "fits (mt_data (mt_delete (Key [4]) (lt_memtable (memtable_tree []))))"
    by (simp_all add: memtable_tree_def fits_def mt_insert_def mt_delete_def mt_new_def Let_def key_size_def opt_bytes_def)
  then show ?thesis
    using monoidal_insert_roundtrip [OF memtable_tree_ok sample_codecs_total u64_codec_ok, of 1000 "le_bytes 8 1000" "Key [4]"
        "[]" u64_monoidal] u64_sum.unital_axioms
    by (auto simp: u64_codec_def)
qed

end
