(* ===== verification/SessionLock.thy ===== *)
theory SessionLock
  imports Checksum
begin

text \<open>
  \<open>src/session_lock.rs\<close>: the lock file of a session, on Unix. \<open>acquire\<close> looks at the lock file,
  opens and truncates it, takes an exclusive \<open>flock\<close> without waiting and writes who holds it;
  dropping the lock removes the name and then closes the file, which releases the \<open>flock\<close>. A
  \<open>flock\<close> belongs to an open file and an inode. The process id, host name, clock, UUID, the test
  whether a process is alive and the JSON of \<open>serde_json\<close> are the environment.
\<close>

section \<open>The environment and the state\<close>

record lock_info =
  li_pid :: u32
  li_hostname :: string
  li_timestamp :: u64
  li_uuid :: string

record lock_env =
  le_pid :: u32
  le_hostname :: "string option"
  le_now :: u64
  le_uuid :: string
  le_kill :: "u32 \<Rightarrow> bool"
  le_to_json :: "lock_info \<Rightarrow> string + string"
  le_from_json :: "string \<Rightarrow> string + lock_info"

text \<open>\<open>lw_flock\<close> gives the open file that holds the lock of an inode.\<close>

record lock_world =
  lw_disk :: disk
  lw_flock :: "nat \<Rightarrow> nat option"
  lw_next_fd :: nat

record lock_file =
  lf_fd :: nat
  lf_inode :: nat

record session_lock =
  sl_file :: lock_file
  sl_path :: path
  sl_lock_info :: lock_info

definition on_lock_disk :: "(disk, 'a) io \<Rightarrow> (lock_world, 'a) io" where
  "on_lock_disk m w = (case m (lw_disk w) of (r, d) \<Rightarrow> (r, w\<lparr>lw_disk := d\<rparr>))"

definition lock_path :: "path \<Rightarrow> path" where
  "lock_path session_dir = session_dir @ [''lock'']"

definition close_file :: "lock_file \<Rightarrow> lock_world \<Rightarrow> lock_world" where
  "close_file f w =
     (if lw_flock w (lf_inode f) = Some (lf_fd f) then w\<lparr>lw_flock := (lw_flock w)(lf_inode f := None)\<rparr> else w)"

section \<open>The steps of acquire\<close>

definition is_process_alive :: "lock_env \<Rightarrow> u32 \<Rightarrow> bool" where
  "is_process_alive e pid = le_kill e pid"

definition read_lock_info :: "lock_env \<Rightarrow> path \<Rightarrow> disk \<Rightarrow> lock_info res" where
  "read_lock_info e p d =
     res_bind (fs_read_to_string p d) (\<lambda>contents. map_err (\<lambda>_. Io InvalidData) (le_from_json e contents))"

definition acquire_check :: "lock_env \<Rightarrow> path \<Rightarrow> (lock_world, unit) io" where
  "acquire_check e session_dir w =
     (if path_exists (lw_disk w) (lock_path session_dir)
      then (case read_lock_info e (lock_path session_dir) (lw_disk w) of
              Inr existing_info \<Rightarrow>
                if is_process_alive e (li_pid existing_info) then (Inl (Io AlreadyExists), w) else (Inr (), w)
            | Inl _ \<Rightarrow> (Inr (), w))
      else (Inr (), w))"

definition acquire_open :: "path \<Rightarrow> (lock_world, lock_file) io" where
  "acquire_open session_dir w =
     io_bind (on_lock_disk (fs_create (lock_path session_dir))) (\<lambda>inode w.
       (Inr \<lparr>lf_fd = lw_next_fd w, lf_inode = inode\<rparr>, w\<lparr>lw_next_fd := Suc (lw_next_fd w)\<rparr>)) w"

text \<open>\<open>flock(fd, LOCK_EX | LOCK_NB)\<close>; on failure the file is dropped with the error.\<close>

definition acquire_flock :: "lock_file \<Rightarrow> (lock_world, unit) io" where
  "acquire_flock f w =
     (if lw_flock w (lf_inode f) = None
      then (Inr (), w\<lparr>lw_flock := (lw_flock w)(lf_inode f := Some (lf_fd f))\<rparr>)
      else (Inl (Io WouldBlock), close_file f w))"

definition lock_info_of :: "lock_env \<Rightarrow> lock_info" where
  "lock_info_of e = \<lparr>li_pid = le_pid e,
     li_hostname = (case le_hostname e of Some h \<Rightarrow> h | None \<Rightarrow> ''unknown''),
     li_timestamp = le_now e, li_uuid = le_uuid e\<rparr>"

definition acquire_write :: "lock_env \<Rightarrow> path \<Rightarrow> lock_file \<Rightarrow> (lock_world, session_lock) io" where
  "acquire_write e session_dir f w =
     (case io_bind (io_lift (map_err (\<lambda>_. Io InvalidData) (le_to_json e (lock_info_of e)))) (\<lambda>lock_json.
           io_bind (on_lock_disk (fs_append (lf_inode f) (string_bytes (lock_json @ [newline])))) (\<lambda>_.
           on_lock_disk (fs_sync (lf_inode f)))) w of
        (Inl err, w') \<Rightarrow> (Inl err, close_file f w')
      | (Inr _, w') \<Rightarrow>
          (Inr \<lparr>sl_file = f, sl_path = lock_path session_dir, sl_lock_info = lock_info_of e\<rparr>, w'))"

definition acquire :: "lock_env \<Rightarrow> path \<Rightarrow> (lock_world, session_lock) io" where
  "acquire e session_dir =
     io_bind (acquire_check e session_dir) (\<lambda>_.
     io_bind (acquire_open session_dir) (\<lambda>file.
     io_bind (acquire_flock file) (\<lambda>_.
     acquire_write e session_dir file)))"

text \<open>The body of \<open>drop\<close>, and the drop of the file after it.\<close>

definition drop_name :: "session_lock \<Rightarrow> lock_world \<Rightarrow> lock_world" where
  "drop_name self w = w\<lparr>lw_disk := snd (fs_remove (sl_path self) (lw_disk w))\<rparr>"

definition session_lock_drop :: "session_lock \<Rightarrow> lock_world \<Rightarrow> lock_world" where
  "session_lock_drop self w = close_file (sl_file self) (drop_name self w)"

section \<open>Processes side by side\<close>

text \<open>
  Any number of processes acquire and drop the lock of one directory. A process is between two
  of the steps above; \<open>advance p\<close> lets process \<open>p\<close> take its next one.
\<close>

datatype process =
    Idle
  | Checked
  | Opened lock_file
  | Locked lock_file
  | Holding session_lock
  | Unlinked session_lock
  | Refused error

record lock_system =
  ls_world :: lock_world
  ls_process :: "nat \<Rightarrow> process"

definition settle :: "nat \<Rightarrow> (error + 'a) \<times> lock_world \<Rightarrow> ('a \<Rightarrow> process) \<Rightarrow> lock_system \<Rightarrow> lock_system" where
  "settle p r f s =
     \<lparr>ls_world = snd r,
      ls_process = (ls_process s)(p := (case fst r of Inl e \<Rightarrow> Refused e | Inr y \<Rightarrow> f y))\<rparr>"

definition advance :: "(nat \<Rightarrow> lock_env) \<Rightarrow> path \<Rightarrow> nat \<Rightarrow> lock_system \<Rightarrow> lock_system" where
  "advance env dir p s =
     (let w = ls_world s in
      case ls_process s p of
        Idle \<Rightarrow> settle p (acquire_check (env p) dir w) (\<lambda>_. Checked) s
      | Checked \<Rightarrow> settle p (acquire_open dir w) Opened s
      | Opened f \<Rightarrow> settle p (acquire_flock f w) (\<lambda>_. Locked f) s
      | Locked f \<Rightarrow> settle p (acquire_write (env p) dir f w) Holding s
      | Holding l \<Rightarrow> s\<lparr>ls_world := drop_name l w, ls_process := (ls_process s)(p := Unlinked l)\<rparr>
      | Unlinked l \<Rightarrow> s\<lparr>ls_world := close_file (sl_file l) w, ls_process := (ls_process s)(p := Idle)\<rparr>
      | Refused e \<Rightarrow> s\<lparr>ls_process := (ls_process s)(p := Idle)\<rparr>)"

definition start_locks :: "disk \<Rightarrow> lock_system" where
  "start_locks d = \<lparr>ls_world = \<lparr>lw_disk = d, lw_flock = (\<lambda>_. None), lw_next_fd = 0\<rparr>, ls_process = (\<lambda>_. Idle)\<rparr>"

inductive lock_reachable :: "(nat \<Rightarrow> lock_env) \<Rightarrow> path \<Rightarrow> disk \<Rightarrow> lock_system \<Rightarrow> bool"
  for env :: "nat \<Rightarrow> lock_env" and dir :: path and d :: disk where
  start: "lock_reachable env dir d (start_locks d)"
| step: "lock_reachable env dir d s \<Longrightarrow> lock_reachable env dir d (advance env dir p s)"

text \<open>The runs in which no process drops the lock.\<close>

inductive undropped :: "(nat \<Rightarrow> lock_env) \<Rightarrow> path \<Rightarrow> disk \<Rightarrow> lock_system \<Rightarrow> bool"
  for env :: "nat \<Rightarrow> lock_env" and dir :: path and d :: disk where
  start: "undropped env dir d (start_locks d)"
| step: "undropped env dir d s \<Longrightarrow> (\<And>l. ls_process s p \<noteq> Holding l) \<Longrightarrow> undropped env dir d (advance env dir p s)"

text \<open>The file a process has open, and whether it holds the lock on it.\<close>

fun open_file :: "process \<Rightarrow> lock_file option" where
  "open_file (Opened f) = Some f"
| "open_file (Locked f) = Some f"
| "open_file (Holding l) = Some (sl_file l)"
| "open_file (Unlinked l) = Some (sl_file l)"
| "open_file _ = None"

fun locked_file :: "process \<Rightarrow> lock_file option" where
  "locked_file (Locked f) = Some f"
| "locked_file (Holding l) = Some (sl_file l)"
| "locked_file (Unlinked l) = Some (sl_file l)"
| "locked_file _ = None"

section \<open>Invariants\<close>

definition locks_ok :: "lock_system \<Rightarrow> bool" where
  "locks_ok s \<longleftrightarrow>
     (\<forall>p f. open_file (ls_process s p) = Some f \<longrightarrow> lf_fd f < lw_next_fd (ls_world s))
     \<and> (\<forall>p q f g. open_file (ls_process s p) = Some f \<longrightarrow> open_file (ls_process s q) = Some g
          \<longrightarrow> lf_fd f = lf_fd g \<longrightarrow> p = q)
     \<and> (\<forall>p f. locked_file (ls_process s p) = Some f \<longrightarrow> lw_flock (ls_world s) (lf_inode f) = Some (lf_fd f))"

lemma locked_open: "locked_file q = Some f \<Longrightarrow> open_file q = Some f"
  by (cases q) simp_all

lemma on_lock_disk_frame:
  "on_lock_disk m w = (r, w') \<Longrightarrow> lw_flock w' = lw_flock w \<and> lw_next_fd w' = lw_next_fd w"
  by (auto simp: on_lock_disk_def split: prod.splits)

lemma acquire_check_same: "snd (acquire_check e dir w) = w"
  by (simp add: acquire_check_def split: sum.split)

lemma acquire_open_cases:
  obtains i d' where "acquire_open dir w = (Inr \<lparr>lf_fd = lw_next_fd w, lf_inode = i\<rparr>,
      w\<lparr>lw_disk := d', lw_next_fd := Suc (lw_next_fd w)\<rparr>)" and "fs_create (lock_path dir) (lw_disk w) = (Inr i, d')"
  | e d' where "acquire_open dir w = (Inl e, w\<lparr>lw_disk := d'\<rparr>)" and "fs_create (lock_path dir) (lw_disk w) = (Inl e, d')"
  by (cases "fs_create (lock_path dir) (lw_disk w)"; cases "fst (fs_create (lock_path dir) (lw_disk w))")
    (auto simp: acquire_open_def on_lock_disk_def io_bind_def)

lemma acquire_write_cases:
  obtains l d' where "acquire_write e dir f w = (Inr l, w\<lparr>lw_disk := d'\<rparr>)" and "sl_file l = f"
    and "sl_path l = lock_path dir" and "d_names d' = d_names (lw_disk w)" and "disk_ok d' = disk_ok (lw_disk w)"
  | err where "acquire_write e dir f w = (Inl err, close_file f w)"
proof (cases "le_to_json e (lock_info_of e)")
  case (Inl err)
  then show thesis using that(2) by (simp add: acquire_write_def result_simps)
next
  case (Inr json)
  let ?d = "snd (fs_append (lf_inode f) (string_bytes (json @ [newline])) (lw_disk w))"
  have "acquire_write e dir f w =
      (Inr \<lparr>sl_file = f, sl_path = lock_path dir, sl_lock_info = lock_info_of e\<rparr>, w\<lparr>lw_disk := ?d\<rparr>)"
    using Inr by (simp add: acquire_write_def io_bind_def on_lock_disk_def fs_append_def fs_sync_def)
  then show thesis
    by (rule that(1)) (simp_all add: fs_append_def disk_ok_def)
qed

lemma locks_ok_advance:
  assumes ok: "locks_ok s"
  shows "locks_ok (advance env dir p s)"
proof -
  let ?w = "ls_world s"
  note inv = ok [unfolded locks_ok_def]
  have old: "open_file (ls_process s q) = Some f \<Longrightarrow> lf_fd f < lw_next_fd ?w" for q f using inv by blast
  have uniq: "open_file (ls_process s q) = Some f \<Longrightarrow> open_file (ls_process s r) = Some g \<Longrightarrow> lf_fd f = lf_fd g \<Longrightarrow> q = r"
    for q r f g using inv by blast
  have held: "locked_file (ls_process s q) = Some f \<Longrightarrow> lw_flock ?w (lf_inode f) = Some (lf_fd f)" for q f
    using inv by blast
  have same_flock: "locks_ok \<lparr>ls_world = w', ls_process = (ls_process s)(p := pr)\<rparr>"
    if "lw_flock w' = lw_flock ?w" "lw_next_fd ?w \<le> lw_next_fd w'"
      "open_file pr = None \<or> open_file pr = open_file (ls_process s p)"
      "locked_file pr = None \<or> locked_file pr = locked_file (ls_process s p)" for w' pr
    using that old uniq held unfolding locks_ok_def
    by (auto split: if_splits dest: less_le_trans) (metis less_le_trans)+
  have closed: "locks_ok \<lparr>ls_world = close_file f ?w, ls_process = (ls_process s)(p := pr)\<rparr>"
    if "open_file (ls_process s p) = Some f" "open_file pr = None" for f pr
  proof -
    have "locked_file pr = None" using that(2) by (cases pr) simp_all
    moreover have "lw_flock (close_file f ?w) (lf_inode g) = Some (lf_fd g)"
      if "q \<noteq> p" "locked_file (ls_process s q) = Some g" for q g
      using uniq [OF \<open>open_file (ls_process s p) = Some f\<close> locked_open [OF that(2)]] held [OF that(2)] that(1)
      by (auto simp: close_file_def)
    moreover have "lw_next_fd (close_file f ?w) = lw_next_fd ?w" by (simp add: close_file_def)
    ultimately show ?thesis using old uniq that(2) unfolding locks_ok_def by (auto split: if_splits)
  qed
  show ?thesis
  proof (cases "ls_process s p")
    case Idle
    show ?thesis
      using same_flock [of ?w] Idle
      by (simp add: advance_def settle_def Let_def acquire_check_same split: sum.split)
  next
    case Checked
    show ?thesis
    proof (cases rule: acquire_open_cases [of dir ?w])
      case (1 i d')
      let ?f = "\<lparr>lf_fd = lw_next_fd ?w, lf_inode = i\<rparr>"
      have new: "lf_fd ?f = lw_next_fd ?w" by simp
      have "locks_ok \<lparr>ls_world = ?w\<lparr>lw_disk := d', lw_next_fd := Suc (lw_next_fd ?w)\<rparr>,
          ls_process = (ls_process s)(p := Opened ?f)\<rparr>"
        using old uniq held unfolding locks_ok_def
        by (auto split: if_splits intro: less_SucI dest: old)
      then show ?thesis using Checked 1 by (simp add: advance_def settle_def Let_def)
    next
      case (2 e d')
      with same_flock [of "?w\<lparr>lw_disk := d'\<rparr>" "Refused e"] Checked show ?thesis
        by (simp add: advance_def settle_def Let_def)
    qed
  next
    case (Opened f)
    show ?thesis
    proof (cases "lw_flock ?w (lf_inode f)")
      case None
      have "lf_inode g \<noteq> lf_inode f" if "locked_file (ls_process s q) = Some g" for q g
        using held [OF that] None by auto
      then have "locks_ok \<lparr>ls_world = ?w\<lparr>lw_flock := (lw_flock ?w)(lf_inode f := Some (lf_fd f))\<rparr>,
          ls_process = (ls_process s)(p := Locked f)\<rparr>"
        using old uniq held Opened unfolding locks_ok_def by (auto split: if_splits) (metis open_file.simps(1))+
      then show ?thesis using Opened None by (simp add: advance_def settle_def Let_def acquire_flock_def)
    next
      case (Some j)
      with closed [of f "Refused (Io WouldBlock)"] Opened show ?thesis
        by (simp add: advance_def settle_def Let_def acquire_flock_def)
    qed
  next
    case (Locked f)
    show ?thesis
    proof (cases rule: acquire_write_cases [of "env p" dir f ?w])
      case (1 l d')
      with same_flock [of "?w\<lparr>lw_disk := d'\<rparr>" "Holding l"] Locked show ?thesis
        by (simp add: advance_def settle_def Let_def)
    next
      case (2 e)
      with closed [of f "Refused e"] Locked show ?thesis by (simp add: advance_def settle_def Let_def)
    qed
  next
    case (Holding l)
    with same_flock [of "drop_name l ?w" "Unlinked l"] show ?thesis
      by (cases s) (simp add: advance_def Let_def drop_name_def)
  next
    case (Unlinked l)
    with closed [of "sl_file l" Idle] show ?thesis by (cases s) (simp add: advance_def Let_def)
  next
    case (Refused e)
    with same_flock [of ?w Idle] show ?thesis by (cases s) (simp add: advance_def Let_def)
  qed
qed

lemma locks_ok_start: "locks_ok (start_locks d)"
  by (simp add: locks_ok_def start_locks_def)

lemma lock_reachable_ok: "lock_reachable env dir d s \<Longrightarrow> locks_ok s"
  by (induction rule: lock_reachable.induct) (simp_all add: locks_ok_start locks_ok_advance)

lemma undropped_reachable: "undropped env dir d s \<Longrightarrow> lock_reachable env dir d s"
  by (induction rule: undropped.induct) (auto intro: lock_reachable.intros)

text \<open>While nobody drops the lock, every open lock file is the one the name leads to.\<close>

definition one_inode :: "path \<Rightarrow> lock_system \<Rightarrow> bool" where
  "one_inode dir s \<longleftrightarrow>
     (\<forall>p f. open_file (ls_process s p) = Some f \<longrightarrow>
        map_of (d_names (lw_disk (ls_world s))) (lock_path dir) = Some (lf_inode f))
     \<and> (\<forall>p l. ls_process s p \<noteq> Unlinked l)"

lemma fs_create_names:
  "fs_create q d = (Inr i, d') \<Longrightarrow> map_of (d_names d') q = Some i
    \<and> (\<forall>j. map_of (d_names d) q = Some j \<longrightarrow> j = i)"
  by (auto simp: fs_create_def fs_fresh_def split: if_splits option.splits)

lemma fs_create_error: "fs_create q d = (Inl e, d') \<Longrightarrow> d' = d"
  by (auto simp: fs_create_def fs_fresh_def split: if_splits option.splits)

lemma close_file_disk [simp]: "lw_disk (close_file f w) = lw_disk w"
  by (simp add: close_file_def)

lemma one_inode_undropped:
  "undropped env dir d s \<Longrightarrow> one_inode dir s"
proof (induction rule: undropped.induct)
  case start
  show ?case by (simp add: one_inode_def start_locks_def)
next
  case (step s p)
  let ?w = "ls_world s"
  have keep: "one_inode dir \<lparr>ls_world = w', ls_process = (ls_process s)(p := pr)\<rparr>"
    if "map_of (d_names (lw_disk w')) (lock_path dir) = map_of (d_names (lw_disk ?w)) (lock_path dir)"
      "open_file pr = None \<or> open_file pr = open_file (ls_process s p)" "\<And>l. pr \<noteq> Unlinked l" for w' pr
    using step.IH that unfolding one_inode_def by (auto split: if_splits)
  show ?case
  proof (cases "ls_process s p")
    case Idle
    then show ?thesis using keep [of ?w]
      by (simp add: advance_def settle_def Let_def acquire_check_same split: sum.split)
  next
    case Checked
    show ?thesis
    proof (cases rule: acquire_open_cases [of dir ?w])
      case (1 i d')
      from fs_create_names [OF 1(2)] step.IH
      have "one_inode dir \<lparr>ls_world = ?w\<lparr>lw_disk := d', lw_next_fd := Suc (lw_next_fd ?w)\<rparr>,
          ls_process = (ls_process s)(p := Opened \<lparr>lf_fd = lw_next_fd ?w, lf_inode = i\<rparr>)\<rparr>"
        by (auto simp: one_inode_def)
      then show ?thesis using Checked 1 by (simp add: advance_def settle_def Let_def)
    next
      case (2 e d')
      with fs_create_error [OF 2(2)] keep [of "?w\<lparr>lw_disk := d'\<rparr>" "Refused e"] Checked show ?thesis
        by (simp add: advance_def settle_def Let_def)
    qed
  next
    case (Opened f)
    then show ?thesis
      using keep [of "?w\<lparr>lw_flock := (lw_flock ?w)(lf_inode f := Some (lf_fd f))\<rparr>" "Locked f"]
        keep [of "close_file f ?w" "Refused (Io WouldBlock)"]
      by (simp add: advance_def settle_def Let_def acquire_flock_def)
  next
    case (Locked f)
    show ?thesis
    proof (cases rule: acquire_write_cases [of "env p" dir f ?w])
      case (1 l d')
      with keep [of "?w\<lparr>lw_disk := d'\<rparr>" "Holding l"] Locked show ?thesis
        by (simp add: advance_def settle_def Let_def)
    next
      case (2 e)
      with keep [of "close_file f ?w" "Refused e"] Locked show ?thesis by (simp add: advance_def settle_def Let_def)
    qed
  next
    case (Holding l)
    with step.hyps(2) show ?thesis by blast
  next
    case (Unlinked l)
    with step.IH show ?thesis by (simp add: one_inode_def)
  next
    case (Refused e)
    with keep [of ?w Idle] show ?thesis by (cases s) (simp add: advance_def Let_def)
  qed
qed

end
