(* ===== verification/LockProperties.thy ===== *)
theory LockProperties
  imports SessionLock
begin

text \<open>
  What the session lock guarantees, and where the guarantee ends: the outcome of \<open>acquire\<close> in
  every situation, mutual exclusion while no lock is dropped, and the schedule in which the
  removal of the lock file lets two processes in.
\<close>

section \<open>Acquiring and dropping\<close>

text \<open>The inode of the lock file and whether some process has the \<open>flock\<close> on it.\<close>

definition lock_inode :: "path \<Rightarrow> lock_world \<Rightarrow> nat" where
  "lock_inode dir w =
     (case map_of (d_names (lw_disk w)) (lock_path dir) of Some i \<Rightarrow> i | None \<Rightarrow> d_next (lw_disk w))"

definition holder_alive :: "lock_env \<Rightarrow> path \<Rightarrow> lock_world \<Rightarrow> bool" where
  "holder_alive e dir w \<longleftrightarrow>
     (\<exists>info. read_lock_info e (lock_path dir) (lw_disk w) = Inr info \<and> is_process_alive e (li_pid info))"

lemma acquire_check_eq:
  "acquire_check e dir w = (if holder_alive e dir w then Inl (Io AlreadyExists) else Inr (), w)"
proof (cases "path_exists (lw_disk w) (lock_path dir)")
  case True
  then show ?thesis by (auto simp: acquire_check_def holder_alive_def split: sum.split)
next
  case False
  then have "read_lock_info e (lock_path dir) (lw_disk w) = Inl (Io NotFound)"
    by (simp add: read_lock_info_def fs_read_to_string_def fs_read_def path_exists_contents)
  then show ?thesis using False by (auto simp: acquire_check_def holder_alive_def)
qed

lemma lock_create:
  assumes "dir \<in> set (d_dirs (lw_disk w))" and "lock_path dir \<notin> set (d_dirs (lw_disk w))"
  obtains d' where "fs_create (lock_path dir) (lw_disk w) = (Inr (lock_inode dir w), d')"
    and "map_of (d_names d') (lock_path dir) = Some (lock_inode dir w)" and "d_data d' (lock_inode dir w) = []"
  using assms
  by (cases "map_of (d_names (lw_disk w)) (lock_path dir)")
    (auto simp: fs_create_def fs_fresh_def lock_inode_def lock_path_def)

text \<open>
  C33. \<open>acquire\<close> decides in three steps. It answers \<open>AlreadyExists\<close> and changes nothing when the
  lock file names a process that is alive. Otherwise it truncates the file; when somebody has
  the \<open>flock\<close> it then answers \<open>WouldBlock\<close> and the record of the holder is lost, and when nobody
  has, it takes the \<open>flock\<close>, the file holds the record of the new holder, and dropping the
  lock removes the file and frees the \<open>flock\<close>.
\<close>

theorem acquire_decides:
  assumes dir: "dir \<in> set (d_dirs (lw_disk w))" "lock_path dir \<notin> set (d_dirs (lw_disk w))"
    and fresh: "lw_flock w (lock_inode dir w) \<noteq> Some (lw_next_fd w)"
    and json: "le_to_json e (lock_info_of e) = Inr json"
  shows "(holder_alive e dir w \<longrightarrow> acquire e dir w = (Inl (Io AlreadyExists), w))
    \<and> (\<not> holder_alive e dir w \<longrightarrow> lw_flock w (lock_inode dir w) \<noteq> None \<longrightarrow>
         (\<exists>w'. acquire e dir w = (Inl (Io WouldBlock), w') \<and> lw_flock w' = lw_flock w
            \<and> file_contents (lw_disk w') (lock_path dir) = Some []))
    \<and> (\<not> holder_alive e dir w \<longrightarrow> lw_flock w (lock_inode dir w) = None \<longrightarrow>
         (\<exists>l w'. acquire e dir w = (Inr l, w')
            \<and> lw_flock w' = (lw_flock w)(lock_inode dir w \<mapsto> lf_fd (sl_file l))
            \<and> file_contents (lw_disk w') (lock_path dir) = Some (string_bytes (json @ [newline]))
            \<and> lw_flock (session_lock_drop l w') = lw_flock w
            \<and> file_contents (lw_disk (session_lock_drop l w')) (lock_path dir) = None))"
proof -
  let ?i = "lock_inode dir w"
  obtain d' where create: "fs_create (lock_path dir) (lw_disk w) = (Inr ?i, d')"
      "map_of (d_names d') (lock_path dir) = Some ?i" "d_data d' ?i = []"
    by (rule lock_create [OF dir])
  let ?f = "\<lparr>lf_fd = lw_next_fd w, lf_inode = ?i\<rparr>" and ?w = "w\<lparr>lw_disk := d', lw_next_fd := Suc (lw_next_fd w)\<rparr>"
  have open_ok: "acquire_open dir w = (Inr ?f, ?w)"
    using create by (simp add: acquire_open_def io_bind_def on_lock_disk_def)
  have run: "acquire e dir w = io_bind (acquire_flock ?f) (\<lambda>_. acquire_write e dir ?f) ?w"
    if "\<not> holder_alive e dir w"
    using that open_ok by (simp add: acquire_def acquire_check_eq result_simps)
  have "acquire e dir w = (Inl (Io AlreadyExists), w)" if "holder_alive e dir w"
    using that by (simp add: acquire_def acquire_check_eq result_simps)
  moreover have "\<exists>w'. acquire e dir w = (Inl (Io WouldBlock), w') \<and> lw_flock w' = lw_flock w
      \<and> file_contents (lw_disk w') (lock_path dir) = Some []"
    if "\<not> holder_alive e dir w" "lw_flock w ?i \<noteq> None"
    using run [OF that(1)] that(2) fresh create
    by (simp add: acquire_flock_def result_simps close_file_def file_contents_def)
  moreover have "\<exists>l w'. acquire e dir w = (Inr l, w')
      \<and> lw_flock w' = (lw_flock w)(?i \<mapsto> lf_fd (sl_file l))
      \<and> file_contents (lw_disk w') (lock_path dir) = Some (string_bytes (json @ [newline]))
      \<and> lw_flock (session_lock_drop l w') = lw_flock w
      \<and> file_contents (lw_disk (session_lock_drop l w')) (lock_path dir) = None"
    if "\<not> holder_alive e dir w" "lw_flock w ?i = None"
    using run [OF that(1)] that(2) create json
    by (simp add: acquire_flock_def acquire_write_def result_simps on_lock_disk_def io_bind_def fs_append_def fs_sync_def
        file_contents_def session_lock_drop_def drop_name_def close_file_def fs_remove_def delete_conv' fun_upd_idem)
  ultimately show ?thesis by blast
qed

text \<open>
  Processes of one host, all alive; the JSON of the record is the word \<open>held\<close>, and other text
  does not parse.
\<close>

definition sample_lock_env :: "nat \<Rightarrow> lock_env" where
  "sample_lock_env p = \<lparr>le_pid = of_nat p, le_hostname = Some ''node'', le_now = 0, le_uuid = ''id'',
     le_kill = (\<lambda>_. True), le_to_json = (\<lambda>_. Inr ''held''),
     le_from_json = (\<lambda>t. if t = ''held'' @ [newline]
       then Inr \<lparr>li_pid = 1, li_hostname = ''node'', li_timestamp = 0, li_uuid = ''id''\<rparr> else Inl ''EOF'')\<rparr>"

definition db_disk :: disk where
  "db_disk = \<lparr>d_names = [], d_dirs = [[], [''db'']], d_data = (\<lambda>_. []), d_next = 0\<rparr>"

theorem acquire_decides_witness:
  "\<exists>l w. acquire (sample_lock_env 7) [''db''] (ls_world (start_locks db_disk)) = (Inr l, w)
     \<and> file_contents (lw_disk w) [''db'', ''lock''] = Some (string_bytes (''held'' @ [newline]))"
proof -
  have "\<not> holder_alive (sample_lock_env 7) [''db''] (ls_world (start_locks db_disk))"
    by (simp add: holder_alive_def read_lock_info_def fs_read_to_string_def fs_read_def file_contents_def
        start_locks_def db_disk_def)
  then show ?thesis
    using acquire_decides [of "[''db'']" "ls_world (start_locks db_disk)" "sample_lock_env 7" "''held''"]
    by (auto simp: start_locks_def db_disk_def lock_path_def lock_inode_def sample_lock_env_def)
qed

section \<open>Mutual exclusion\<close>

text \<open>
  C34. Mutual exclusion. However the steps of any number of processes interleave, no two of them
  have the lock on the same file; and as long as no process has dropped its lock, no two of them
  have the lock of the directory at all.
\<close>

theorem lock_mutual_exclusion:
  assumes "lock_reachable env dir d s" and "locked_file (ls_process s p) = Some f"
    and "locked_file (ls_process s q) = Some g"
  shows "(lf_inode f = lf_inode g \<longrightarrow> p = q) \<and> (undropped env dir d s \<longrightarrow> p = q)"
proof -
  have ok: "locks_ok s" using assms(1) by (rule lock_reachable_ok)
  have same: "p = q" if "lf_inode f = lf_inode g"
    using ok assms(2,3) that locked_open [OF assms(2)] locked_open [OF assms(3)]
    unfolding locks_ok_def by (metis option.inject)
  moreover have "p = q" if "undropped env dir d s"
  proof -
    have "one_inode dir s" using that by (rule one_inode_undropped)
    then have "lf_inode f = lf_inode g"
      using locked_open [OF assms(2)] locked_open [OF assms(3)] unfolding one_inode_def by (metis option.inject)
    then show ?thesis by (rule same)
  qed
  ultimately show ?thesis by blast
qed

text \<open>A schedule is a list of the processes that take the next steps.\<close>

definition run_locks :: "(nat \<Rightarrow> lock_env) \<Rightarrow> path \<Rightarrow> nat list \<Rightarrow> disk \<Rightarrow> lock_system" where
  "run_locks env dir ps d = fold (advance env dir) ps (start_locks d)"

lemma run_locks_reachable: "lock_reachable env dir d (run_locks env dir ps d)"
proof -
  have "lock_reachable env dir d s \<Longrightarrow> lock_reachable env dir d (fold (advance env dir) ps s)" for s
    by (induction ps arbitrary: s) (auto intro: lock_reachable.step)
  then show ?thesis unfolding run_locks_def by (auto intro: lock_reachable.start)
qed

lemmas lock_steps = advance_def settle_def Let_def acquire_check_def acquire_open_def acquire_flock_def
  acquire_write_def io_bind_def on_lock_disk_def fs_create_def fs_fresh_def fs_append_def fs_sync_def fs_remove_def
  path_exists_def read_lock_info_def fs_read_to_string_def fs_read_def file_contents_def drop_name_def
  close_file_def is_process_alive_def

theorem lock_mutual_exclusion_witness:
  "\<exists>f. locked_file (ls_process (run_locks sample_lock_env [''db''] [0, 1, 0, 0] db_disk) 0) = Some f
     \<and> locked_file (ls_process (run_locks sample_lock_env [''db''] [0, 1, 0, 0] db_disk) 1) \<noteq> Some f"
proof -
  let ?s = "run_locks sample_lock_env [''db''] [0, 1, 0, 0] db_disk"
  have "locked_file (ls_process ?s 0) = Some \<lparr>lf_fd = 0, lf_inode = 0\<rparr>"
    by (simp add: run_locks_def start_locks_def db_disk_def lock_path_def lock_steps)
  moreover from this have "locked_file (ls_process ?s 1) \<noteq> Some \<lparr>lf_fd = 0, lf_inode = 0\<rparr>"
    using lock_mutual_exclusion [OF run_locks_reachable, of sample_lock_env "[''db'']" "[0, 1, 0, 0]" db_disk 0 _ 1] by auto
  ultimately show ?thesis by blast
qed

text \<open>
  C35. Dropping a lock can let two processes in. A process that had the lock file open when the
  holder removed its name takes the \<open>flock\<close> on the removed file, while a third process finds no
  lock file, creates a new one and takes the \<open>flock\<close> on that: both hold the lock of the same
  directory. It suffices that the record of a holder can be written and that an empty lock
  file can not be read.
\<close>

theorem drop_breaks_exclusion:
  assumes "\<forall>p. \<exists>json. le_to_json (env p) (lock_info_of (env p)) = Inr json"
    and "\<forall>p. \<exists>err. le_from_json (env p) [] = Inl err"
  shows "\<exists>s l1 l2. lock_reachable env [''db''] db_disk s
    \<and> ls_process s 1 = Holding l1 \<and> ls_process s 2 = Holding l2"
proof -
  obtain j where j: "\<And>p. le_to_json (env p) (lock_info_of (env p)) = Inr (j p)" using assms(1) by metis
  obtain err where err: "\<And>p. le_from_json (env p) [] = Inl (err p)" using assms(2) by metis
  let ?s = "run_locks env [''db''] [0, 0, 1, 0, 0, 1, 0, 0, 1, 1, 2, 2, 2, 2] db_disk"
  have "\<exists>l1 l2. ls_process ?s 1 = Holding l1 \<and> ls_process ?s 2 = Holding l2"
    by (simp add: run_locks_def start_locks_def db_disk_def lock_path_def lock_steps j err bytes_string_def)
  with run_locks_reachable show ?thesis by blast
qed

theorem drop_breaks_exclusion_witness:
  "\<exists>s l1 l2. lock_reachable sample_lock_env [''db''] db_disk s
    \<and> ls_process s 1 = Holding l1 \<and> ls_process s 2 = Holding l2"
  by (rule drop_breaks_exclusion) (simp_all add: sample_lock_env_def)

end
