(* ===== verification/Snapshot.thy ===== *)
theory Snapshot
  imports LsmTree AtomicFile SessionLock
begin

text \<open>
  \<open>src/snapshot.rs\<close> and the parts of \<open>src/lib.rs\<close> that open a tree: snapshots saved under
  \<open>snapshots/<name>/\<close> as hard links to the files of the runs, with a checksummed metadata file,
  and trees opened from the active directory or from a snapshot. The CBOR serialiser \<open>ciborium\<close>
  is the parameter \<open>metadata_codec\<close>. Texts of errors are shortened to what went wrong.
\<close>

section \<open>Metadata\<close>

record snapshot_run =
  sr_run_number :: nat
  sr_min_key :: "byte list"
  sr_max_key :: "byte list"
  sr_num_entries :: nat
  sr_level :: nat

record snapshot_metadata =
  sm_version :: u32
  sm_label :: string
  sm_config :: lsm_config
  sm_runs :: "snapshot_run list"
  sm_sequence_number :: nat

record persistent_snapshot =
  ps_name :: string
  ps_path :: path
  ps_metadata :: snapshot_metadata

record metadata_codec =
  mc_to_cbor :: "snapshot_metadata \<Rightarrow> string + byte list"
  mc_from_cbor :: "byte list \<Rightarrow> string + snapshot_metadata"

text \<open>
  \<open>lsm_path.join("snapshots").join(name)\<close> appends one component when the name is a plain file
  name. Of other names \<open>join\<close> and the file system make another path: an empty name, \<open>.\<close> and \<open>..\<close>
  are existing directories, a slash separates components, a leading one starts again at the
  root, and no file name has a zero byte. \<open>snapshot_path\<close> is the path of the code for plain
  names only.
\<close>

definition plain_name :: "string \<Rightarrow> bool" where
  "plain_name name \<longleftrightarrow> name \<notin> {[], ''.'', ''..''} \<and> CHR ''/'' \<notin> set name \<and> CHR 0x00 \<notin> set name"

definition snapshot_path :: "path \<Rightarrow> string \<Rightarrow> path" where
  "snapshot_path lsm_path name = lsm_path @ [''snapshots'', name]"

section \<open>Saving\<close>

definition snapshot_run_of :: "sst_handle \<Rightarrow> snapshot_run" where
  "snapshot_run_of sstable = \<lparr>
     sr_run_number = h_run_number sstable,
     sr_min_key = key_bytes (h_min_key sstable),
     sr_max_key = key_bytes (h_max_key sstable),
     sr_num_entries = h_num_entries sstable,
     sr_level = h_level sstable\<rparr>"

text \<open>The loop over the runs; the handle of a linked copy is dropped at the end of its turn.\<close>

fun link_runs :: "path \<Rightarrow> sst_handle list \<Rightarrow> (world, snapshot_run list) io" where
  "link_runs snapshot_dir [] = io_return []"
| "link_runs snapshot_dir (sstable # sstables) =
     io_bind (hard_link_to sstable snapshot_dir (h_run_number sstable)) (\<lambda>linked_handle.
     io_bind (\<lambda>w. (Inr (), drop_handle linked_handle w)) (\<lambda>_.
     io_bind (link_runs snapshot_dir sstables) (\<lambda>runs.
     io_return (snapshot_run_of sstable # runs))))"

definition write_atomically :: "path \<Rightarrow> byte list \<Rightarrow> (disk, unit) io" where
  "write_atomically p bytes =
     io_bind (aw_new disk_calls p) (\<lambda>writer d.
       case aw_write_all disk_calls writer bytes d of
         (Inl e, d') \<Rightarrow> (Inl e, aw_drop disk_calls writer d')
       | (Inr writer', d') \<Rightarrow> aw_commit disk_calls writer' d')"

text \<open>\<open>std::fs::write\<close>\<close>

definition fs_write :: "path \<Rightarrow> byte list \<Rightarrow> (disk, unit) io" where
  "fs_write p bytes = io_bind (fs_create p) (\<lambda>file. fs_append file bytes)"

definition ps_create ::
    "codecs \<Rightarrow> metadata_codec \<Rightarrow> path \<Rightarrow> string \<Rightarrow> string \<Rightarrow> sst_handle list \<Rightarrow> nat \<Rightarrow> lsm_config
      \<Rightarrow> (world, persistent_snapshot) io" where
  "ps_create x mc lsm_path name label sstables sequence_number config w =
     (let snapshot_dir = snapshot_path lsm_path name in
      if path_exists (w_disk w) snapshot_dir
      then (Inl (InvalidOperation (''Snapshot already exists: '' @ name)), w)
      else
        io_bind (on_disk (fs_create_dir_all snapshot_dir)) (\<lambda>_.
        io_bind (link_runs snapshot_dir sstables) (\<lambda>snapshot_runs.
        let metadata = \<lparr>sm_version = 1, sm_label = label, sm_config = config, sm_runs = snapshot_runs,
              sm_sequence_number = sequence_number\<rparr> in
        io_bind (io_lift (map_err Serialization (mc_to_cbor mc metadata))) (\<lambda>metadata_bytes.
        io_bind (on_disk (write_atomically (snapshot_dir @ [''metadata'']) metadata_bytes)) (\<lambda>_.
        io_bind (on_disk (fs_write (snapshot_dir @ [''metadata.checksum''])
            (string_bytes (crc_to_hex (crc_hash (cd_crc x) metadata_bytes))))) (\<lambda>_.
        io_bind (on_disk (fsync_directory snapshot_dir)) (\<lambda>_.
        io_return \<lparr>ps_name = name, ps_path = snapshot_dir, ps_metadata = metadata\<rparr>)))))) w)"

section \<open>Loading, checking, deleting, listing\<close>

definition ps_load :: "codecs \<Rightarrow> metadata_codec \<Rightarrow> path \<Rightarrow> string \<Rightarrow> disk \<Rightarrow> persistent_snapshot res" where
  "ps_load x mc lsm_path name d =
     (let snapshot_dir = snapshot_path lsm_path name in
      if \<not> path_exists d snapshot_dir
      then Inl (InvalidOperation (''Snapshot does not exist: '' @ name))
      else
        res_bind (fs_read (snapshot_dir @ [''metadata'']) d) (\<lambda>metadata_bytes.
        res_bind (fs_read_to_string (snapshot_dir @ [''metadata.checksum'']) d) (\<lambda>expected_checksum_hex.
        res_bind (map_err (\<lambda>_. Corruption ''Invalid checksum format'') (crc_from_hex (trim expected_checksum_hex)))
          (\<lambda>expected_checksum.
        if crc_hash (cd_crc x) metadata_bytes \<noteq> expected_checksum
        then Inl (Corruption (''Snapshot metadata checksum mismatch: '' @ name))
        else
          res_bind (map_err Serialization (mc_from_cbor mc metadata_bytes)) (\<lambda>metadata.
          Inr \<lparr>ps_name = name, ps_path = snapshot_dir, ps_metadata = metadata\<rparr>)))))"

definition validate_component :: "codecs \<Rightarrow> checksums_file \<Rightarrow> string \<Rightarrow> path \<Rightarrow> disk \<Rightarrow> unit res" where
  "validate_component x checksums name p d =
     res_bind (map_err Corruption (get_checksum checksums name)) (\<lambda>expected.
     map_err (\<lambda>_. Corruption (name @ '' checksum failed'')) (check_crc (cd_crc x) p expected d))"

definition validate_run :: "codecs \<Rightarrow> path \<Rightarrow> nat \<Rightarrow> disk \<Rightarrow> unit res" where
  "validate_run x dir run_number d =
     (let paths = run_paths_new dir run_number in
      if filter (\<lambda>p. \<not> path_exists d p) (run_files paths) \<noteq> []
      then Inl (Corruption ''missing SSTable files'')
      else
        res_bind (read_checksums_file (rp_checksums paths) d) (\<lambda>checksums.
        res_bind (validate_component x checksums ''keyops'' (rp_keyops paths) d) (\<lambda>_.
        res_bind (validate_component x checksums ''blobs'' (rp_blobs paths) d) (\<lambda>_.
        res_bind (validate_component x checksums ''filter'' (rp_filter paths) d) (\<lambda>_.
        validate_component x checksums ''index'' (rp_index paths) d)))))"

fun validate_runs :: "codecs \<Rightarrow> path \<Rightarrow> snapshot_run list \<Rightarrow> disk \<Rightarrow> unit res" where
  "validate_runs x dir [] d = Inr ()"
| "validate_runs x dir (r # rs) d =
     res_bind (validate_run x dir (sr_run_number r) d) (\<lambda>_. validate_runs x dir rs d)"

definition ps_validate :: "codecs \<Rightarrow> persistent_snapshot \<Rightarrow> disk \<Rightarrow> unit res" where
  "ps_validate x s d = validate_runs x (ps_path s) (sm_runs (ps_metadata s)) d"

definition ps_delete :: "persistent_snapshot \<Rightarrow> (disk, unit) io" where
  "ps_delete s = fs_remove_dir_all (ps_path s)"

definition list_snapshots :: "path \<Rightarrow> disk \<Rightarrow> string list res" where
  "list_snapshots lsm_path d =
     (let snapshots_dir = lsm_path @ [''snapshots''] in
      if \<not> path_exists d snapshots_dir then Inr []
      else res_bind (fs_read_dir_dirs snapshots_dir d) (\<lambda>snapshots. Inr (sort snapshots)))"

section \<open>Snapshots of a tree\<close>

text \<open>The clones of the handles are dropped when \<open>save_snapshot\<close> returns.\<close>

definition save_snapshot :: "codecs \<Rightarrow> metadata_codec \<Rightarrow> string \<Rightarrow> string \<Rightarrow> (lsm_tree, unit) io" where
  "save_snapshot x mc name label =
     io_bind (flush_memtable x) (\<lambda>_ t.
       (let all_sstables = concat (tree_levels t);
            t1 = t\<lparr>lt_store := clone_in all_sstables (lt_store t)\<rparr> in
        case on_store (on_world (ps_create x mc (lt_path t) name label all_sstables (lt_sequence t) (lt_config t))) t1 of
          (r, t2) \<Rightarrow> (map_sum id (\<lambda>_. ()) r, t2\<lparr>lt_store := drop_in all_sstables (lt_store t2)\<rparr>)))"

definition tree_list_snapshots :: "lsm_tree \<Rightarrow> string list res" where
  "tree_list_snapshots t = list_snapshots (lt_path t) (tree_disk t)"

definition delete_snapshot :: "codecs \<Rightarrow> metadata_codec \<Rightarrow> string \<Rightarrow> (lsm_tree, unit) io" where
  "delete_snapshot x mc name =
     io_bind (io_get (\<lambda>t. ps_load x mc (lt_path t) name (tree_disk t))) (\<lambda>snapshot.
     on_store (on_world (on_disk (ps_delete snapshot))))"

section \<open>Opening\<close>

text \<open>The state before a tree is open: the disk with the reference counts, and the locks.\<close>

record session_state =
  se_world :: world
  se_flock :: "nat \<Rightarrow> nat option"
  se_next_fd :: nat

definition in_world :: "(world, 'a) io \<Rightarrow> (session_state, 'a) io" where
  "in_world m s = (case m (se_world s) of (r, w) \<Rightarrow> (r, s\<lparr>se_world := w\<rparr>))"

definition lock_world_of :: "session_state \<Rightarrow> lock_world" where
  "lock_world_of s = \<lparr>lw_disk = w_disk (se_world s), lw_flock = se_flock s, lw_next_fd = se_next_fd s\<rparr>"

definition with_lock_world :: "session_state \<Rightarrow> lock_world \<Rightarrow> session_state" where
  "with_lock_world s l = s\<lparr>se_world := (se_world s)\<lparr>w_disk := lw_disk l\<rparr>, se_flock := lw_flock l, se_next_fd := lw_next_fd l\<rparr>"

definition acquire_session :: "lock_env \<Rightarrow> path \<Rightarrow> (session_state, session_lock) io" where
  "acquire_session e p s =
     (case acquire e p (lock_world_of s) of
        (Inl (Io k), l) \<Rightarrow> (Inl (SessionLocked k), with_lock_world s l)
      | (r, l) \<Rightarrow> (r, with_lock_world s l))"

text \<open>An error after the lock was taken drops the lock.\<close>

definition holding_lock :: "session_lock \<Rightarrow> (session_state, 'a) io \<Rightarrow> (session_state, session_lock \<times> 'a) io" where
  "holding_lock lock m s =
     (case m s of
        (Inl e, s') \<Rightarrow> (Inl e, with_lock_world s' (session_lock_drop lock (lock_world_of s')))
      | (Inr y, s') \<Rightarrow> (Inr (lock, y), s'))"

definition max_level_default :: nat where
  "max_level_default = 6"

text \<open>
  The handles are put into the levels they name, each level sorted by the least key; a handle
  of a level beyond the last is dropped.
\<close>

definition organize_levels :: "sst_handle list \<Rightarrow> sst_handle list list" where
  "organize_levels all_sstables =
     map (\<lambda>level. sort_key h_min_key (filter (\<lambda>h. h_level h = level) all_sstables)) [0..<Suc max_level_default]"

definition beyond_levels :: "sst_handle list \<Rightarrow> sst_handle list" where
  "beyond_levels all_sstables = filter (\<lambda>h. max_level_default < h_level h) all_sstables"

definition tree_on :: "path \<Rightarrow> lsm_config \<Rightarrow> nat \<Rightarrow> nat \<Rightarrow> sst_handle list list \<Rightarrow> world \<Rightarrow> lsm_tree" where
  "tree_on p config sequence_number next_run_number levels w = \<lparr>
     lt_path = p, lt_active_dir = p @ [''active''], lt_snapshots_dir = p @ [''snapshots''],
     lt_config = config, lt_memtable = mt_new sequence_number, lt_immutables = [], lt_sequence = sequence_number,
     lt_store = \<lparr>st_world = w, st_levels = levels, st_next_run = next_run_number, st_generation = 0\<rparr>,
     lt_max_level = max_level_default, lt_credits = 0, lt_should_run = False, lt_shutdown = False, lt_waiting = False\<rparr>"

definition finish_open :: "path \<Rightarrow> lsm_config \<Rightarrow> nat \<Rightarrow> nat \<Rightarrow> sst_handle list \<Rightarrow> (world, lsm_tree) io" where
  "finish_open p config sequence_number max_run_number all_sstables w =
     (let w' = drop_handles (beyond_levels all_sstables) w in
      (Inr (tree_on p config sequence_number ((max_run_number + 1) mod 2 ^ 64) (organize_levels all_sstables) w'), w'))"

text \<open>The run number in the name of a keyops file.\<close>

definition keyops_run :: "string \<Rightarrow> nat option" where
  "keyops_run name =
     (if file_extension name = Some ''keyops''
      then (case from_str_radix (2 ^ 64) 10 (file_stem name) of Inr n \<Rightarrow> Some n | Inl _ \<Rightarrow> None)
      else None)"

text \<open>\<open>read_dir\<close> gives files and directories alike.\<close>

definition dir_entries :: "path \<Rightarrow> disk \<Rightarrow> string list res" where
  "dir_entries p d = res_bind (fs_read_dir_files p d) (\<lambda>files. res_bind (fs_read_dir_dirs p d) (\<lambda>dirs. Inr (files @ dirs)))"

text \<open>Runs that do not open are passed over; a panic ends the loop.\<close>

fun load_runs :: "codecs \<Rightarrow> path \<Rightarrow> nat list \<Rightarrow> sst_handle list \<Rightarrow> (world, sst_handle list) io" where
  "load_runs x active_dir [] all_sstables = io_return all_sstables"
| "load_runs x active_dir (n # ns) all_sstables = (\<lambda>w.
     case sst_open x active_dir n w of
       (Inl (Panic m), w') \<Rightarrow> (Inl (Panic m), drop_handles all_sstables w')
     | (Inl _, w') \<Rightarrow> load_runs x active_dir ns all_sstables w'
     | (Inr handle, w') \<Rightarrow> load_runs x active_dir ns (all_sstables @ [handle]) w')"

definition tree_open :: "codecs \<Rightarrow> lock_env \<Rightarrow> path \<Rightarrow> lsm_config \<Rightarrow> (session_state, session_lock \<times> lsm_tree) io" where
  "tree_open x e p config =
     io_bind (in_world (on_disk (fs_create_dir_all p))) (\<lambda>_.
     io_bind (acquire_session e p) (\<lambda>session_lock.
     holding_lock session_lock (in_world (
       let active_dir = p @ [''active'']; snapshots_dir = p @ [''snapshots''] in
       io_bind (on_disk (fs_create_dir_all active_dir)) (\<lambda>_.
       io_bind (on_disk (fs_create_dir_all snapshots_dir)) (\<lambda>_.
       io_bind (on_disk (fsync_directory p)) (\<lambda>_.
       io_bind (on_disk (fsync_directory active_dir)) (\<lambda>_.
       io_bind (on_disk (fsync_directory snapshots_dir)) (\<lambda>_.
       io_bind (io_get (\<lambda>w. dir_entries active_dir (w_disk w))) (\<lambda>names.
       let run_nums = List.map_filter keyops_run names in
       io_bind (load_runs x active_dir run_nums []) (\<lambda>all_sstables.
       finish_open p config 0 (foldl max 0 run_nums) all_sstables)))))))))))"

text \<open>\<open>open_snapshot\<close>: empty the active directory, link the files of the snapshot, open the runs.\<close>

fun remove_files :: "path list \<Rightarrow> (disk, unit) io" where
  "remove_files [] = io_return ()"
| "remove_files (p # ps) = io_bind (fs_remove p) (\<lambda>_. remove_files ps)"

fun link_files :: "path \<Rightarrow> path \<Rightarrow> nat \<Rightarrow> string list \<Rightarrow> (disk, unit) io" where
  "link_files src_dir dst_dir n [] = io_return ()"
| "link_files src_dir dst_dir n (ext # exts) =
     io_bind (fs_hard_link (run_file src_dir n ext) (run_file dst_dir n ext)) (\<lambda>_. link_files src_dir dst_dir n exts)"

fun link_snapshot :: "path \<Rightarrow> path \<Rightarrow> snapshot_run list \<Rightarrow> (disk, unit) io" where
  "link_snapshot src_dir dst_dir [] = io_return ()"
| "link_snapshot src_dir dst_dir (run # runs) =
     io_bind (link_files src_dir dst_dir (sr_run_number run) components) (\<lambda>_. link_snapshot src_dir dst_dir runs)"

text \<open>The first run that does not open ends the loop, and the handles opened so far are dropped.\<close>

fun open_runs :: "codecs \<Rightarrow> path \<Rightarrow> snapshot_run list \<Rightarrow> sst_handle list \<Rightarrow> (world, sst_handle list) io" where
  "open_runs x active_dir [] all_sstables = io_return all_sstables"
| "open_runs x active_dir (run # runs) all_sstables = (\<lambda>w.
     case sst_open x active_dir (sr_run_number run) w of
       (Inl (Panic m), w') \<Rightarrow> (Inl (Panic m), drop_handles all_sstables w')
     | (Inl _, w') \<Rightarrow> (Inl (InvalidOperation ''Failed to load SSTable run from snapshot''), drop_handles all_sstables w')
     | (Inr handle, w') \<Rightarrow> open_runs x active_dir runs (all_sstables @ [handle\<lparr>h_level := sr_level run\<rparr>]) w')"

text \<open>What \<open>open_snapshot\<close> does once it has the lock.\<close>

definition restore_snapshot :: "codecs \<Rightarrow> path \<Rightarrow> string \<Rightarrow> snapshot_metadata \<Rightarrow> (world, lsm_tree) io" where
  "restore_snapshot x p snapshot_name metadata =
     (let active_dir = p @ [''active'']; snapshots_dir = p @ [''snapshots'']; snapshot_dir = snapshots_dir @ [snapshot_name] in
      io_bind (on_disk (fs_create_dir_all active_dir)) (\<lambda>_.
      io_bind (on_disk (fs_create_dir_all snapshots_dir)) (\<lambda>_.
      io_bind (on_disk (fsync_directory p)) (\<lambda>_.
      io_bind (on_disk (fsync_directory snapshots_dir)) (\<lambda>_.
      io_bind (io_get (\<lambda>w. fs_read_dir_files active_dir (w_disk w))) (\<lambda>names.
      io_bind (on_disk (remove_files (map (\<lambda>name. active_dir @ [name]) names))) (\<lambda>_.
      io_bind (on_disk (link_snapshot snapshot_dir active_dir (sm_runs metadata))) (\<lambda>_.
      io_bind (on_disk (fsync_directory active_dir)) (\<lambda>_.
      io_bind (open_runs x active_dir (sm_runs metadata) []) (\<lambda>all_sstables.
      finish_open p (sm_config metadata) (sm_sequence_number metadata)
        (foldl max 0 (map sr_run_number (sm_runs metadata))) all_sstables))))))))))"

definition open_snapshot ::
    "codecs \<Rightarrow> metadata_codec \<Rightarrow> lock_env \<Rightarrow> path \<Rightarrow> string \<Rightarrow> (session_state, session_lock \<times> lsm_tree) io" where
  "open_snapshot x mc e p snapshot_name =
     io_bind (io_get (\<lambda>s. ps_load x mc p snapshot_name (w_disk (se_world s)))) (\<lambda>snapshot.
     io_bind (acquire_session e p) (\<lambda>session_lock.
     holding_lock session_lock (in_world (restore_snapshot x p snapshot_name (ps_metadata snapshot)))))"

end
