(* ===== verification/Snapshot_Correct.thy ===== *)
theory Snapshot_Correct
  imports Snapshot LsmTree_Correct
begin

text \<open>
  The files of a saved snapshot: linking runs between directories, writing the metadata, and
  reading both back.
\<close>

section \<open>Hard links\<close>

fun link_pairs :: "(path \<times> path) list \<Rightarrow> (disk, unit) io" where
  "link_pairs [] = io_return ()"
| "link_pairs ((s, t) # ps) = io_bind (fs_hard_link s t) (\<lambda>_. link_pairs ps)"

lemma link_pairs_append: "link_pairs (ps @ qs) = io_bind (link_pairs ps) (\<lambda>_. link_pairs qs)"
  by (induction ps rule: link_pairs.induct)
    (auto simp: fun_eq_iff io_bind_def split: prod.split sum.split)

definition links_ready :: "disk \<Rightarrow> (path \<times> path) list \<Rightarrow> bool" where
  "links_ready d ps \<longleftrightarrow> disk_ok d \<and> distinct (map snd ps)
     \<and> (\<forall>(s, t) \<in> set ps. file_contents d s \<noteq> None \<and> \<not> path_exists d t \<and> butlast t \<in> set (d_dirs d))"

definition linked_view :: "(path \<times> path) list \<Rightarrow> (path \<rightharpoonup> byte list) \<Rightarrow> path \<rightharpoonup> byte list" where
  "linked_view ps v p = (case map_of (map (\<lambda>(s, t). (t, s)) ps) p of Some s \<Rightarrow> v s | None \<Rightarrow> v p)"

lemma linked_view_Cons:
  assumes "\<forall>(s', t') \<in> set ps. s' \<noteq> t" and "t \<notin> snd ` set ps"
  shows "linked_view ((s, t) # ps) v = linked_view ps (v(t := v s))"
proof
  fix p
  have "map_of (map (\<lambda>(s, t). (t, s)) ps) t = None"
    using assms(2) by (force simp: map_of_eq_None_iff)
  then show "linked_view ((s, t) # ps) v p = linked_view ps (v(t := v s)) p"
    using assms(1) by (auto simp: linked_view_def split: option.split dest!: map_of_SomeD)
qed

lemma link_pairs_ok:
  assumes "links_ready d ps"
  obtains d' where "link_pairs ps d = (Inr (), d')" and "disk_ok d'" and "d_dirs d' = d_dirs d"
    and "file_contents d' = linked_view ps (file_contents d)"
proof -
  have "\<exists>d'. link_pairs ps d = (Inr (), d') \<and> disk_ok d' \<and> d_dirs d' = d_dirs d
      \<and> file_contents d' = linked_view ps (file_contents d)"
    using assms
  proof (induction ps arbitrary: d rule: link_pairs.induct)
    case 1
    then show ?case by (simp add: links_ready_def linked_view_def fun_eq_iff)
  next
    case (2 s t ps)
    let ?d = "snd (fs_hard_link s t d)"
    have r: "file_contents d s \<noteq> None" "\<not> path_exists d t" "butlast t \<in> set (d_dirs d)"
      using "2.prems" by (auto simp: links_ready_def)
    then have link: "fs_hard_link s t d = (Inr (), ?d)"
      by (auto simp: fs_hard_link_def file_contents_def split: option.split)
    have view: "file_contents ?d = (file_contents d)(t := file_contents d s)"
      by (rule contents_hard_link [OF link])
    have dirs: "d_dirs ?d = d_dirs d" by (simp add: fs_hard_link_def split: option.split)
    have "links_ready ?d ps"
      using "2.prems" disk_ok_hard_link [OF _ link] view dirs
      by (force simp: links_ready_def path_exists_contents)
    with "2.IH" [of ?d] obtain d' where
      "link_pairs ps ?d = (Inr (), d') \<and> disk_ok d' \<and> d_dirs d' = d_dirs d
        \<and> file_contents d' = linked_view ps ((file_contents d)(t := file_contents d s))"
      using dirs view by metis
    moreover have "\<forall>(s', t') \<in> set ps. s' \<noteq> t" "t \<notin> snd ` set ps"
      using "2.prems" r(2) by (auto simp: links_ready_def path_exists_contents)
    ultimately show ?case using link by (simp add: result_simps linked_view_Cons)
  qed
  then show thesis using that by blast
qed

text \<open>The links of the runs with the given numbers from one directory to another.\<close>

definition run_links :: "path \<Rightarrow> path \<Rightarrow> nat list \<Rightarrow> (path \<times> path) list" where
  "run_links src dst ns = concat (map (\<lambda>n. map (\<lambda>c. (run_file src n c, run_file dst n c)) components) ns)"

lemma link_files_pairs:
  "link_files src dst n exts = link_pairs (map (\<lambda>c. (run_file src n c, run_file dst n c)) exts)"
  by (induction exts) simp_all

lemma link_snapshot_pairs:
  "link_snapshot src dst runs = link_pairs (run_links src dst (map sr_run_number runs))"
  by (induction runs) (simp_all add: run_links_def link_files_pairs link_pairs_append)

lemma link_components_pairs:
  "link_components (run_paths_new src n) dst n components =
     link_pairs (map (\<lambda>c. (run_file src n c, run_file dst n c)) components)"
  by (simp add: components_def)

lemma set_run_links: "set (run_links src dst ns) = {(run_file src n c, run_file dst n c) | n c. n \<in> set ns \<and> c \<in> set components}"
  by (auto simp: run_links_def)

lemma run_file_dir_inject:
  "run_file dir n a = run_file dir' m b \<Longrightarrow> a \<in> set components \<Longrightarrow> b \<in> set components \<Longrightarrow> dir = dir' \<and> n = m \<and> a = b"
  using run_file_inject [of dir n a m b] components_no_dot by (auto simp: run_file_def)

lemma distinct_run_links: "distinct ns \<Longrightarrow> distinct (map snd (run_links src dst ns))"
proof (induction ns)
  case (Cons n ns)
  have "distinct components" by (simp add: components_def)
  then have "distinct (map snd (map (\<lambda>c. (run_file src n c, run_file dst n c)) components))"
    by (simp add: distinct_map inj_on_def comp_def)
  moreover have "set (map snd (map (\<lambda>c. (run_file src n c, run_file dst n c)) components)) \<inter> set (map snd (run_links src dst ns)) = {}"
    using Cons.prems by (auto simp: set_run_links dest: run_file_dir_inject)
  moreover have "run_links src dst (n # ns) = map (\<lambda>c. (run_file src n c, run_file dst n c)) components @ run_links src dst ns"
    by (simp add: run_links_def)
  ultimately show ?case using Cons by (simp del: map_map)
qed (simp add: run_links_def)

lemma linked_view_run:
  assumes "distinct ns" and "n \<in> set ns" and "c \<in> set components"
  shows "linked_view (run_links src dst ns) v (run_file dst n c) = v (run_file src n c)"
proof -
  have "map snd (run_links src dst ns) = map fst (map (\<lambda>(s, t). (t, s)) (run_links src dst ns))" by auto
  then have "distinct (map fst (map (\<lambda>(s, t). (t, s)) (run_links src dst ns)))"
    using distinct_run_links [OF assms(1)] by metis
  moreover have "(run_file dst n c, run_file src n c) \<in> set (map (\<lambda>(s, t). (t, s)) (run_links src dst ns))"
    using assms(2,3) by (force simp: set_run_links)
  ultimately show ?thesis by (simp add: linked_view_def)
qed

lemma linked_view_other:
  assumes "\<forall>n \<in> set ns. \<forall>c \<in> set components. p \<noteq> run_file dst n c"
  shows "linked_view (run_links src dst ns) v p = v p"
proof -
  have "map_of (map (\<lambda>(s, t). (t, s)) (run_links src dst ns)) p = None"
    using assms by (auto simp: map_of_eq_None_iff set_run_links) blast
  then show ?thesis by (simp add: linked_view_def)
qed

lemma link_pairs_frame:
  "link_pairs ps d = (r, d') \<Longrightarrow> disk_ok d \<Longrightarrow> disk_ok d' \<and> d_dirs d' = d_dirs d"
proof (induction ps arbitrary: d rule: link_pairs.induct)
  case (2 s t ps)
  obtain r1 d1 where h: "fs_hard_link s t d = (r1, d1)" by (cases "fs_hard_link s t d")
  have "disk_ok d1" using disk_ok_hard_link [OF "2.prems"(2) h] .
  moreover have "d_dirs d1 = d_dirs d" using h by (auto simp: fs_hard_link_def split: option.splits if_splits)
  ultimately show ?case using "2.prems"(1) "2.IH" [of d1] h
    by (cases r1) (auto simp: result_simps)
qed simp

section \<open>Directories\<close>

definition dir_there :: "disk \<Rightarrow> path \<Rightarrow> bool" where
  "dir_there d p \<longleftrightarrow> set (path_prefixes p) \<subseteq> set (d_dirs d)"

lemma create_dir_there:
  assumes "disk_ok d" and "dir_there d p"
  shows "fs_create_dir_all p d = (Inr (), d)"
proof -
  have none: "filter (\<lambda>q. q \<notin> set (d_dirs d)) (path_prefixes p) = []"
    using assms(2) by (auto simp: dir_there_def filter_empty_conv)
  have "map_of (d_names d) q = None" if "q \<in> set (path_prefixes p)" for q
    using assms that by (auto simp: dir_there_def disk_ok_def)
  then show ?thesis using none by (simp add: fs_create_dir_all_def)
qed

lemma path_prefixes_self [simp]: "p \<in> set (path_prefixes p)"
proof -
  have "p = take (length p) p" "length p \<in> set [0..<Suc (length p)]" by simp_all
  then show ?thesis unfolding path_prefixes_def by (metis image_eqI list.set_map)
qed

lemma dir_there_self: "dir_there d p \<Longrightarrow> p \<in> set (d_dirs d)"
  by (auto simp: dir_there_def)

lemma create_dir_new:
  assumes "disk_ok d" and "\<forall>q \<in> set (path_prefixes p). map_of (d_names d) q = None"
  obtains d' where "fs_create_dir_all p d = (Inr (), d')" and "disk_ok d'" and "dir_there d' p"
    and "d_names d' = d_names d" and "d_data d' = d_data d"
    and "set (d_dirs d') = set (path_prefixes p) \<union> set (d_dirs d)"
proof -
  let ?d = "d\<lparr>d_dirs := filter (\<lambda>q. q \<notin> set (d_dirs d)) (path_prefixes p) @ d_dirs d\<rparr>"
  have "fs_create_dir_all p d = (Inr (), ?d)" using assms(2) by (auto simp: fs_create_dir_all_def)
  moreover have dirs: "set (d_dirs ?d) = set (path_prefixes p) \<union> set (d_dirs d)" by auto
  moreover have "disk_ok ?d" unfolding disk_ok_def dirs using assms by (auto simp: disk_ok_def)
  ultimately show thesis by (intro that [of ?d]) (auto simp: dir_there_def)
qed

section \<open>Linking the runs of a tree\<close>

lemma clone_then_drop:
  "0 < w_refs w (h_arc h) \<Longrightarrow> h_arc g = h_arc h \<Longrightarrow> drop_handle g (clone_handle h w) = w"
  by (cases w) (simp add: drop_handle_def clone_handle_def Let_def fun_upd_idem)

lemma link_runs_ok:
  assumes "link_pairs (run_links src dst (map h_run_number hs)) (w_disk w) = (Inr (), d')"
    and "disk_ok (w_disk w)" and "dir_there (w_disk w) dst"
    and "\<forall>h \<in> set hs. h_paths h = run_paths_new src (h_run_number h) \<and> 0 < w_refs w (h_arc h)"
  shows "link_runs dst hs w = (Inr (map snapshot_run_of hs), w\<lparr>w_disk := d'\<rparr>)"
  using assms
proof (induction hs arbitrary: w)
  case Nil
  then show ?case by (simp add: run_links_def)
next
  case (Cons h hs)
  let ?n = "h_run_number h"
  let ?A = "map (\<lambda>c. (run_file src ?n c, run_file dst ?n c)) components"
  have "run_links src dst (map h_run_number (h # hs)) = ?A @ run_links src dst (map h_run_number hs)"
    by (simp add: run_links_def)
  then obtain d1 where d1: "link_pairs ?A (w_disk w) = (Inr (), d1)"
      "link_pairs (run_links src dst (map h_run_number hs)) d1 = (Inr (), d')"
    using Cons.prems(1) by (auto simp: link_pairs_append io_bind_eq_Inr)
  have ok: "disk_ok d1" "d_dirs d1 = d_dirs (w_disk w)" using link_pairs_frame [OF d1(1) Cons.prems(2)] by simp_all
  then have there: "dir_there d1 dst" using Cons.prems(3) by (simp add: dir_there_def)
  let ?w = "w\<lparr>w_disk := d1\<rparr>"
  have "fs_sync_path dst d1 = (Inr (), d1)"
    using dir_there_self [OF there] by (simp add: fs_sync_path_def path_exists_def)
  then have "hard_link_to h dst ?n w = (Inr (h\<lparr>h_paths := run_paths_new dst ?n\<rparr>), clone_handle h ?w)"
    using create_dir_there [OF Cons.prems(2,3)] d1(1) Cons.prems(4)
    by (simp add: hard_link_to_def result_simps on_disk_def link_components_pairs io_bind_def)
  moreover have "drop_handle (h\<lparr>h_paths := run_paths_new dst ?n\<rparr>) (clone_handle h ?w) = ?w"
    using Cons.prems(4) by (intro clone_then_drop) simp_all
  moreover have "link_runs dst hs ?w = (Inr (map snapshot_run_of hs), ?w\<lparr>w_disk := d'\<rparr>)"
    using Cons.IH [of ?w] d1(2) ok there Cons.prems(4) by simp
  ultimately show ?case by (simp add: result_simps)
qed

text \<open>Clones that are dropped again leave the counters as they were.\<close>

definition handle_count :: "nat \<Rightarrow> sst_handle list \<Rightarrow> nat" where
  "handle_count a hs = length (filter (\<lambda>h. h_arc h = a) hs)"

lemma handle_count_simps [simp]:
  "handle_count a [] = 0"
  "handle_count a (h # hs) = (if h_arc h = a then Suc (handle_count a hs) else handle_count a hs)"
  by (simp_all add: handle_count_def)

lemma clone_handles_refs: "clone_handles hs w = w\<lparr>w_refs := \<lambda>a. w_refs w a + handle_count a hs\<rparr>"
proof (induction hs arbitrary: w)
  case (Cons h hs)
  then show ?case by (simp add: clone_handles_def clone_handle_def fun_eq_iff)
qed (simp add: clone_handles_def)

lemma drop_handles_refs:
  assumes "\<forall>h \<in> set hs. handle_count (h_arc h) hs < w_refs w (h_arc h)"
  shows "drop_handles hs w = w\<lparr>w_refs := \<lambda>a. w_refs w a - handle_count a hs\<rparr>"
  using assms
proof (induction hs arbitrary: w)
  case (Cons h hs)
  let ?w = "w\<lparr>w_refs := (w_refs w)(h_arc h := w_refs w (h_arc h) - 1)\<rparr>"
  have "w_refs w (h_arc h) \<noteq> 1" using Cons.prems by auto
  then have "drop_handle h w = ?w" by (simp add: drop_handle_def Let_def)
  moreover have "\<forall>g \<in> set hs. handle_count (h_arc g) hs < w_refs ?w (h_arc g)"
    using Cons.prems by fastforce
  ultimately show ?case using Cons.IH [of ?w] by (simp add: drop_handles_def fun_eq_iff)
qed (simp add: drop_handles_def)

lemma drop_clones:
  assumes "\<forall>h \<in> set hs. 0 < w_refs w (h_arc h)"
  shows "drop_handles hs ((clone_handles hs w)\<lparr>w_disk := d\<rparr>) = w\<lparr>w_disk := d\<rparr>"
  using assms by (subst drop_handles_refs) (auto simp: clone_handles_refs)

section \<open>Writing the metadata\<close>

lemma write_atomically_ok:
  assumes ok: "disk_ok d" and temp: "\<not> path_exists d (temp_path_for p)" and p: "p \<noteq> []" "p \<notin> set (d_dirs d)"
    and dir: "butlast p \<in> set (d_dirs d)"
  obtains d' where "write_atomically p bytes d = (Inr (), d')" and "disk_ok d'" and "d_dirs d' = d_dirs d"
    and "file_contents d' = (file_contents d)(p \<mapsto> bytes)"
proof -
  have free: "temp_free d (temp_path_for p)" and none: "file_contents d (temp_path_for p) = None"
    using temp by (auto simp: temp_free_def path_exists_contents file_contents_def)
  obtain w1 d1 where n: "aw_new disk_calls p d = (Inr w1, d1)" "aw_tracks d1 w1 []" "same_but (temp_path_for p) d d1"
      "aw_temp_path w1 = temp_path_for p" "aw_final_path w1 = p"
    by (rule aw_new_ok [OF ok free dir])
  obtain w2 d2 where m: "aw_write_all disk_calls w1 bytes d1 = (Inr w2, d2)" "aw_tracks d2 w2 ([] @ bytes)"
      "same_but (temp_path_for p) d1 d2" "aw_temp_path w2 = temp_path_for p" "aw_final_path w2 = p"
    using aw_write_all_ok [OF n(2), of bytes] n(4,5) by auto
  note same = same_but_trans [OF n(3) m(3)]
  have dirs: "p \<notin> set (d_dirs d2)" "butlast p \<in> set (d_dirs d2)" using p(2) dir same by (auto simp: same_but_def)
  obtain d3 where c: "aw_commit disk_calls w2 d2 = (Inr (), d3)" "disk_ok d3" "d_dirs d3 = d_dirs d2"
      "file_contents d3 = (file_contents d2)(temp_path_for p := None, p \<mapsto> [] @ bytes)"
    by (rule aw_commit_ok [OF m(2,5,4) p(1) dirs])
  have "write_atomically p bytes d = (Inr (), d3)"
    using n(1) m(1) c(1) by (simp add: write_atomically_def result_simps)
  moreover have "file_contents d3 = (file_contents d)(p \<mapsto> bytes)"
    using same none by (auto simp: c(4) same_but_def fun_eq_iff)
  ultimately show thesis using that c(2,3) same by (simp add: same_but_def)
qed

lemma fs_write_ok:
  assumes "disk_ok d" and "\<not> path_exists d p" and "butlast p \<in> set (d_dirs d)"
  obtains d' where "fs_write p bytes d = (Inr (), d')" and "disk_ok d'" and "d_dirs d' = d_dirs d"
    and "file_contents d' = (file_contents d)(p \<mapsto> bytes)"
proof -
  obtain i d1 where c: "fs_create_new p d = (Inr i, d1)"
    using assms(2,3) by (simp add: fs_create_new_def fs_fresh_def)
  have d1: "disk_ok d1" "sole_name d1 i p" "file_contents d1 = (file_contents d)(p \<mapsto> [])" "d_dirs d1 = d_dirs d"
    using disk_ok_create_new [OF assms(1) c] sole_name_create_new [OF assms(1) c] contents_create_new [OF assms(1) c] c
    by (auto simp: fs_create_new_Inr)
  let ?d = "snd (fs_append i bytes d1)"
  have "fs_write p bytes d = (Inr (), ?d)"
    using c fs_create_fresh [OF assms(2)] by (simp add: fs_write_def result_simps fs_append_def)
  moreover have "file_contents ?d = (file_contents d)(p \<mapsto> bytes)"
    using contents_append [OF d1(2)] d1(3) by simp
  ultimately show thesis using d1 by (intro that [of ?d]) (simp_all add: fs_append_def disk_ok_def)
qed

text \<open>The names in a snapshot directory.\<close>

lemma dotted_name_eq:
  "fmt_05 n @ CHR ''.'' # c = a @ CHR ''.'' # b \<Longrightarrow> CHR ''.'' \<notin> set a \<Longrightarrow> c = b"
proof -
  have cut: "dropWhile (\<lambda>x. x \<noteq> CHR ''.'') (xs @ CHR ''.'' # ys) = CHR ''.'' # ys" if "CHR ''.'' \<notin> set xs" for xs ys
    using that by (induction xs) auto
  assume "fmt_05 n @ CHR ''.'' # c = a @ CHR ''.'' # b" and "CHR ''.'' \<notin> set a"
  then show "c = b" using cut [OF fmt_05_no_dot [of n], of c] cut [of a b] by simp
qed

lemma run_file_not_metadata:
  assumes "c \<in> set components"
  shows "run_file dir n c \<noteq> dir @ [''metadata'']" and "run_file dir n c \<noteq> dir @ [''metadata.checksum'']"
    and "run_file dir n c \<noteq> dir @ [''metadata.tmp'']"
proof -
  show "run_file dir n c \<noteq> dir @ [''metadata'']"
  proof
    assume "run_file dir n c = dir @ [''metadata'']"
    moreover have "CHR ''.'' \<in> set (last (run_file dir n c))" by (simp add: run_file_def)
    ultimately show False by simp
  qed
  have "fmt_05 n @ CHR ''.'' # c \<noteq> ''metadata'' @ CHR ''.'' # ''checksum''"
    "fmt_05 n @ CHR ''.'' # c \<noteq> ''metadata'' @ CHR ''.'' # ''tmp''"
    using dotted_name_eq [of n c "''metadata''" "''checksum''"] dotted_name_eq [of n c "''metadata''" "''tmp''"] assms
    unfolding components_def by auto
  then show "run_file dir n c \<noteq> dir @ [''metadata.checksum'']" "run_file dir n c \<noteq> dir @ [''metadata.tmp'']"
    by (simp_all add: run_file_def)
qed

section \<open>Creating and loading\<close>

text \<open>The metadata files of a snapshot, and a directory with nothing in it.\<close>

definition metadata_at :: "codecs \<Rightarrow> path \<Rightarrow> byte list \<Rightarrow> (path \<rightharpoonup> byte list) \<Rightarrow> bool" where
  "metadata_at x dir bytes v \<longleftrightarrow> v (dir @ [''metadata'']) = Some bytes
     \<and> v (dir @ [''metadata.checksum'']) = Some (string_bytes (crc_to_hex (cd_crc x bytes)))"

definition dir_free :: "disk \<Rightarrow> path \<Rightarrow> bool" where
  "dir_free d dir \<longleftrightarrow> (\<forall>p. is_prefix dir p \<longrightarrow> \<not> path_exists d p)
     \<and> (\<forall>q \<in> set (path_prefixes dir). map_of (d_names d) q = None)"

lemma dir_free_below: "dir_free d dir \<Longrightarrow> \<not> path_exists d (dir @ p)"
  by (simp add: dir_free_def is_prefix_def)

lemma ps_load_ok:
  assumes "path_exists d (snapshot_path p name)" and "metadata_at x (snapshot_path p name) bytes (file_contents d)"
    and "mc_from_cbor mc bytes = Inr md"
  shows "ps_load x mc p name d = Inr \<lparr>ps_name = name, ps_path = snapshot_path p name, ps_metadata = md\<rparr>"
proof -
  have "fs_read_to_string (snapshot_path p name @ [''metadata.checksum'']) d = Inr (crc_to_hex (cd_crc x bytes))"
    using assms(2) string_bytes_ascii [OF is_ascii_hex] bytes_string_bytes
    by (simp add: metadata_at_def fs_read_to_string_def fs_read_def)
  then show ?thesis
    using assms by (simp add: ps_load_def metadata_at_def fs_read_def trim_hex crc_from_hex_to_hex crc_hash_def Let_def)
qed

lemma is_prefix_append [simp]: "is_prefix p (p @ q)"
  by (simp add: is_prefix_def)

lemma path_prefixes_prefix: "q \<in> set (path_prefixes p) \<Longrightarrow> length q \<le> length p \<and> is_prefix q p"
  by (auto simp: path_prefixes_def is_prefix_def)

lemma ps_create_ok:
  assumes ok: "disk_ok (w_disk w)" and free: "dir_free (w_disk w) dir" and dir: "dir = snapshot_path lsm_path name"
    and runs: "\<forall>h \<in> set hs. h_paths h = run_paths_new src (h_run_number h) \<and> 0 < w_refs w (h_arc h)"
    and nums: "distinct (map h_run_number hs)"
    and files: "\<forall>h \<in> set hs. \<forall>c \<in> set components. file_contents (w_disk w) (run_file src (h_run_number h) c) \<noteq> None"
    and md: "md = \<lparr>sm_version = 1, sm_label = label, sm_config = config, sm_runs = map snapshot_run_of hs,
        sm_sequence_number = seq\<rparr>" "mc_to_cbor mc md = Inr bytes"
  obtains d' where "ps_create x mc lsm_path name label hs seq config w =
      (Inr \<lparr>ps_name = name, ps_path = dir, ps_metadata = md\<rparr>, w\<lparr>w_disk := d'\<rparr>)"
    and "disk_ok d'" and "set (d_dirs d') = set (path_prefixes dir) \<union> set (d_dirs (w_disk w))"
    and "metadata_at x dir bytes (file_contents d')"
    and "\<forall>n \<in> set (map h_run_number hs). \<forall>c \<in> set components.
      file_contents d' (run_file dir n c) = file_contents (w_disk w) (run_file src n c)"
    and "\<forall>p. \<not> is_prefix dir p \<longrightarrow> file_contents d' p = file_contents (w_disk w) p"
proof -
  let ?d = "w_disk w" and ?ns = "map h_run_number hs"
  have ne: "\<not> path_exists ?d dir" using dir_free_below [OF free, of "[]"] by simp
  have files0: "\<forall>q \<in> set (path_prefixes dir). map_of (d_names ?d) q = None" using free by (simp add: dir_free_def)
  obtain d1 where d1: "fs_create_dir_all dir ?d = (Inr (), d1)" "disk_ok d1" "dir_there d1 dir" "d_names d1 = d_names ?d"
      "d_data d1 = d_data ?d" "set (d_dirs d1) = set (path_prefixes dir) \<union> set (d_dirs ?d)"
    by (rule create_dir_new [OF ok files0])
  have v1: "file_contents d1 = file_contents ?d" using d1(4,5) by (simp add: file_contents_def [abs_def])
  have below: "\<not> path_exists d1 (dir @ [q])" for q
  proof -
    have "dir @ [q] \<notin> set (path_prefixes dir)" using path_prefixes_prefix [of "dir @ [q]" dir] by auto
    then show ?thesis using dir_free_below [OF free, of "[q]"] d1(6) v1 by (auto simp: path_exists_contents)
  qed
  have "links_ready d1 (run_links src dir ?ns)"
    unfolding links_ready_def
  proof (intro conjI d1(2) distinct_run_links nums ballI)
    fix e
    assume "e \<in> set (run_links src dir ?ns)"
    then obtain h c where "e = (run_file src (h_run_number h) c, run_file dir (h_run_number h) c)" "h \<in> set hs" "c \<in> set components"
      by (auto simp: set_run_links)
    then show "case e of (s, t) \<Rightarrow> file_contents d1 s \<noteq> None \<and> \<not> path_exists d1 t \<and> butlast t \<in> set (d_dirs d1)"
      using files v1 below dir_there_self [OF d1(3)] by (simp add: run_file_def)
  qed
  then obtain d2 where d2: "link_pairs (run_links src dir ?ns) d1 = (Inr (), d2)" "disk_ok d2" "d_dirs d2 = d_dirs d1"
      "file_contents d2 = linked_view (run_links src dir ?ns) (file_contents ?d)"
    using link_pairs_ok v1 by metis
  have there: "dir \<in> set (d_dirs d2)" using dir_there_self [OF d1(3)] d2(3) by simp
  have other: "file_contents d2 p = file_contents ?d p" if "\<forall>n. \<forall>c \<in> set components. p \<noteq> run_file dir n c" for p
    unfolding d2(4) using that by (intro linked_view_other) simp
  let ?m = "dir @ [''metadata'']" and ?s = "dir @ [''metadata.checksum'']"
  have temp: "temp_path_for ?m = dir @ [''metadata.tmp'']" by (simp add: temp_path_eq)
  have new: "\<not> path_exists d2 (dir @ [q])" if "q \<in> {''metadata'', ''metadata.checksum'', ''metadata.tmp''}" for q
  proof -
    have "file_contents d2 (dir @ [q]) = file_contents ?d (dir @ [q])"
      using that run_file_not_metadata [of _ dir] by (intro other) (metis insertE emptyE)
    then show ?thesis using below [of q] d2(3) v1 by (simp add: path_exists_contents)
  qed
  obtain d3 where d3: "write_atomically ?m bytes d2 = (Inr (), d3)" "disk_ok d3" "d_dirs d3 = d_dirs d2"
      "file_contents d3 = (file_contents d2)(?m \<mapsto> bytes)"
    using write_atomically_ok [OF d2(2), of ?m bytes] new there temp by (auto simp: path_exists_def)
  have "\<not> path_exists d3 ?s" using new [of "''metadata.checksum''"] d3(3,4) by (simp add: path_exists_contents)
  then obtain d4 where d4: "fs_write ?s (string_bytes (crc_to_hex (crc_hash (cd_crc x) bytes))) d3 = (Inr (), d4)"
      "disk_ok d4" "d_dirs d4 = d_dirs d3"
      "file_contents d4 = (file_contents d3)(?s \<mapsto> string_bytes (crc_to_hex (crc_hash (cd_crc x) bytes)))"
    using fs_write_ok [OF d3(2), of ?s] there d3(3) by (metis butlast_snoc)
  have sync: "fsync_directory dir d4 = (Inr (), d4)"
    using there d3(3) d4(3) by (simp add: fsync_directory_def fs_sync_path_def path_exists_def)
  let ?w = "w\<lparr>w_disk := d1\<rparr>"
  have "link_runs dir hs ?w = (Inr (map snapshot_run_of hs), ?w\<lparr>w_disk := d2\<rparr>)"
    using d2(1) d1(2,3) runs by (intro link_runs_ok [where src = src]) simp_all
  then have run: "ps_create x mc lsm_path name label hs seq config w =
      (Inr \<lparr>ps_name = name, ps_path = dir, ps_metadata = md\<rparr>, w\<lparr>w_disk := d4\<rparr>)"
    using d1(1) d3(1) d4(1) sync md ne
    by (simp add: ps_create_def Let_def result_simps on_disk_def io_bind_def flip: dir)
  have "metadata_at x dir bytes (file_contents d4)" by (simp add: metadata_at_def d4(4) d3(4) crc_hash_def)
  moreover have "file_contents d4 (run_file dir n c) = file_contents ?d (run_file src n c)"
    if "n \<in> set ?ns" "c \<in> set components" for n c
    using linked_view_run [OF nums that] run_file_not_metadata [OF that(2), of dir n] by (simp add: d4(4) d3(4) d2(4))
  moreover have "file_contents d4 p = file_contents ?d p" if "\<not> is_prefix dir p" for p
  proof -
    have "p \<noteq> ?m" "p \<noteq> ?s" "\<forall>n. \<forall>c \<in> set components. p \<noteq> run_file dir n c"
      using that by (auto simp: run_file_def)
    then show ?thesis using other by (simp add: d4(4) d3(4))
  qed
  moreover have "set (d_dirs d4) = set (path_prefixes dir) \<union> set (d_dirs ?d)" using d4(3) d3(3) d2(3) d1(6) by simp
  ultimately show thesis using run d4(2) by (intro that [of d4]) blast+
qed

end
