(* ===== verification/Snapshot_Restore.thy ===== *)
theory Snapshot_Restore
  imports Snapshot_Correct LockProperties
begin

text \<open>
  From a saved snapshot back to a tree. \<open>snapshot_stored\<close> says that the directory of a snapshot
  holds a set of runs that stand for a map; saving a tree establishes it, everything that only
  touches the active directory keeps it, and opening the snapshot gives a tree with that map.
\<close>

section \<open>What the runs of a snapshot stand for\<close>

text \<open>The runs of one level by number, newest on top; the levels from the first down.\<close>

definition numbers_map :: "(nat \<Rightarrow> 'k \<rightharpoonup> 'v) \<Rightarrow> nat list \<Rightarrow> 'k \<rightharpoonup> 'v" where
  "numbers_map f ns = overlay (map f (rev (sort ns)))"

definition runs_map :: "(nat \<Rightarrow> 'k \<rightharpoonup> 'v) \<Rightarrow> snapshot_run list \<Rightarrow> 'k \<rightharpoonup> 'v" where
  "runs_map f runs = overlay (map (\<lambda>i. numbers_map f (map sr_run_number (filter (\<lambda>r. sr_level r = i) runs)))
     [0..<Suc max_level_default])"

definition snapshot_stored ::
    "codecs \<Rightarrow> metadata_codec \<Rightarrow> path \<Rightarrow> string \<Rightarrow> disk \<Rightarrow> (key \<rightharpoonup> lsm_value) \<Rightarrow> bool" where
  "snapshot_stored x mc p name d v \<longleftrightarrow> (\<exists>md bytes f.
     path_exists d (snapshot_path p name)
     \<and> metadata_at x (snapshot_path p name) bytes (file_contents d) \<and> mc_from_cbor mc bytes = Inr md
     \<and> distinct (map sr_run_number (sm_runs md))
     \<and> (\<forall>r \<in> set (sm_runs md). sr_level r \<le> max_level_default \<and> Suc (sr_run_number r) < 2 ^ 64
          \<and> stored_run x (file_contents d) (run_paths_new (snapshot_path p name) (sr_run_number r)) (f (sr_run_number r)))
     \<and> length (filter (\<lambda>r. sr_level r = max_level_default) (sm_runs md)) \<le> 1
     \<and> v = live (runs_map (\<lambda>n. bt_get (f n)) (sm_runs md)))"

lemma path_exists_outside:
  "outside dir d d' \<Longrightarrow> butlast p \<noteq> dir \<Longrightarrow> path_exists d' p = path_exists d p"
  by (simp add: outside_def path_exists_contents)

lemma snapshot_path_last: "butlast (snapshot_path p name) = p @ [''snapshots'']"
  by (simp add: snapshot_path_def butlast_append)

lemma snapshot_stored_outside:
  assumes "snapshot_stored x mc p name d v" and o: "outside dir d d'"
    and "dir \<noteq> snapshot_path p name" and "dir \<noteq> p @ [''snapshots'']"
  shows "snapshot_stored x mc p name d' v"
proof -
  let ?s = "snapshot_path p name"
  have ex: "path_exists d' ?s = path_exists d ?s"
    using o assms(4) by (intro path_exists_outside) (auto simp: snapshot_path_last)
  have same: "file_contents d' q = file_contents d q" if "butlast q = ?s" for q
    using o assms(3) that by (simp add: outside_def)
  have md: "metadata_at x ?s bytes (file_contents d') = metadata_at x ?s bytes (file_contents d)" for bytes
    by (simp add: metadata_at_def same)
  have runs: "stored_run x (file_contents d') (run_paths_new ?s n) es" if "stored_run x (file_contents d) (run_paths_new ?s n) es" for n es
    using that by (rule stored_run_view) (auto simp: run_files_new intro: same)
  from assms(1) show ?thesis unfolding snapshot_stored_def ex md by (metis runs)
qed

lemma level_map_numbers:
  assumes "\<forall>h \<in> set hs. run_map d h = f (h_run_number h)"
  shows "level_map d hs = numbers_map f (map h_run_number hs)"
proof -
  have "sort (map h_run_number hs) = map h_run_number (sort_key h_run_number hs)"
    by (rule properties_for_sort) simp_all
  then show ?thesis
    using assms by (auto simp: level_map_def newest_first_def numbers_map_def rev_map intro!: arg_cong [where f = overlay])
qed

lemma numbers_map_mset: "mset ms = mset ns \<Longrightarrow> numbers_map f ms = numbers_map f ns"
  unfolding numbers_map_def by (metis sorted_list_of_multiset_mset)

section \<open>Trees whose levels are labelled\<close>

text \<open>
  Every run is in the level its handle names, no two runs have the same number, and numbers do
  not reach the end of their range.
\<close>

definition tree_tidy :: "lsm_tree \<Rightarrow> bool" where
  "tree_tidy t \<longleftrightarrow>
     length (tree_levels t) = Suc max_level_default \<and> lt_max_level t = max_level_default
     \<and> (\<forall>i < Suc max_level_default. \<forall>h \<in> set (tree_levels t ! i). h_level h = i)
     \<and> distinct (map h_run_number (concat (tree_levels t)))
     \<and> lt_active_dir t = lt_path t @ [''active'']
     \<and> st_next_run (lt_store t) < 2 ^ 64"

lemma tree_tidy_flushed:
  assumes t: "tree_ok x t M" and tidy: "tree_tidy t" and f: "flushed x t t' M"
    and "Suc (st_next_run (lt_store t)) < 2 ^ 64"
  shows "tree_tidy t'"
proof -
  obtain l0 ls where l: "tree_levels t = l0 # ls" using tidy by (cases "tree_levels t") (auto simp: tree_tidy_def)
  obtain extra where e: "tree_levels t' = (l0 @ extra) # ls" "length extra \<le> 1"
      "\<forall>h \<in> set extra. st_next_run (lt_store t) \<le> h_run_number h \<and> h_level h = 0"
    using f l by (auto simp: flushed_def)
  have old: "h_run_number h < st_next_run (lt_store t)" if "h \<in> set (concat (tree_levels t))" for h
    using t that by (auto simp: tree_ok_def store_ok_def runs_ok_def tree_levels_def)
  have "distinct (map h_run_number extra)" using e(2) by (cases extra) auto
  moreover have "set (map h_run_number extra) \<inter> set (map h_run_number (concat (l0 # ls))) = {}"
    using e(3) old l by (fastforce dest: old)
  moreover have "distinct (map h_run_number (concat (l0 # ls)))" using tidy l by (simp add: tree_tidy_def)
  moreover have "distinct (a @ b @ c)" if "distinct b" "set b \<inter> set (a @ c) = {}" "distinct (a @ c)" for a b c :: "nat list"
    using that by auto
  ultimately have "distinct (map h_run_number (concat (tree_levels t')))"
    by (simp only: e(1) concat.simps map_append append_assoc)
  moreover have "\<forall>i < Suc max_level_default. \<forall>h \<in> set (tree_levels t' ! i). h_level h = i"
    using tidy l e(1,3) by (auto simp: tree_tidy_def nth_Cons split: nat.splits)
  ultimately show ?thesis
    using tidy f l e(1) assms(4) by (auto simp: tree_tidy_def flushed_def same_shape_def)
qed

lemma filter_labelled:
  assumes "\<forall>j < length ls. \<forall>h \<in> set (ls ! j). g h = k + j" and "i < length ls"
  shows "filter (\<lambda>h. g h = k + i) (concat ls) = ls ! i"
  using assms
proof (induction ls arbitrary: k i)
  case (Cons l ls)
  have l: "\<forall>h \<in> set l. g h = k" using Cons.prems(1) by fastforce
  have rest: "\<forall>j < length ls. \<forall>h \<in> set (ls ! j). g h = Suc k + j" using Cons.prems(1) by fastforce
  show ?case
  proof (cases i)
    case 0
    have "g h \<noteq> k" if "h \<in> set (concat ls)" for h
    proof -
      from that obtain l' where "l' \<in> set ls" "h \<in> set l'" by auto
      then obtain j where "j < length ls" "h \<in> set (ls ! j)" by (auto simp: in_set_conv_nth [of l'])
      then show ?thesis using rest by auto
    qed
    then have "filter (\<lambda>h. g h = k) (concat ls) = []" by (simp add: filter_empty_conv)
    then show ?thesis using 0 l by (simp add: filter_id_conv)
  next
    case (Suc j)
    have "filter (\<lambda>h. g h = k + i) l = []" using l Suc by (auto simp: filter_empty_conv)
    then show ?thesis using Suc Cons.IH [OF rest, of j] Cons.prems(2) by simp
  qed
qed simp

lemma labelled_runs:
  assumes "tree_tidy t" and "i < Suc max_level_default"
  shows "filter (\<lambda>h. h_level h = i) (concat (tree_levels t)) = tree_levels t ! i"
  using assms filter_labelled [of "tree_levels t" h_level 0 i] by (simp add: tree_tidy_def)

lemma levels_runs_map:
  assumes tidy: "tree_tidy t" and "\<forall>h \<in> set (concat (tree_levels t)). run_map d h = f (h_run_number h)"
  shows "levels_map d (tree_levels t) = runs_map f (map snapshot_run_of (concat (tree_levels t)))"
proof -
  let ?n = "Suc max_level_default"
  have len: "length (tree_levels t) = ?n" using tidy by (simp add: tree_tidy_def)
  have "level_map d (tree_levels t ! i) =
      numbers_map f (map sr_run_number (filter (\<lambda>r. sr_level r = i) (map snapshot_run_of (concat (tree_levels t)))))"
    if "i < ?n" for i
  proof -
    have "level_map d (tree_levels t ! i) = numbers_map f (map h_run_number (tree_levels t ! i))"
      using assms(2) len that by (intro level_map_numbers) auto
    then show ?thesis
      using labelled_runs [OF tidy that] by (simp add: filter_map comp_def snapshot_run_of_def)
  qed
  moreover have "tree_levels t = map (\<lambda>i. tree_levels t ! i) [0..<?n]" using len by (metis map_nth)
  ultimately have "map (level_map d) (tree_levels t) = map (\<lambda>i. numbers_map f
      (map sr_run_number (filter (\<lambda>r. sr_level r = i) (map snapshot_run_of (concat (tree_levels t)))))) [0..<?n]"
    using len by (intro nth_equalityI) (simp_all del: upt_Suc)
  then show ?thesis by (simp only: levels_map_def runs_map_def)
qed

section \<open>Saving\<close>

definition metadata_codec_ok :: "metadata_codec \<Rightarrow> bool" where
  "metadata_codec_ok mc \<longleftrightarrow> (\<forall>md. \<exists>bytes. mc_to_cbor mc md = Inr bytes \<and> mc_from_cbor mc bytes = Inr md)"

lemma active_not_snapshot:
  assumes "butlast q = p @ [''active'']"
  shows "\<not> is_prefix (snapshot_path p name) q" and "q \<notin> set (path_prefixes (snapshot_path p name))"
proof -
  have "q \<noteq> []" using assms by auto
  then have "q = butlast q @ [last q]" by simp
  then have "q = p @ [''active'', last q]" unfolding assms by simp
  then obtain z where q: "q = p @ [''active'', z]" by blast
  then show no: "\<not> is_prefix (snapshot_path p name) q" by (simp add: is_prefix_def snapshot_path_def)
  show "q \<notin> set (path_prefixes (snapshot_path p name))"
  proof
    assume "q \<in> set (path_prefixes (snapshot_path p name))"
    then have "is_prefix q (snapshot_path p name)" by (rule path_prefixes_prefix [THEN conjunct2])
    moreover have "length q = length (snapshot_path p name)" by (simp add: q snapshot_path_def)
    ultimately show False using no by (simp add: is_prefix_def)
  qed
qed

lemma dir_free_outside:
  assumes "dir_free d (snapshot_path p name)" and o: "outside (p @ [''active'']) d d'"
  shows "dir_free d' (snapshot_path p name)"
proof -
  have "path_exists d' q = path_exists d q" if "is_prefix (snapshot_path p name) q" for q
    using that active_not_snapshot(1) [of q p name] by (intro path_exists_outside [OF o]) blast
  moreover have "file_contents d' q = file_contents d q" if "q \<in> set (path_prefixes (snapshot_path p name))" for q
    using that active_not_snapshot(2) [of q p name] o by (auto simp: outside_def)
  ultimately show ?thesis using assms(1) by (simp add: dir_free_def file_contents_def)
qed

lemma tree_ok_run:
  assumes "tree_ok x t M" and "h \<in> set (concat (tree_levels t))"
  shows "h_paths h = run_paths_new (lt_active_dir t) (h_run_number h)" and "h_run_number h < st_next_run (lt_store t)"
    and "\<exists>es. run_ok x (tree_disk t) h es" and "0 < w_refs (st_world (lt_store t)) (h_arc h)"
proof -
  let ?A = "mset (concat (tree_levels t)) + M"
  have r: "runs_ok x (lt_active_dir t) (st_next_run (lt_store t)) (st_world (lt_store t)) ?A" and h: "h \<in># ?A"
    using assms by (simp_all add: tree_ok_def store_ok_def tree_levels_def)
  then show "h_paths h = run_paths_new (lt_active_dir t) (h_run_number h)" "h_run_number h < st_next_run (lt_store t)"
    "\<exists>es. run_ok x (tree_disk t) h es"
    by (auto simp only: runs_ok_def tree_disk_def)
  show "0 < w_refs (st_world (lt_store t)) (h_arc h)"
    using r sharing_pos [OF h] h by (simp add: runs_ok_def owned_def)
qed

lemma stored_run_files:
  assumes "stored_run x v (run_paths_new dir n) es" and "c \<in> set components"
  shows "v (run_file dir n c) \<noteq> None"
proof -
  have "run_file dir n c \<in> set (run_files (run_paths_new dir n))" using assms(2) by (simp add: run_files_new)
  then show ?thesis using assms(1) by (auto simp: stored_run_def run_files_def)
qed

lemma concat_member: "h \<in> set (concat ls) \<Longrightarrow> \<exists>i < length ls. h \<in> set (ls ! i)"
  by (auto simp: in_set_conv_nth [of _ ls])

text \<open>Moving a run to another directory, file by file.\<close>

lemma stored_run_moved:
  assumes "stored_run x v (run_paths_new src n) es"
    and "\<forall>c \<in> set components. v' (run_file dst n c) = v (run_file src n c)"
  shows "stored_run x v' (run_paths_new dst n) es"
  using assms by (simp add: stored_run_def components_def)

text \<open>A change of the disk that leaves the files of the active directory alone.\<close>

lemma tree_ok_other_files:
  assumes t: "tree_ok x t M" and ok: "disk_ok d"
    and same: "\<forall>p. butlast p = lt_active_dir t \<longrightarrow> path_exists d p = path_exists (tree_disk t) p
        \<and> file_contents d p = file_contents (tree_disk t) p"
    and dirs: "lt_active_dir t \<in> set (d_dirs (tree_disk t)) \<Longrightarrow> lt_active_dir t \<in> set (d_dirs d)"
  shows "tree_ok x (t\<lparr>lt_store := (lt_store t)\<lparr>st_world := (st_world (lt_store t))\<lparr>w_disk := d\<rparr>\<rparr>\<rparr>) M"
    and "h \<in> set (concat (tree_levels t)) \<Longrightarrow> run_map d h = run_map (tree_disk t) h"
proof -
  let ?s = "lt_store t" and ?w = "(st_world (lt_store t))\<lparr>w_disk := d\<rparr>"
  let ?A = "mset (concat (st_levels ?s)) + M"
  have r: "runs_ok x (lt_active_dir t) (st_next_run ?s) (st_world ?s) ?A" using t by (simp add: tree_ok_def store_ok_def)
  have run: "run_ok x d h es" if "h \<in># ?A" "run_ok x (tree_disk t) h es" for h es
  proof (rule run_ok_view [OF that(2)])
    fix p
    assume "p \<in> files_of h"
    moreover have "h_paths h = run_paths_new (lt_active_dir t) (h_run_number h)" using r that(1) by (simp add: runs_ok_def)
    ultimately have "butlast p = lt_active_dir t" by (auto simp: files_of_def run_files_new)
    then show "file_contents d p = file_contents (tree_disk t) p" using same by simp
  qed
  have "runs_ok x (lt_active_dir t) (st_next_run ?s) ?w ?A"
    unfolding runs_ok_def
  proof (intro conjI ballI allI impI)
    show "owned ?w ?A" using r by (simp add: runs_ok_def owned_def)
    show "disk_ok (w_disk ?w)" using ok by simp
  next
    fix h
    assume h: "h \<in># ?A"
    then show "h_paths h = run_paths_new (lt_active_dir t) (h_run_number h)" "h_run_number h < st_next_run ?s"
      using r by (simp_all only: runs_ok_def)
    obtain es where "run_ok x (tree_disk t) h es" using r h by (auto simp: runs_ok_def tree_disk_def)
    then have "\<exists>es. run_ok x d h es" using run [OF h] by blast
    then show "\<exists>es. run_ok x (w_disk ?w) h es" by simp
  next
    fix n
    assume "st_next_run ?s \<le> n"
    then have "run_fresh (tree_disk t) (lt_active_dir t) n" using r by (simp add: runs_ok_def tree_disk_def)
    then show "run_fresh (w_disk ?w) (lt_active_dir t) n" using same dirs by (simp add: run_fresh_def)
  qed
  then show "tree_ok x (t\<lparr>lt_store := ?s\<lparr>st_world := ?w\<rparr>\<rparr>) M" using t by (simp add: tree_ok_def store_ok_def)
  show "run_map d h = run_map (tree_disk t) h" if h: "h \<in> set (concat (tree_levels t))"
  proof -
    have "h \<in># ?A" using h by (simp add: tree_levels_def)
    moreover obtain es where "run_ok x (tree_disk t) h es" using tree_ok_run(3) [OF t h] by blast
    ultimately show ?thesis using run by (metis entries_of_run run_map_def)
  qed
qed

lemma save_snapshot_ok:
  assumes t: "tree_ok x t M" and tidy: "tree_tidy t" and total: "codecs_total x" and mc: "metadata_codec_ok mc"
    and fits: "fits (mt_data (lt_memtable t))" and next_run: "Suc (st_next_run (lt_store t)) < 2 ^ 64"
    and free: "dir_free (tree_disk t) (snapshot_path (lt_path t) name)"
  obtains t' where "save_snapshot x mc name label t = (Inr (), t')" and "tree_ok x t' M" and "tree_tidy t'"
    and "tree_map t' = tree_map t" and "same_shape t t'"
    and "snapshot_stored x mc (lt_path t) name (tree_disk t') (tree_view t)"
    and "set (d_dirs (tree_disk t')) = set (path_prefixes (snapshot_path (lt_path t) name)) \<union> set (d_dirs (tree_disk t))"
    and "\<forall>q. butlast q \<noteq> lt_active_dir t \<longrightarrow> \<not> is_prefix (snapshot_path (lt_path t) name) q \<longrightarrow>
      file_contents (tree_disk t') q = file_contents (tree_disk t) q"
proof -
  let ?p = "lt_path t" and ?dir = "snapshot_path (lt_path t) name"
  obtain t1 where t1: "flush_memtable x t = (Inr (), t1)" "flushed x t t1 M" "lt_memtable t1 = mt_new (lt_sequence t)"
    by (rule flush_ok [OF t total fits])
  have ok1: "tree_ok x t1 M" and shape: "same_shape t t1" and view1: "tree_map t1 = tree_map t"
    using t1(2) by (simp_all add: flushed_def)
  have tidy1: "tree_tidy t1" by (rule tree_tidy_flushed [OF t tidy t1(2) next_run])
  have path: "lt_path t1 = ?p" and active: "lt_active_dir t1 = ?p @ [''active'']" and imm: "lt_immutables t1 = []"
    using shape tidy1 t by (simp_all add: same_shape_def tree_tidy_def tree_ok_def)
  have free1: "dir_free (tree_disk t1) ?dir"
    using t1(2) tidy by (intro dir_free_outside [OF free]) (simp add: flushed_def tree_tidy_def)
  let ?hs = "concat (tree_levels t1)" and ?w = "st_world (lt_store t1)" and ?a = "?p @ [''active'']"
  let ?wc = "clone_handles ?hs ?w"
  have runs: "h_paths h = run_paths_new ?a (h_run_number h) \<and> 0 < w_refs ?w (h_arc h)" if "h \<in> set ?hs" for h
    using tree_ok_run [OF ok1 that] active by simp
  obtain es where es: "run_ok x (tree_disk t1) h (es h)" if "h \<in> set ?hs" for h
    using tree_ok_run(3) [OF ok1] by metis
  have nums: "distinct (map h_run_number ?hs)" using tidy1 by (simp add: tree_tidy_def)
  let ?f = "\<lambda>n. es (inv_into (set ?hs) h_run_number n)"
  have f: "?f (h_run_number h) = es h" if "h \<in> set ?hs" for h
    using nums that by (simp add: distinct_map inv_into_f_f)
  have stored: "stored_run x (file_contents (tree_disk t1)) (run_paths_new ?a (h_run_number h)) (es h)" if "h \<in> set ?hs" for h
    using es [OF that] runs [OF that] by (simp add: run_ok_def)
  let ?md = "\<lparr>sm_version = 1, sm_label = label, sm_config = lt_config t1, sm_runs = map snapshot_run_of ?hs,
      sm_sequence_number = lt_sequence t1\<rparr>"
  obtain bytes where bytes: "mc_to_cbor mc ?md = Inr bytes" "mc_from_cbor mc bytes = Inr ?md"
    using mc unfolding metadata_codec_ok_def by blast
  have wc: "w_disk ?wc = tree_disk t1" by (simp add: tree_disk_def)
  have ok_disk: "disk_ok (tree_disk t1)" using ok1 by (simp add: tree_ok_def store_ok_def runs_ok_def tree_disk_def)
  obtain d' where d': "ps_create x mc ?p name label ?hs (lt_sequence t1) (lt_config t1) ?wc =
        (Inr \<lparr>ps_name = name, ps_path = ?dir, ps_metadata = ?md\<rparr>, ?wc\<lparr>w_disk := d'\<rparr>)"
      "disk_ok d'" "set (d_dirs d') = set (path_prefixes ?dir) \<union> set (d_dirs (tree_disk t1))"
      "metadata_at x ?dir bytes (file_contents d')"
      "\<forall>n \<in> set (map h_run_number ?hs). \<forall>c \<in> set components.
        file_contents d' (run_file ?dir n c) = file_contents (tree_disk t1) (run_file ?a n c)"
      "\<forall>p. \<not> is_prefix ?dir p \<longrightarrow> file_contents d' p = file_contents (tree_disk t1) p"
  proof (rule ps_create_ok [of ?wc ?dir ?p name ?hs ?a ?md label "lt_config t1" "lt_sequence t1" mc bytes x], unfold wc)
    show "\<forall>h \<in> set ?hs. h_paths h = run_paths_new ?a (h_run_number h) \<and> 0 < w_refs ?wc (h_arc h)"
      using runs by (simp add: clone_handles_refs)
    show "\<forall>h \<in> set ?hs. \<forall>c \<in> set components. file_contents (tree_disk t1) (run_file ?a (h_run_number h) c) \<noteq> None"
      using stored_run_files [OF stored] by blast
  qed (use ok_disk free1 nums bytes in simp_all)
  let ?t = "t1\<lparr>lt_store := (lt_store t1)\<lparr>st_world := ?w\<lparr>w_disk := d'\<rparr>\<rparr>\<rparr>"
  have "drop_handles ?hs (?wc\<lparr>w_disk := d'\<rparr>) = ?w\<lparr>w_disk := d'\<rparr>" using runs by (intro drop_clones) simp
  then have "save_snapshot x mc name label t = (Inr (), ?t)"
    using t1(1) d'(1) path
    by (simp add: save_snapshot_def result_simps on_store_def on_world_def clone_in_def drop_in_def Let_def)
  moreover have side: "path_exists d' q = path_exists (tree_disk t1) q \<and> file_contents d' q = file_contents (tree_disk t1) q"
    if "butlast q = ?a" for q
    using active_not_snapshot [OF that, of name] d'(3,6) by (simp add: path_exists_contents)
  have ok': "tree_ok x ?t M" and maps: "\<And>h. h \<in> set ?hs \<Longrightarrow> run_map d' h = run_map (tree_disk t1) h"
    using tree_ok_other_files [OF ok1 d'(2)] side active d'(3) by auto
  moreover have "tree_tidy ?t" using tidy1 by (simp add: tree_tidy_def tree_levels_def)
  moreover have "tree_map ?t = tree_map t1"
    using levels_map_cong [of "tree_levels t1" d' "tree_disk t1"] maps
    by (simp add: tree_map_def store_map_def tree_disk_def tree_levels_def)
  moreover have "same_shape t ?t" using shape by (simp add: same_shape_def)
  moreover have "snapshot_stored x mc ?p name (tree_disk ?t) (tree_view t)"
  proof -
    have "run_map (tree_disk t1) h = bt_get (?f (h_run_number h))" if "h \<in> set ?hs" for h
      using entries_of_run [OF es [OF that]] f [OF that] by (simp add: run_map_def)
    then have "levels_map (tree_disk t1) (tree_levels t1) = runs_map (\<lambda>n. bt_get (?f n)) (map snapshot_run_of ?hs)"
      by (intro levels_runs_map [OF tidy1] ballI)
    then have view: "tree_view t = live (runs_map (\<lambda>n. bt_get (?f n)) (sm_runs ?md))"
      using view1 t1(3) imm
      by (simp add: tree_view_def tree_map_def store_map_def memtables_map_def tree_disk_def tree_levels_def)
    have run: "sr_level r \<le> max_level_default \<and> Suc (sr_run_number r) < 2 ^ 64
        \<and> stored_run x (file_contents d') (run_paths_new ?dir (sr_run_number r)) (?f (sr_run_number r))"
      if "r \<in> set (sm_runs ?md)" for r
    proof -
      obtain h where h: "h \<in> set ?hs" "r = snapshot_run_of h" using \<open>r \<in> set (sm_runs ?md)\<close> by auto
      obtain i where i: "i < Suc max_level_default" "h \<in> set (tree_levels t1 ! i)"
        using h(1) tidy1 by (metis concat_member tree_tidy_def)
      then have "h_level h = i" using tidy1 by (simp add: tree_tidy_def)
      moreover have "h_run_number h < st_next_run (lt_store t1)" by (rule tree_ok_run(2) [OF ok1 h(1)])
      moreover have "stored_run x (file_contents d') (run_paths_new ?dir (h_run_number h)) (es h)"
        using stored_run_moved [OF stored [OF h(1)]] d'(5) h(1) by auto
      ultimately show ?thesis
        using i(1) h f [OF h(1)] tidy1 by (simp add: snapshot_run_of_def tree_tidy_def)
    qed
    have last: "length (filter (\<lambda>r. sr_level r = max_level_default) (sm_runs ?md)) \<le> 1"
      using labelled_runs [OF tidy1, of max_level_default] ok1 tidy1
      by (simp add: filter_map comp_def snapshot_run_of_def tree_ok_def store_ok_def tree_tidy_def tree_levels_def)
    have "path_exists d' ?dir" using d'(3) by (simp add: path_exists_def)
    moreover have "distinct (map sr_run_number (sm_runs ?md))" using nums by (simp add: comp_def snapshot_run_of_def)
    ultimately show ?thesis
      unfolding snapshot_stored_def using d'(4) bytes(2) run last view
      by (intro exI [of _ ?md] exI [of _ bytes] exI [of _ ?f]) (simp add: tree_disk_def)
  qed
  moreover have "outside ?a (tree_disk t) (tree_disk t1)" using t1(2) tidy by (simp add: flushed_def tree_tidy_def)
  moreover have "tree_disk ?t = d'" by (simp add: tree_disk_def)
  moreover have "lt_active_dir t = ?a" using tidy by (simp add: tree_tidy_def)
  ultimately show thesis using view1 d'(3,6) by (intro that [of ?t]) (simp_all add: outside_def)
qed

end
