(* ===== verification/Snapshot_Open.thy ===== *)
theory Snapshot_Open
  imports Snapshot_Restore
begin

text \<open>
  Opening a saved snapshot: the lock is taken, the active directory is emptied, the files of the
  snapshot are linked into it and every run is opened and put into its level. The tree that
  comes out stands for the map the snapshot holds.
\<close>

section \<open>The lock file\<close>

definition names_distinct :: "disk \<Rightarrow> bool" where
  "names_distinct d \<longleftrightarrow> distinct (map fst (d_names d))"

lemma names_distinct_create:
  "fs_create q d = (Inr i, d') \<Longrightarrow> names_distinct d \<Longrightarrow> names_distinct d'"
  by (auto simp: fs_create_def fs_fresh_def names_distinct_def map_of_eq_None_iff split: if_splits option.splits)

lemma acquire_frame:
  assumes a: "acquire e p lw = (Inr lock, lw')" and ok: "disk_ok (lw_disk lw)"
    and free: "temp_free (lw_disk lw) (lock_path p)" and dir: "p \<in> set (d_dirs (lw_disk lw))"
  shows "disk_ok (lw_disk lw')" and "same_but (lock_path p) (lw_disk lw) (lw_disk lw')"
    and "names_distinct (lw_disk lw) \<Longrightarrow> names_distinct (lw_disk lw')"
proof -
  let ?d = "lw_disk lw"
  have "butlast (lock_path p) \<in> set (d_dirs ?d)" using dir by (simp add: lock_path_def)
  then obtain i d' where c: "fs_create (lock_path p) ?d = (Inr i, d')" "sole_name d' i (lock_path p)"
      "disk_ok d'" "same_but (lock_path p) ?d d'"
    using fs_create_ok [OF ok free] by metis
  let ?f = "\<lparr>lf_fd = lw_next_fd lw, lf_inode = i\<rparr>" and ?w = "lw\<lparr>lw_disk := d', lw_next_fd := Suc (lw_next_fd lw)\<rparr>"
  have open_ok: "acquire_open p lw = (Inr ?f, ?w)"
    using c(1) by (simp add: acquire_open_def io_bind_def on_lock_disk_def)
  have refused: "\<not> holder_alive e p lw" using a by (auto simp: acquire_def acquire_check_eq result_simps)
  then have "io_bind (acquire_flock ?f) (\<lambda>_. acquire_write e p ?f) ?w = (Inr lock, lw')"
    using a open_ok by (simp add: acquire_def acquire_check_eq result_simps)
  then have "acquire_write e p ?f (?w\<lparr>lw_flock := (lw_flock lw)(i := Some (lw_next_fd lw))\<rparr>) = (Inr lock, lw')"
    by (auto simp: acquire_flock_def io_bind_def split: if_splits)
  then obtain bytes where d: "lw_disk lw' = snd (fs_append i bytes d')"
    by (auto simp: acquire_write_def io_bind_def on_lock_disk_def fs_append_def fs_sync_def io_lift_def
        split: sum.splits prod.splits)
  show "disk_ok (lw_disk lw')" using c(3) by (simp add: d)
  show "same_but (lock_path p) ?d (lw_disk lw')"
    using c(4) contents_append [OF c(2), of bytes] by (simp add: d same_but_def fs_append_def)
  show "names_distinct (lw_disk lw')" if "names_distinct ?d"
    using names_distinct_create [OF c(1) that] by (simp add: d fs_append_def names_distinct_def)
qed

section \<open>Emptying the active directory\<close>

lemma remove_files_ok:
  assumes "distinct qs" and "set qs \<subseteq> fst ` set (d_names d)"
  shows "remove_files qs d = (Inr (), d\<lparr>d_names := filter (\<lambda>(q, i). q \<notin> set qs) (d_names d)\<rparr>)"
  using assms
proof (induction qs arbitrary: d)
  case (Cons q qs)
  let ?d = "d\<lparr>d_names := AList.delete q (d_names d)\<rparr>"
  have "map_of (d_names d) q \<noteq> None" using Cons.prems(2) by (simp add: map_of_eq_None_iff)
  then have r: "fs_remove q d = (Inr (), ?d)" by (simp add: fs_remove_def)
  have "set qs \<subseteq> fst ` set (d_names ?d)" using Cons.prems by (auto simp: AList.delete_eq image_iff) force
  with Cons.IH [of ?d] Cons.prems(1) have "remove_files qs ?d =
      (Inr (), ?d\<lparr>d_names := filter (\<lambda>(p, i). p \<notin> set qs) (AList.delete q (d_names d))\<rparr>)"
    by simp
  moreover have "filter (\<lambda>(p, i). p \<notin> set qs) (AList.delete q (d_names d)) = filter (\<lambda>(p, i). p \<notin> set (q # qs)) (d_names d)"
    by (auto simp: AList.delete_eq intro!: filter_cong)
  ultimately show ?case using r by (simp add: result_simps)
qed (simp add: case_prod_unfold)

lemma map_of_filter_out: "map_of (filter (\<lambda>(q, i). q \<notin> A) xs) p = (if p \<in> A then None else map_of xs p)"
  by (induction xs) auto

lemma empty_dir_ok:
  assumes ok: "disk_ok d" and names: "names_distinct d" and dir: "a \<in> set (d_dirs d)"
  obtains ns d' where "fs_read_dir_files a d = Inr ns"
    and "remove_files (map (\<lambda>n. a @ [n]) ns) d = (Inr (), d')" and "disk_ok d'" and "d_dirs d' = d_dirs d"
    and "file_contents d' = (\<lambda>p. if child_of a p then None else file_contents d p)"
proof -
  let ?qs = "filter (child_of a) (map fst (d_names d))"
  let ?d = "d\<lparr>d_names := filter (\<lambda>(q, i). q \<notin> set ?qs) (d_names d)\<rparr>"
  have "map (\<lambda>n. a @ [n]) (map last ?qs) = ?qs"
    by (auto simp: child_of_def intro!: map_idI)
  then have "remove_files (map (\<lambda>n. a @ [n]) (map last ?qs)) d = (Inr (), ?d)"
    using names by (simp only: names_distinct_def) (intro remove_files_ok, auto)
  moreover have lookup: "map_of (d_names ?d) p = (if child_of a p then None else map_of (d_names d) p)" for p
  proof -
    show ?thesis by (auto simp: map_of_filter_out map_of_eq_None_iff simp del: filter_filter set_filter) (auto simp: image_iff)
  qed
  moreover from lookup have "disk_ok ?d" using ok by (auto simp: disk_ok_def split: if_splits)
  ultimately show thesis using dir
    by (intro that [of "map last ?qs" ?d]) (auto simp: fs_read_dir_files_def file_contents_def)
qed

section \<open>Opening the runs\<close>

definition opened :: "codecs \<Rightarrow> disk \<Rightarrow> path \<Rightarrow> (nat \<Rightarrow> (key \<times> lsm_value option) list) \<Rightarrow> snapshot_run \<Rightarrow> sst_handle \<Rightarrow> bool" where
  "opened x d a f r h \<longleftrightarrow> table_ok x d h (f (sr_run_number r)) \<and> h_paths h = run_paths_new a (sr_run_number r)
     \<and> h_level h = sr_level r"

lemma open_runs_ok:
  assumes "codecs_ok x"
    and "\<forall>r \<in> set runs. stored_run x (file_contents (w_disk w)) (run_paths_new a (sr_run_number r)) (f (sr_run_number r))"
  shows "\<exists>hs w'. open_runs x a runs acc w = (Inr (acc @ hs), w') \<and> w_disk w' = w_disk w
    \<and> list_all2 (opened x (w_disk w) a f) runs hs
    \<and> map h_arc hs = [w_next_arc w..<w_next_arc w + length runs] \<and> w_next_arc w' = w_next_arc w + length runs
    \<and> w_refs w' = (\<lambda>i. if i \<in> set (map h_arc hs) then 1 else w_refs w i)"
  using assms(2)
proof (induction runs arbitrary: w acc)
  case (Cons r runs)
  let ?n = "sr_run_number r" and ?w = "snd (new_arc w)"
  obtain h where h: "sst_open x a ?n w = (Inr h, ?w)" "table_ok x (w_disk w) h (f ?n)"
      "h_paths h = run_paths_new a ?n" "h_arc h = w_next_arc w"
    using sst_open_total [OF assms(1)] Cons.prems by (metis list.set_intros(1))
  have w: "w_disk ?w = w_disk w" "w_next_arc ?w = Suc (w_next_arc w)" "w_refs ?w = (w_refs w)(w_next_arc w := 1)"
    by (simp_all add: new_arc_def)
  have stored: "\<forall>r \<in> set runs. stored_run x (file_contents (w_disk ?w)) (run_paths_new a (sr_run_number r)) (f (sr_run_number r))"
    using Cons.prems by (simp add: w(1))
  let ?h = "h\<lparr>h_level := sr_level r\<rparr>"
  obtain hs w' where hs: "open_runs x a runs (acc @ [?h]) ?w = (Inr ((acc @ [?h]) @ hs), w')" "w_disk w' = w_disk w"
      "list_all2 (opened x (w_disk w) a f) runs hs" "map h_arc hs = [Suc (w_next_arc w)..<Suc (w_next_arc w) + length runs]"
      "w_next_arc w' = Suc (w_next_arc w) + length runs"
      "w_refs w' = (\<lambda>i. if i \<in> set (map h_arc hs) then 1 else ((w_refs w)(w_next_arc w := 1)) i)"
    using Cons.IH [OF stored, of "acc @ [?h]"] unfolding w by blast
  have "opened x (w_disk w) a f r ?h" using h by (simp add: opened_def table_ok_def)
  moreover have "map h_arc (?h # hs) = [w_next_arc w..<w_next_arc w + length (r # runs)]"
    using h(4) hs(4) by (simp add: upt_conv_Cons del: upt_Suc)
  moreover have "w_refs w' = (\<lambda>i. if i \<in> set (map h_arc (?h # hs)) then 1 else w_refs w i)"
    using h(4) hs(6) by (auto simp: fun_eq_iff)
  ultimately show ?case
    using h(1) hs(1,2,3,5) by (intro exI [of _ "?h # hs"] exI [of _ w']) (simp del: upt_Suc)
qed simp

lemma sharing_distinct: "distinct (map h_arc hs) \<Longrightarrow> h \<in> set hs \<Longrightarrow> sharing (h_arc h) (mset hs) = 1"
proof (induction hs)
  case (Cons g hs)
  have other: "h_arc k \<noteq> h_arc g" if "k \<in> set hs" for k
    using Cons.prems(1) imageI [OF that, of h_arc] by auto
  then have "sharing (h_arc g) (mset hs) = 0" by (simp add: sharing_zero)
  then show ?case using Cons other [of h] by (cases "h = g") auto
qed simp

lemma owned_opened:
  assumes opened: "list_all2 (opened x d a f) runs hs" and nums: "distinct (map sr_run_number runs)"
    and arcs: "map h_arc hs = [n..<n + length runs]" and w: "w_next_arc w = n + length runs"
      "\<forall>h \<in> set hs. w_refs w (h_arc h) = 1"
  shows "owned w (mset hs)" and "map h_run_number hs = map sr_run_number runs"
proof -
  from opened show m: "map h_run_number hs = map sr_run_number runs"
    by (induction rule: list_all2_induct) (simp_all add: opened_def h_run_number_def)
  have d: "distinct (map h_arc hs)" by (simp add: arcs)
  have "h_arc h < w_next_arc w" if "h \<in> set hs" for h
  proof -
    have "h_arc h \<in> set (map h_arc hs)" using that by simp
    then show ?thesis unfolding arcs by (simp add: w(1))
  qed
  moreover have "files_of h \<inter> files_of g = {}" if "h \<in> set hs" "g \<in> set hs" "h_arc h \<noteq> h_arc g" for h g
  proof -
    have paths: "h_paths k = run_paths_new a (h_run_number k)" if "k \<in> set hs" for k
      using opened that by (auto simp: list_all2_conv_all_nth in_set_conv_nth opened_def h_run_number_def)
    have "h_run_number h \<noteq> h_run_number g"
      using that m nums by (metis distinct_map inj_onD)
    then show ?thesis using run_files_disjoint paths [OF that(1)] paths [OF that(2)] by (simp add: files_of_def)
  qed
  ultimately show "owned w (mset hs)" using sharing_distinct [OF d] w(2) by (simp add: owned_def)
qed

section \<open>The levels\<close>

lemma mset_labelled:
  "mset (concat (map (\<lambda>i. sort_key k (filter (\<lambda>h. g h = i) hs)) [0..<n])) = mset (filter (\<lambda>h. g h < n) hs)"
proof (induction n)
  case (Suc n)
  have "mset (filter (\<lambda>h. g h < Suc n) hs) = mset (filter (\<lambda>h. g h < n) hs) + mset (filter (\<lambda>h. g h = n) hs)"
    by (induction hs) auto
  then show ?case using Suc.IH by simp
qed simp

lemma organize_mset: "\<forall>h \<in> set hs. h_level h \<le> max_level_default \<Longrightarrow> mset (concat (organize_levels hs)) = mset hs"
  by (simp only: organize_levels_def mset_labelled less_Suc_eq_le) (simp add: filter_id_conv)

lemma organize_nth: "i < Suc max_level_default \<Longrightarrow>
  organize_levels hs ! i = sort_key h_min_key (filter (\<lambda>h. h_level h = i) hs)"
  by (simp add: organize_levels_def del: upt_Suc)

lemma organize_length [simp]: "length (organize_levels hs) = Suc max_level_default"
  by (simp add: organize_levels_def)

lemma opened_level:
  "list_all2 (opened x d a f) runs hs \<Longrightarrow>
   map h_run_number (filter (\<lambda>h. h_level h = i) hs) = map sr_run_number (filter (\<lambda>r. sr_level r = i) runs)"
  by (induction rule: list_all2_induct) (simp_all add: opened_def h_run_number_def)

lemma opened_run:
  assumes "list_all2 (opened x d a f) runs hs" and "h \<in> set hs"
  obtains r where "r \<in> set runs" and "opened x d a f r h"
proof -
  from assms obtain i where "i < length hs" "h = hs ! i" "length runs = length hs" "opened x d a f (runs ! i) (hs ! i)"
    by (auto simp: list_all2_conv_all_nth in_set_conv_nth)
  then show thesis by (intro that [of "runs ! i"]) simp_all
qed

lemma opened_levels_map:
  assumes o: "list_all2 (opened x d a f) runs hs"
  shows "levels_map d (organize_levels hs) = runs_map (\<lambda>n. bt_get (f n)) runs"
proof -
  have run: "run_map d h = bt_get (f (h_run_number h))" if h: "h \<in> set hs" for h
  proof -
    obtain r where "opened x d a f r h" using opened_run [OF o h] by blast
    then have "table_ok x d h (f (h_run_number h))" by (simp add: opened_def h_run_number_def)
    then show ?thesis by (simp add: run_map_def entries_of_ok)
  qed
  have "level_map d (sort_key h_min_key (filter (\<lambda>h. h_level h = i) hs)) =
      numbers_map (\<lambda>n. bt_get (f n)) (map sr_run_number (filter (\<lambda>r. sr_level r = i) runs))" for i
  proof -
    have "level_map d (sort_key h_min_key (filter (\<lambda>h. h_level h = i) hs)) =
        numbers_map (\<lambda>n. bt_get (f n)) (map h_run_number (sort_key h_min_key (filter (\<lambda>h. h_level h = i) hs)))"
      using run by (intro level_map_numbers) simp
    also have "\<dots> = numbers_map (\<lambda>n. bt_get (f n)) (map h_run_number (filter (\<lambda>h. h_level h = i) hs))"
      by (rule numbers_map_mset) simp
    finally show ?thesis by (simp add: opened_level [OF o])
  qed
  then show ?thesis by (simp add: levels_map_def organize_levels_def runs_map_def comp_def del: upt_Suc)
qed

lemma foldl_max_le_iff: "foldl max m ns \<le> (b :: nat) \<longleftrightarrow> m \<le> b \<and> (\<forall>n \<in> set ns. n \<le> b)"
  by (induction ns arbitrary: m) auto

lemma foldl_max_ge: "n \<in> set ns \<Longrightarrow> (n :: nat) \<le> foldl max m ns"
  using foldl_max_le_iff [of m ns "foldl max m ns"] by simp

lemma foldl_max_bound: "\<forall>n \<in> set ns. n < b \<Longrightarrow> m < b \<Longrightarrow> foldl max m ns < (b :: nat)"
  by (induction ns arbitrary: m) auto

section \<open>Restoring\<close>

text \<open>The active directory is there, holds no directory, and both it and its sibling are reachable.\<close>

definition active_ready :: "path \<Rightarrow> disk \<Rightarrow> bool" where
  "active_ready p d \<longleftrightarrow> dir_there d (p @ [''active'']) \<and> dir_there d (p @ [''snapshots''])
     \<and> (\<forall>q \<in> set (d_dirs d). butlast q \<noteq> p @ [''active''])"

lemma path_prefix_in: "n \<le> length p \<Longrightarrow> take n p \<in> set (path_prefixes p)"
  by (auto simp: path_prefixes_def simp del: upt_Suc)

lemma active_ready_dirs:
  assumes "active_ready p d"
  shows "p @ [''active''] \<in> set (d_dirs d)" and "p @ [''snapshots''] \<in> set (d_dirs d)" and "p \<in> set (d_dirs d)"
proof -
  show "p @ [''active''] \<in> set (d_dirs d)" "p @ [''snapshots''] \<in> set (d_dirs d)"
    using assms dir_there_self by (auto simp: active_ready_def)
  have "take (length p) (p @ [''active'']) \<in> set (path_prefixes (p @ [''active'']))" by (rule path_prefix_in) simp
  then show "p \<in> set (d_dirs d)" using assms by (auto simp: active_ready_def dir_there_def)
qed

lemma fsync_dir_ok: "p \<in> set (d_dirs d) \<Longrightarrow> fsync_directory p d = (Inr (), d)"
  by (simp add: fsync_directory_def fs_sync_path_def path_exists_def)

text \<open>The disk once the files of the snapshot are linked into the empty active directory.\<close>

lemma relink_ok:
  assumes ok: "disk_ok d" "names_distinct d" and ready: "active_ready p d" and nums: "distinct ns"
    and files: "\<forall>n \<in> set ns. \<forall>c \<in> set components. file_contents d (run_file (snapshot_path p name) n c) \<noteq> None"
  obtains names d1 d2 where "fs_read_dir_files (p @ [''active'']) d = Inr names"
    and "remove_files (map (\<lambda>name. p @ [''active'', name]) names) d = (Inr (), d1)"
    and "link_pairs (run_links (snapshot_path p name) (p @ [''active'']) ns) d1 = (Inr (), d2)"
    and "disk_ok d2" and "outside (p @ [''active'']) d d2"
    and "\<forall>n \<in> set ns. \<forall>c \<in> set components. file_contents d2 (run_file (p @ [''active'']) n c) =
      file_contents d (run_file (snapshot_path p name) n c)"
    and "\<forall>q. butlast q = p @ [''active''] \<longrightarrow> (\<forall>n \<in> set ns. \<forall>c \<in> set components. q \<noteq> run_file (p @ [''active'']) n c) \<longrightarrow>
      \<not> path_exists d2 q"
proof -
  let ?a = "p @ [''active'']" and ?s = "snapshot_path p name"
  have sa: "?s \<noteq> ?a" by (simp add: snapshot_path_def)
  obtain names d1 where d1: "fs_read_dir_files ?a d = Inr names" "remove_files (map (\<lambda>n. ?a @ [n]) names) d = (Inr (), d1)"
      "disk_ok d1" "d_dirs d1 = d_dirs d" "file_contents d1 = (\<lambda>q. if child_of ?a q then None else file_contents d q)"
    by (rule empty_dir_ok [OF ok active_ready_dirs(1) [OF ready]])
  have gone: "\<not> path_exists d1 q" if "butlast q = ?a" for q
    using that ready d1(4,5) by (auto simp: path_exists_contents child_of_def active_ready_def)
  have kept: "file_contents d1 q = file_contents d q" if "butlast q \<noteq> ?a" for q
    using that by (simp add: d1(5) child_of_def)
  have "links_ready d1 (run_links ?s ?a ns)"
    unfolding links_ready_def
  proof (intro conjI d1(3) distinct_run_links nums ballI)
    fix e
    assume "e \<in> set (run_links ?s ?a ns)"
    then obtain n c where "e = (run_file ?s n c, run_file ?a n c)" "n \<in> set ns" "c \<in> set components" by (auto simp: set_run_links)
    then show "case e of (s, t) \<Rightarrow> file_contents d1 s \<noteq> None \<and> \<not> path_exists d1 t \<and> butlast t \<in> set (d_dirs d1)"
      using files kept gone sa active_ready_dirs(1) [OF ready] d1(4) by simp
  qed
  then obtain d2 where d2: "link_pairs (run_links ?s ?a ns) d1 = (Inr (), d2)" "disk_ok d2" "d_dirs d2 = d_dirs d1"
      "file_contents d2 = linked_view (run_links ?s ?a ns) (file_contents d1)"
    by (rule link_pairs_ok)
  have other: "file_contents d2 q = file_contents d1 q" if "\<forall>n \<in> set ns. \<forall>c \<in> set components. q \<noteq> run_file ?a n c" for q
    unfolding d2(4) using that by (rule linked_view_other)
  have "file_contents d2 q = file_contents d q" if "butlast q \<noteq> ?a" for q
  proof -
    have "\<forall>n c. q \<noteq> run_file ?a n c" using that by auto
    then show ?thesis using other kept [OF that] by simp
  qed
  then have "outside ?a d d2" using d1(4) d2(3) by (simp add: outside_def)
  moreover have "file_contents d2 (run_file ?a n c) = file_contents d (run_file ?s n c)" if "n \<in> set ns" "c \<in> set components" for n c
    using linked_view_run [OF nums that] kept [of "run_file ?s n c"] sa by (simp add: d2(4))
  moreover have "\<not> path_exists d2 q" if "butlast q = ?a" "\<forall>n \<in> set ns. \<forall>c \<in> set components. q \<noteq> run_file ?a n c" for q
    using gone [OF that(1)] other [OF that(2)] d2(3) by (simp add: path_exists_contents)
  ultimately show thesis using d1(1,2) d2(1,2) by (intro that [of names d1 d2]) simp_all
qed

lemma run_file_exts_other:
  assumes "n \<noteq> m" and "e \<in> set run_exts" and "e' \<in> set run_exts"
  shows "run_file dir n e \<noteq> run_file dir m e'"
proof (cases "e \<in> set components \<or> e' \<in> set components")
  case True
  then show ?thesis using run_file_ext_other [of n m] run_file_ext_other [of m n] assms by metis
next
  case False
  then have "e = ''checksum.tmp''" "e' = ''checksum.tmp''" using assms by (auto simp: run_exts_eq)
  then show ?thesis using assms(1) by (simp add: run_file_def)
qed

text \<open>Opening runs that are complete and alone in the active directory, and building the tree.\<close>

lemma open_tree_ok:
  assumes codecs: "codecs_ok x" and ok: "disk_ok (w_disk w)" and dir: "p @ [''active''] \<in> set (d_dirs (w_disk w))"
    and nums: "distinct (map sr_run_number runs)"
    and runs: "\<forall>r \<in> set runs. sr_level r \<le> max_level_default \<and> Suc (sr_run_number r) < 2 ^ 64
      \<and> stored_run x (file_contents (w_disk w)) (run_paths_new (p @ [''active'']) (sr_run_number r)) (f (sr_run_number r))"
    and last: "length (filter (\<lambda>r. sr_level r = max_level_default) runs) \<le> 1"
    and alone: "\<forall>q. butlast q = p @ [''active''] \<longrightarrow>
      (\<forall>n \<in> set (map sr_run_number runs). \<forall>e \<in> set run_exts. q \<noteq> run_file (p @ [''active'']) n e) \<longrightarrow> \<not> path_exists (w_disk w) q"
  obtains hs w' t where "open_runs x (p @ [''active'']) runs [] w = (Inr hs, w')"
    and "finish_open p config seq (foldl max 0 (map sr_run_number runs)) hs w' = (Inr t, w')"
    and "st_world (lt_store t) = w'" and "tree_disk t = w_disk w" and "tree_ok x t {#}"
    and "tree_view t = live (runs_map (\<lambda>n. bt_get (f n)) runs)"
    and "lt_path t = p" and "lt_memtable t = mt_new seq" and "tree_levels t = organize_levels hs"
    and "list_all2 (opened x (w_disk w) (p @ [''active'']) f) runs hs"
proof -
  let ?a = "p @ [''active'']" and ?d = "w_disk w" and ?ns = "map sr_run_number runs"
  have stored: "\<forall>r \<in> set runs. stored_run x (file_contents ?d) (run_paths_new ?a (sr_run_number r)) (f (sr_run_number r))"
    using runs by blast
  obtain hs w' where hs: "open_runs x ?a runs [] w = (Inr hs, w')" "w_disk w' = ?d" "list_all2 (opened x ?d ?a f) runs hs"
      "map h_arc hs = [w_next_arc w..<w_next_arc w + length runs]" "w_next_arc w' = w_next_arc w + length runs"
      "w_refs w' = (\<lambda>i. if i \<in> set (map h_arc hs) then 1 else w_refs w i)"
    using open_runs_ok [OF codecs stored, of "[]"] unfolding append_Nil by blast
  have own: "owned w' (mset hs)" and num: "map h_run_number hs = ?ns"
    by (rule owned_opened [OF hs(3) nums hs(4,5)], use hs(6) in simp)+
  have level: "h_level h \<le> max_level_default" if "h \<in> set hs" for h
    using opened_run [OF hs(3) that] runs by (metis opened_def)
  then have beyond: "beyond_levels hs = []" by (simp add: beyond_levels_def filter_empty_conv not_less)
  let ?max = "foldl max 0 ?ns"
  have mod: "(?max + 1) mod 2 ^ 64 = Suc ?max"
    using foldl_max_bound [of ?ns "2 ^ 64 - 1" 0] runs by fastforce
  let ?t = "tree_on p config seq (Suc ?max) (organize_levels hs) w'"
  have run: "finish_open p config seq ?max hs w' = (Inr ?t, w')"
    using beyond mod by (simp add: finish_open_def drop_handles_def)
  have ge: "n < Suc ?max" if "n \<in> set ?ns" for n using foldl_max_ge [OF that, of 0] by simp
  have handle: "h_paths h = run_paths_new ?a (h_run_number h) \<and> h_run_number h < Suc ?max \<and> (\<exists>es. run_ok x ?d h es)"
    if h: "h \<in> set hs" for h
  proof -
    obtain r where r: "r \<in> set runs" "opened x ?d ?a f r h" using opened_run [OF hs(3) h] by blast
    then have "run_ok x ?d h (f (sr_run_number r))" using stored by (simp add: opened_def run_ok_def)
    then show ?thesis using r ge [of "sr_run_number r"] by (auto simp: opened_def h_run_number_def)
  qed
  have fresh: "run_fresh ?d ?a n" if "Suc ?max \<le> n" for n
    unfolding run_fresh_def
  proof (intro conjI ballI dir)
    fix e
    assume "e \<in> set run_exts"
    moreover have "n \<noteq> m" if "m \<in> set ?ns" for m using ge [OF that] \<open>Suc ?max \<le> n\<close> by simp
    ultimately have "\<forall>m \<in> set ?ns. \<forall>e' \<in> set run_exts. run_file ?a n e \<noteq> run_file ?a m e'" using run_file_exts_other by blast
    then show "\<not> path_exists ?d (run_file ?a n e)" using alone by simp
  qed
  have mset: "mset (concat (organize_levels hs)) = mset hs" using level by (simp add: organize_mset)
  have "runs_ok x ?a (Suc ?max) w' (mset (concat (organize_levels hs)) + {#})"
    unfolding mset runs_ok_def hs(2) using own handle fresh ok by simp
  moreover have "length (organize_levels hs ! max_level_default) \<le> 1"
    using last arg_cong [OF opened_level [OF hs(3), of max_level_default], of length] by (simp add: organize_nth)
  ultimately have "tree_ok x ?t {#}"
    by (simp add: tree_ok_def tree_on_def store_ok_def max_level_default_def)
  moreover have "tree_view ?t = live (runs_map (\<lambda>n. bt_get (f n)) runs)"
    using opened_levels_map [OF hs(3)] hs(2) by (simp add: tree_view_def tree_map_def tree_on_def store_map_def memtables_map_def)
  moreover have "tree_disk ?t = ?d" "tree_levels ?t = organize_levels hs"
    using hs(2) by (simp_all add: tree_on_def tree_disk_def tree_levels_def)
  ultimately show thesis using hs(1,3) run by (intro that [of hs w' ?t]) (simp_all add: tree_on_def)
qed

lemma restore_snapshot_ok:
  assumes codecs: "codecs_ok x" and ok: "disk_ok (w_disk w)" "names_distinct (w_disk w)" and ready: "active_ready p (w_disk w)"
    and nums: "distinct (map sr_run_number (sm_runs md))"
    and runs: "\<forall>r \<in> set (sm_runs md). sr_level r \<le> max_level_default \<and> Suc (sr_run_number r) < 2 ^ 64
      \<and> stored_run x (file_contents (w_disk w)) (run_paths_new (snapshot_path p name) (sr_run_number r)) (f (sr_run_number r))"
    and last: "length (filter (\<lambda>r. sr_level r = max_level_default) (sm_runs md)) \<le> 1"
  obtains t w' where "restore_snapshot x p name md w = (Inr t, w')" and "st_world (lt_store t) = w'"
    and "tree_ok x t {#}" and "tree_view t = live (runs_map (\<lambda>n. bt_get (f n)) (sm_runs md))"
    and "lt_path t = p" and "outside (p @ [''active'']) (w_disk w) (tree_disk t)"
    and "lt_memtable t = mt_new (sm_sequence_number md)"
    and "\<exists>hs. tree_levels t = organize_levels hs \<and> list_all2 (opened x (tree_disk t) (p @ [''active'']) f) (sm_runs md) hs"
proof -
  let ?a = "p @ [''active'']" and ?s = "snapshot_path p name" and ?d = "w_disk w" and ?runs = "sm_runs md"
  let ?ns = "map sr_run_number ?runs"
  have there: "dir_there ?d ?a" "dir_there ?d (p @ [''snapshots''])" using ready by (simp_all add: active_ready_def)
  note dirs = active_ready_dirs [OF ready]
  have files: "\<forall>n \<in> set ?ns. \<forall>c \<in> set components. file_contents ?d (run_file ?s n c) \<noteq> None"
    using runs stored_run_files by fastforce
  obtain names d1 d2 where d: "fs_read_dir_files ?a ?d = Inr names"
      "remove_files (map (\<lambda>name. p @ [''active'', name]) names) ?d = (Inr (), d1)"
      "link_pairs (run_links ?s ?a ?ns) d1 = (Inr (), d2)" "disk_ok d2" "outside ?a ?d d2"
      "\<forall>n \<in> set ?ns. \<forall>c \<in> set components. file_contents d2 (run_file ?a n c) = file_contents ?d (run_file ?s n c)"
      "\<forall>q. butlast q = ?a \<longrightarrow> (\<forall>n \<in> set ?ns. \<forall>c \<in> set components. q \<noteq> run_file ?a n c) \<longrightarrow> \<not> path_exists d2 q"
    by (rule relink_ok [OF ok ready nums files])
  have d2_dirs: "?a \<in> set (d_dirs d2)" using d(5) dirs(1) by (simp add: outside_def)
  let ?w = "w\<lparr>w_disk := d2\<rparr>"
  have w: "w_disk ?w = d2" by simp
  have linked: "\<forall>r \<in> set ?runs. sr_level r \<le> max_level_default \<and> Suc (sr_run_number r) < 2 ^ 64
      \<and> stored_run x (file_contents d2) (run_paths_new ?a (sr_run_number r)) (f (sr_run_number r))"
    using runs d(6) by (auto intro: stored_run_moved)
  have "set components \<subseteq> set run_exts" by (simp add: run_exts_eq subset_iff)
  then have alone: "\<forall>q. butlast q = ?a \<longrightarrow> (\<forall>n \<in> set ?ns. \<forall>e \<in> set run_exts. q \<noteq> run_file ?a n e) \<longrightarrow> \<not> path_exists d2 q"
    using d(7) by blast
  obtain hs w' t where t: "open_runs x ?a ?runs [] ?w = (Inr hs, w')"
      "finish_open p (sm_config md) (sm_sequence_number md) (foldl max 0 ?ns) hs w' = (Inr t, w')"
      "st_world (lt_store t) = w'" "tree_disk t = d2" "tree_ok x t {#}"
      "tree_view t = live (runs_map (\<lambda>n. bt_get (f n)) ?runs)" "lt_path t = p" "lt_memtable t = mt_new (sm_sequence_number md)"
      "tree_levels t = organize_levels hs" "list_all2 (opened x d2 ?a f) ?runs hs"
    by (rule open_tree_ok [OF codecs, of ?w p ?runs f "sm_config md" "sm_sequence_number md", unfolded w,
          OF d(4) d2_dirs nums linked last alone])
  have "restore_snapshot x p name md w = (Inr t, w')"
    using create_dir_there [OF ok(1) there(1)] create_dir_there [OF ok(1) there(2)] fsync_dir_ok [OF dirs(3)]
      fsync_dir_ok [OF dirs(2)] d(1,2,3) fsync_dir_ok [OF d2_dirs] t(1,2)
    by (simp add: restore_snapshot_def Let_def result_simps link_snapshot_pairs snapshot_path_def)
  then show thesis using t d(5) by (intro that [of t w']) auto
qed

text \<open>The state in which a snapshot can be opened: nothing else than the lock can stand in the way.\<close>

definition session_ready :: "lock_env \<Rightarrow> path \<Rightarrow> session_state \<Rightarrow> session_lock \<Rightarrow> lock_world \<Rightarrow> bool" where
  "session_ready e p s lock l \<longleftrightarrow> disk_ok (w_disk (se_world s)) \<and> names_distinct (w_disk (se_world s))
     \<and> active_ready p (w_disk (se_world s)) \<and> temp_free (w_disk (se_world s)) (lock_path p)
     \<and> acquire e p (lock_world_of s) = (Inr lock, l)"

lemma active_ready_same: "active_ready p d \<Longrightarrow> d_dirs d' = d_dirs d \<Longrightarrow> active_ready p d'"
  by (simp add: active_ready_def dir_there_def)

lemma open_snapshot_ok:
  assumes codecs: "codecs_ok x" and ready: "session_ready e p s lock l"
    and stored: "snapshot_stored x mc p name (w_disk (se_world s)) v"
  obtains t s' where "open_snapshot x mc e p name s = (Inr (lock, t), s')" and "tree_ok x t {#}" and "tree_view t = v"
    and "lt_path t = p" and "st_world (lt_store t) = se_world s'" and "se_flock s' = lw_flock l"
    and "snapshot_stored x mc p name (tree_disk t) v"
proof -
  let ?s = "snapshot_path p name" and ?d = "w_disk (se_world s)" and ?a = "p @ [''active'']"
  have ok: "disk_ok ?d" "names_distinct ?d" "active_ready p ?d" "temp_free ?d (lock_path p)"
    and lock: "acquire e p (lock_world_of s) = (Inr lock, l)" using ready by (simp_all add: session_ready_def)
  obtain md bytes f where md: "path_exists ?d ?s" "metadata_at x ?s bytes (file_contents ?d)" "mc_from_cbor mc bytes = Inr md"
      "distinct (map sr_run_number (sm_runs md))"
      "\<forall>r \<in> set (sm_runs md). sr_level r \<le> max_level_default \<and> Suc (sr_run_number r) < 2 ^ 64
        \<and> stored_run x (file_contents ?d) (run_paths_new ?s (sr_run_number r)) (f (sr_run_number r))"
      "length (filter (\<lambda>r. sr_level r = max_level_default) (sm_runs md)) \<le> 1"
      "v = live (runs_map (\<lambda>n. bt_get (f n)) (sm_runs md))"
    using stored unfolding snapshot_stored_def by blast
  have lw: "lw_disk (lock_world_of s) = ?d" by (simp add: lock_world_of_def)
  note frame = acquire_frame [OF lock, unfolded lw, OF ok(1,4) active_ready_dirs(3) [OF ok(3)]]
  let ?w = "(se_world s)\<lparr>w_disk := lw_disk l\<rparr>"
  have session: "acquire_session e p s = (Inr lock, s\<lparr>se_world := ?w, se_flock := lw_flock l, se_next_fd := lw_next_fd l\<rparr>)"
    using lock by (simp add: acquire_session_def with_lock_world_def)
  have same: "file_contents (lw_disk l) q = file_contents ?d q" if "butlast q \<noteq> p" for q
  proof -
    have "q \<noteq> lock_path p" using that by (auto simp: lock_path_def)
    then show ?thesis using frame(2) by (simp add: same_but_def)
  qed
  have sp: "?s \<noteq> p" by (simp add: snapshot_path_def)
  have stored_same: "stored_run x (file_contents (lw_disk l)) (run_paths_new ?s n) es"
    if "stored_run x (file_contents ?d) (run_paths_new ?s n) es" for n es
    using that by (rule stored_run_moved) (simp add: same sp)
  have runs: "\<forall>r \<in> set (sm_runs md). sr_level r \<le> max_level_default \<and> Suc (sr_run_number r) < 2 ^ 64
      \<and> stored_run x (file_contents (w_disk ?w)) (run_paths_new ?s (sr_run_number r)) (f (sr_run_number r))"
    using md(5) stored_same by simp
  have dirs: "d_dirs (lw_disk l) = d_dirs ?d" using frame(2) by (simp add: same_but_def)
  have wok: "disk_ok (w_disk ?w)" "names_distinct (w_disk ?w)" "active_ready p (w_disk ?w)"
    using frame(1) frame(3) [OF ok(2)] active_ready_same [OF ok(3) dirs] by simp_all
  obtain t w' where t: "restore_snapshot x p name md ?w = (Inr t, w')" "st_world (lt_store t) = w'" "tree_ok x t {#}"
      "tree_view t = live (runs_map (\<lambda>n. bt_get (f n)) (sm_runs md))" "lt_path t = p"
      "outside ?a (w_disk ?w) (tree_disk t)"
    by (rule restore_snapshot_ok [OF codecs wok md(4) runs md(6)])
  have "open_snapshot x mc e p name s =
      (Inr (lock, t), s\<lparr>se_world := w', se_flock := lw_flock l, se_next_fd := lw_next_fd l\<rparr>)"
    using ps_load_ok [OF md(1-3)] session t(1)
    by (simp add: open_snapshot_def result_simps holding_lock_def in_world_def)
  then have opened: "\<exists>s'. open_snapshot x mc e p name s = (Inr (lock, t), s') \<and> se_world s' = w' \<and> se_flock s' = lw_flock l"
    by simp
  have "snapshot_stored x mc p name (lw_disk l) v"
  proof -
    have "path_exists (lw_disk l) ?s"
      using md(1) dirs same [of ?s] by (simp add: path_exists_contents snapshot_path_last)
    moreover have "metadata_at x ?s bytes (file_contents (lw_disk l))" using md(2) sp by (simp add: metadata_at_def same)
    ultimately show ?thesis using md(3,4,6,7) runs unfolding snapshot_stored_def
      by (intro exI [of _ md] exI [of _ bytes] exI [of _ f]) simp
  qed
  moreover have out: "outside ?a (lw_disk l) (tree_disk t)" using t(6) by simp
  moreover have "?a \<noteq> ?s" by (simp add: snapshot_path_def)
  moreover have "?a \<noteq> p @ [''snapshots'']" by simp
  ultimately have kept: "snapshot_stored x mc p name (tree_disk t) v" by (rule snapshot_stored_outside)
  from opened obtain s' where s': "open_snapshot x mc e p name s = (Inr (lock, t), s')" "se_world s' = w'" "se_flock s' = lw_flock l"
    by blast
  show thesis by (rule that [OF s'(1) t(3) _ t(5) _ s'(3) kept]) (simp_all add: t(2,4) md(7) s'(2))
qed

end
