(* ===== verification/SnapshotSamples.thy ===== *)
theory SnapshotSamples
  imports Snapshot_Open Samples "HOL-Library.Countable"
begin

text \<open>
  Concrete inputs for the snapshots: a metadata serialiser with the round trip, a tree with
  unflushed writes on an empty disk, and a session that may open a snapshot.
\<close>

section \<open>A metadata serialiser\<close>

instance word :: (len) countable
  by (rule countable_classI [of unat]) (simp add: unsigned_word_eqI)

instance compaction_strategy :: countable by countable_datatype

instance io_backend :: countable by countable_datatype

text \<open>Records as tuples; the number of a tuple in unary.\<close>

definition config_tuple where
  "config_tuple c = ((memtable_size c, max_immutable_memtables c, block_cache_size c, strategy c, compaction_threads c,
     level0_compaction_trigger c, bloom_filter_bits_per_key c),
     (bloom_filter_fp_rate c, max_snapshots_per_wallet c, snapshot_interval c, sstable_size c, sstable_block_size c,
     backend c, merge_batch_size c))"

definition tuple_config where
  "tuple_config = (\<lambda>((a, b, c, d, e, f, g), (h, i, j, k, l, m, n)). \<lparr>memtable_size = a, max_immutable_memtables = b,
     block_cache_size = c, strategy = d, compaction_threads = e, level0_compaction_trigger = f,
     bloom_filter_bits_per_key = g, bloom_filter_fp_rate = h, max_snapshots_per_wallet = i, snapshot_interval = j,
     sstable_size = k, sstable_block_size = l, backend = m, merge_batch_size = n\<rparr>)"

definition run_tuple where
  "run_tuple r = (sr_run_number r, sr_min_key r, sr_max_key r, sr_num_entries r, sr_level r)"

definition tuple_run where
  "tuple_run = (\<lambda>(n, a, b, c, l). \<lparr>sr_run_number = n, sr_min_key = a, sr_max_key = b, sr_num_entries = c, sr_level = l\<rparr>)"

definition metadata_number :: "snapshot_metadata \<Rightarrow> nat" where
  "metadata_number md = to_nat (sm_version md, sm_label md, config_tuple (sm_config md), map run_tuple (sm_runs md),
     sm_sequence_number md)"

definition number_metadata :: "nat \<Rightarrow> snapshot_metadata" where
  "number_metadata n = (case from_nat n of (v, l, c, rs, s) \<Rightarrow>
     \<lparr>sm_version = v, sm_label = l, sm_config = tuple_config c, sm_runs = map tuple_run rs, sm_sequence_number = s\<rparr>)"

definition sample_metadata_codec :: metadata_codec where
  "sample_metadata_codec = \<lparr>mc_to_cbor = (\<lambda>md. Inr (unary [metadata_number md])),
     mc_from_cbor = (\<lambda>bs. case ununary 0 bs of [n] \<Rightarrow> Inr (number_metadata n) | _ \<Rightarrow> Inl ''invalid metadata'')\<rparr>"

lemma tuple_config_tuple [simp]: "tuple_config (config_tuple c) = c"
  by (simp add: tuple_config_def config_tuple_def)

lemma tuple_run_tuple [simp]: "tuple_run (run_tuple r) = r"
  by (simp add: tuple_run_def run_tuple_def)

lemma number_metadata_number [simp]: "number_metadata (metadata_number md) = md"
  by (simp add: number_metadata_def metadata_number_def comp_def)

lemma sample_metadata_codec_ok [simp]: "metadata_codec_ok sample_metadata_codec"
  by (simp add: metadata_codec_ok_def sample_metadata_codec_def ununary_unary)

section \<open>A tree with unflushed writes\<close>

definition written_tree :: lsm_tree where
  "written_tree = sample_tree\<lparr>lt_memtable := mt_insert (Key [7]) (Value [1]) (mt_new 0)\<rparr>"

lemma written_tree_ok: "tree_ok x written_tree {#}"
  using write_memtable(1) [OF tree_ok_sample mt_ok_insert [OF mt_ok_new]] by (simp add: written_tree_def)

lemma concat_sample_levels: "concat (replicate 7 ([] :: sst_handle list)) = []"
  by simp

lemma written_tree_simps [simp]:
  "lt_path written_tree = []" "lt_active_dir written_tree = [''active'']" "tree_disk written_tree = sample_disk"
  "st_next_run (lt_store written_tree) = 1" "tree_levels written_tree = replicate 7 []"
  by (simp_all add: written_tree_def sample_tree_def tree_disk_def tree_levels_def sample_store_def sample_world_def)

lemma written_tree_tidy: "tree_tidy written_tree"
  by (simp add: tree_tidy_def concat_sample_levels max_level_default_def nth_replicate)
    (simp add: written_tree_def sample_tree_def)

lemma fits_written: "fits (mt_data (lt_memtable written_tree))"
  by (simp add: written_tree_def mt_insert_def mt_new_def fits_def key_size_def opt_size_def value_size_def)

lemma tree_view_written: "tree_view written_tree = [Key [7] \<mapsto> Value [1]]"
proof -
  have "tree_map written_tree = tree_map sample_tree ++ mt_get (mt_insert (Key [7]) (Value [1]) (mt_new 0))"
    using write_memtable(2,3) [OF tree_ok_sample mt_ok_insert [OF mt_ok_new, of "Key [7]" "Value [1]" 0]]
    by (simp add: written_tree_def sample_tree_def)
  then show ?thesis by (simp add: tree_view_def tree_map_sample fun_eq_iff live_def)
qed

lemma dir_free_sample: "dir_free sample_disk (snapshot_path [] name)"
  by (auto simp: dir_free_def path_exists_contents is_prefix_def snapshot_path_def sample_disk_def file_contents_def)

section \<open>A later session\<close>

text \<open>A process that starts on a disk: no counters, no locks; every name is listed once.\<close>

definition later_session :: "disk \<Rightarrow> session_state" where
  "later_session d = \<lparr>se_world = \<lparr>w_disk = d\<lparr>d_names := AList.clearjunk (d_names d)\<rparr>, w_refs = (\<lambda>_. 0), w_next_arc = 0\<rparr>,
     se_flock = (\<lambda>_. None), se_next_fd = 0\<rparr>"

lemma acquire_granted:
  assumes "\<not> path_exists (lw_disk w) (lock_path dir)" and "dir \<in> set (d_dirs (lw_disk w))"
    and "lw_flock w (d_next (lw_disk w)) = None" and "le_to_json e (lock_info_of e) = Inr json"
  obtains lock l where "acquire e dir w = (Inr lock, l)"
proof -
  have "\<not> holder_alive e dir w"
    using assms(1) by (simp add: holder_alive_def read_lock_info_def fs_read_to_string_def fs_read_def path_exists_contents)
  then have "\<exists>lock l. acquire e dir w = (Inr lock, l)"
    using assms by (simp add: acquire_def acquire_check_eq result_simps acquire_open_def io_bind_def on_lock_disk_def
        fs_create_def fs_fresh_def path_exists_def lock_path_def acquire_flock_def acquire_write_def fs_append_def fs_sync_def)
  then show thesis using that by blast
qed

lemma later_session_ready:
  assumes "disk_ok d" and "active_ready p d" and "\<not> path_exists d (lock_path p)"
  obtains lock l where "session_ready (sample_lock_env 7) p (later_session d) lock l"
proof -
  let ?d = "w_disk (se_world (later_session d))"
  have d: "map_of (d_names ?d) = map_of (d_names d)" "d_dirs ?d = d_dirs d" "d_next ?d = d_next d"
    by (simp_all add: later_session_def map_of_clearjunk)
  have ok: "disk_ok ?d" "names_distinct ?d" "active_ready p ?d" "\<not> path_exists ?d (lock_path p)"
    using assms by (simp_all add: disk_ok_def d active_ready_same path_exists_def names_distinct_def)
      (simp add: later_session_def)
  moreover have "temp_free ?d (lock_path p)" using ok(4) by (simp add: temp_free_def path_exists_def)
  moreover obtain lock l where "acquire (sample_lock_env 7) p (lock_world_of (later_session d)) = (Inr lock, l)"
  proof (rule acquire_granted [of "lock_world_of (later_session d)" p "sample_lock_env 7" "''held''"])
    show "\<not> path_exists (lw_disk (lock_world_of (later_session d))) (lock_path p)"
      "p \<in> set (d_dirs (lw_disk (lock_world_of (later_session d))))"
      using ok(4) active_ready_dirs(3) [OF ok(3)] by (simp_all add: lock_world_of_def)
    show "lw_flock (lock_world_of (later_session d)) (d_next (lw_disk (lock_world_of (later_session d)))) = None"
      by (simp add: lock_world_of_def later_session_def)
  qed (simp_all add: sample_lock_env_def)
  ultimately show thesis by (intro that) (simp add: session_ready_def)
qed

lemma later_session_contents:
  "file_contents (w_disk (se_world (later_session d))) = file_contents d"
  "path_exists (w_disk (se_world (later_session d))) p = path_exists d p"
  by (simp_all add: later_session_def file_contents_def [abs_def] path_exists_def map_of_clearjunk)

section \<open>Two runs on a disk\<close>

lemma fst_numbered: "map fst (numbered n fs) = map fst fs"
  by (induction n fs rule: numbered.induct) simp_all

lemma names_distinct_disk_of: "distinct (map fst fs) \<Longrightarrow> names_distinct (disk_of dirs fs)"
  by (simp add: names_distinct_def disk_of_def fst_numbered)

lemma disk_ok_disk_of:
  assumes "\<forall>p \<in> set dirs. p \<notin> set (map fst fs)"
  shows "disk_ok (disk_of dirs fs)"
proof -
  have "map_of (numbered 0 fs) p = None" if "p \<in> set dirs" for p
  proof -
    have "p \<notin> set (map fst (numbered 0 fs))" using assms that unfolding fst_numbered by blast
    then show ?thesis by (simp add: map_of_eq_None_iff)
  qed
  then show ?thesis using numbered_contents [of fs 0] by (auto simp: disk_ok_def disk_of_def)
qed

lemma fst_stored_files: "map fst (stored_files x dir n es fb ib) = run_files (run_paths_new dir n)"
  by (simp add: stored_files_def run_files_def)

text \<open>The files of two runs with different numbers, side by side in one directory.\<close>

lemma two_runs_stored:
  assumes "n \<noteq> m" and "stored_run x (map_of (stored_files x dir n es1 f1 i1)) (run_paths_new dir n) es1"
    and "stored_run x (map_of (stored_files x dir m es2 f2 i2)) (run_paths_new dir m) es2"
  defines "fs \<equiv> stored_files x dir n es1 f1 i1 @ stored_files x dir m es2 f2 i2"
  shows "stored_run x (map_of fs) (run_paths_new dir n) es1" and "stored_run x (map_of fs) (run_paths_new dir m) es2"
    and "distinct (map fst fs)" and "\<forall>q \<in> set (map fst fs). butlast q = dir"
proof -
  have keys: "fst ` set (stored_files x dir k es fb ib) = set (run_files (run_paths_new dir k))" for k es fb ib
    using arg_cong [OF fst_stored_files [of x dir k es fb ib], of set] by simp
  have disj: "set (run_files (run_paths_new dir n)) \<inter> set (run_files (run_paths_new dir m)) = {}"
    by (rule run_files_disjoint [OF assms(1)])
  have "map_of fs q = map_of (stored_files x dir n es1 f1 i1) q" if "q \<in> set (run_files (run_paths_new dir n))" for q
  proof -
    have "map_of (stored_files x dir m es2 f2 i2) q = None" using disj that keys by (auto simp: map_of_eq_None_iff)
    then show ?thesis by (simp add: fs_def map_add_def split: option.split)
  qed
  with assms(2) show "stored_run x (map_of fs) (run_paths_new dir n) es1" by (rule stored_run_view)
  have "map_of fs q = map_of (stored_files x dir m es2 f2 i2) q" if "q \<in> set (run_files (run_paths_new dir m))" for q
  proof -
    have "map_of (stored_files x dir n es1 f1 i1) q = None" using disj that keys by (auto simp: map_of_eq_None_iff)
    then show ?thesis by (simp add: fs_def map_add_def split: option.split)
  qed
  with assms(3) show "stored_run x (map_of fs) (run_paths_new dir m) es2" by (rule stored_run_view)
  have "distinct (run_files (run_paths_new dir k))" for k by (simp add: run_files_def)
  then show "distinct (map fst fs)" using disj by (simp add: fs_def fst_stored_files)
  show "\<forall>q \<in> set (map fst fs). butlast q = dir"
    by (simp only: fs_def map_append set_append fst_stored_files run_files_new) auto
qed

end
