(* ===== verification/SnapshotProperties.thy ===== *)
theory SnapshotProperties
  imports SnapshotSamples
begin

text \<open>
  What persistent snapshots promise: the life of a snapshot from \<open>save_snapshot\<close> to
  \<open>delete_snapshot\<close>, the map that \<open>open_snapshot\<close> restores, the damage that loading and validating
  find, and the order in which a restored tree is read.
\<close>

section \<open>What keeps a snapshot\<close>

definition kept_below :: "path \<Rightarrow> disk \<Rightarrow> disk \<Rightarrow> bool" where
  "kept_below dir d d' \<longleftrightarrow>
     (\<forall>q. is_prefix dir q \<longrightarrow> path_exists d' q = path_exists d q \<and> file_contents d' q = file_contents d q)"

lemma snapshot_stored_kept:
  assumes "snapshot_stored x mc p name d v" and k: "kept_below (snapshot_path p name) d d'"
  shows "snapshot_stored x mc p name d' v"
proof -
  let ?s = "snapshot_path p name"
  have ex: "path_exists d' ?s = path_exists d ?s"
    using k is_prefix_append [of ?s "[]"] by (simp add: kept_below_def)
  have same: "file_contents d' (?s @ q) = file_contents d (?s @ q)" for q
    using k by (simp add: kept_below_def)
  have md: "metadata_at x ?s bytes (file_contents d') = metadata_at x ?s bytes (file_contents d)" for bytes
    by (simp add: metadata_at_def same)
  have runs: "stored_run x (file_contents d') (run_paths_new ?s n) es" if "stored_run x (file_contents d) (run_paths_new ?s n) es" for n es
    using that by (rule stored_run_moved) (simp add: run_file_def same)
  from assms(1) show ?thesis unfolding snapshot_stored_def ex md by (metis runs)
qed

lemma outside_kept_below:
  assumes "outside (p @ [''active'']) d d'"
  shows "kept_below (snapshot_path p name) d d'"
  unfolding kept_below_def
proof (intro allI impI)
  fix q
  assume "is_prefix (snapshot_path p name) q"
  then have "butlast q \<noteq> p @ [''active'']" using active_not_snapshot(1) by blast
  then show "path_exists d' q = path_exists d q \<and> file_contents d' q = file_contents d q"
    using assms path_exists_outside by (auto simp: outside_def)
qed

lemma drop_handle_outside:
  assumes "h_paths h = run_paths_new dir n" and "disk_ok (w_disk w)"
  shows "outside dir (w_disk w) (w_disk (drop_handle h w))" and "disk_ok (w_disk (drop_handle h w))"
proof -
  have w: "w_disk (drop_handle h w) = w_disk w \<or> w_disk (drop_handle h w) = snd (delete_files h (w_disk w))"
    by (auto simp: drop_handle_def Let_def)
  have "outside dir (w_disk w) (snd (delete_files h (w_disk w)))"
    using delete_files_ok(2) [OF assms(2)] assms(1) by (auto simp: outside_def delete_files_contents run_files_new)
  with w show "outside dir (w_disk w) (w_disk (drop_handle h w))" by auto
  show "disk_ok (w_disk (drop_handle h w))" using w delete_files_ok(1) [OF assms(2)] assms(2) by auto
qed

lemma drop_handles_outside:
  "\<forall>h \<in> set hs. \<exists>n. h_paths h = run_paths_new dir n \<Longrightarrow> disk_ok (w_disk w) \<Longrightarrow>
   outside dir (w_disk w) (w_disk (drop_handles hs w))"
proof (induction hs arbitrary: w)
  case (Cons h hs)
  then obtain n where "h_paths h = run_paths_new dir n" by auto
  note d = drop_handle_outside [OF this Cons.prems(2)]
  from Cons.IH [OF _ d(2)] Cons.prems(1) d(1) show ?case by (auto simp: drop_handles_def intro: outside_trans)
qed (simp add: drop_handles_def)

lemma tree_drop_outside:
  assumes t: "tree_ok x t M"
  shows "outside (lt_active_dir t) (tree_disk t) (tree_disk (tree_drop t))"
proof -
  have "\<forall>h \<in> set (concat (tree_levels t)). \<exists>n. h_paths h = run_paths_new (lt_active_dir t) n"
    using tree_ok_run(1) [OF t] by blast
  moreover have "disk_ok (w_disk (st_world (lt_store t)))" using t by (simp add: tree_ok_def store_ok_def runs_ok_def)
  ultimately show ?thesis using drop_handles_outside by (simp add: tree_drop_def drop_in_def tree_disk_def)
qed

section \<open>Checking a snapshot\<close>

text \<open>The checksums file can be read and agrees with the four components.\<close>

definition run_intact :: "codecs \<Rightarrow> disk \<Rightarrow> path \<Rightarrow> nat \<Rightarrow> bool" where
  "run_intact x d dir n \<longleftrightarrow> (\<exists>cs. read_checksums_file (run_file dir n ''checksums'') d = Inr cs
     \<and> (\<forall>name \<in> {''keyops'', ''blobs'', ''filter'', ''index''}. \<exists>bs.
          file_contents d (run_file dir n name) = Some bs \<and> map_of cs name = Some (cd_crc x bs)))"

lemma validate_component_iff:
  "validate_component x cs name p d = Inr () \<longleftrightarrow>
     (\<exists>bs. file_contents d p = Some bs \<and> map_of cs name = Some (cd_crc x bs))"
  by (auto simp: validate_component_def get_checksum_def result_simps check_crc_iff split: option.splits)

lemma read_checksums_exists: "read_checksums_file p d = Inr cs \<Longrightarrow> path_exists d p"
  by (auto simp: read_checksums_file_def fs_read_to_string_def fs_read_def path_exists_contents result_simps
      split: option.splits)

lemma validate_run_iff: "validate_run x dir n d = Inr () \<longleftrightarrow> run_intact x d dir n"
proof
  assume "validate_run x dir n d = Inr ()"
  then show "run_intact x d dir n"
    by (auto simp: validate_run_def Let_def run_intact_def result_simps validate_component_iff split: if_splits)
next
  assume "run_intact x d dir n"
  then obtain cs where cs: "read_checksums_file (run_file dir n ''checksums'') d = Inr cs"
      "\<forall>name \<in> {''keyops'', ''blobs'', ''filter'', ''index''}. \<exists>bs.
          file_contents d (run_file dir n name) = Some bs \<and> map_of cs name = Some (cd_crc x bs)"
    by (auto simp: run_intact_def)
  then have "filter (\<lambda>p. \<not> path_exists d p) (run_files (run_paths_new dir n)) = []"
    using read_checksums_exists [OF cs(1)] by (auto simp: run_files_def path_exists_contents)
  with cs show "validate_run x dir n d = Inr ()"
    by (simp add: validate_run_def Let_def result_simps validate_component_iff)
qed

lemma validate_runs_iff: "validate_runs x dir rs d = Inr () \<longleftrightarrow> (\<forall>r \<in> set rs. run_intact x d dir (sr_run_number r))"
  by (induction rs) (auto simp: result_simps validate_run_iff)

lemma stored_run_intact:
  assumes "codecs_ok x" and "stored_run x (file_contents d) (run_paths_new dir n) es"
  shows "run_intact x d dir n"
proof -
  let ?w = "\<lparr>w_disk = d, w_refs = (\<lambda>_. 0), w_next_arc = 0\<rparr>"
  have "stored_run x (file_contents (w_disk ?w)) (run_paths_new dir n) es" using assms(2) by simp
  from sst_open_total [OF assms(1) this] obtain h where "sst_open x dir n ?w = (Inr h, snd (new_arc ?w))" by blast
  from sst_open_verified [OF this] show ?thesis by (simp add: run_intact_def)
qed

lemma snapshot_stored_loads:
  assumes "codecs_ok x" and "snapshot_stored x mc p name d v"
  obtains sn where "ps_load x mc p name d = Inr sn" and "ps_path sn = snapshot_path p name" and "ps_validate x sn d = Inr ()"
proof -
  obtain md bytes where md: "path_exists d (snapshot_path p name)"
      "metadata_at x (snapshot_path p name) bytes (file_contents d)" "mc_from_cbor mc bytes = Inr md"
      "\<forall>r \<in> set (sm_runs md). \<exists>es. stored_run x (file_contents d) (run_paths_new (snapshot_path p name) (sr_run_number r)) es"
    using assms(2) unfolding snapshot_stored_def by metis
  let ?sn = "\<lparr>ps_name = name, ps_path = snapshot_path p name, ps_metadata = md\<rparr>"
  have "ps_validate x ?sn d = Inr ()"
    using md(4) stored_run_intact [OF assms(1)] by (auto simp: ps_validate_def validate_runs_iff)
  with ps_load_ok [OF md(1-3)] show thesis by (intro that [of ?sn]) simp_all
qed

section \<open>The life of a snapshot\<close>

lemma list_snapshots_member:
  assumes "p @ [''snapshots''] \<in> set (d_dirs d)" and "snapshot_path p name \<in> set (d_dirs d)"
  obtains names where "list_snapshots p d = Inr names" and "name \<in> set names" and "sorted names"
proof -
  let ?qs = "filter (child_of (p @ [''snapshots''])) (d_dirs d)"
  have "snapshot_path p name \<in> set ?qs" using assms(2) by (simp add: child_of_def snapshot_path_def butlast_append)
  then have "name \<in> set (map last ?qs)" by (force simp: snapshot_path_def)
  then show thesis using assms(1)
    by (intro that [of "sort (map last ?qs)"]) (simp_all add: list_snapshots_def path_exists_def fs_read_dir_dirs_def)
qed

lemma remove_dir_contents:
  assumes "fs_remove_dir_all p d = (Inr (), d')"
  shows "file_contents d' q = (if is_prefix p q then None else file_contents d q)"
    and "path_exists d' q \<longleftrightarrow> \<not> is_prefix p q \<and> path_exists d q"
    and "disk_ok d \<Longrightarrow> disk_ok d'"
proof -
  have d': "d' = d\<lparr>d_names := filter (\<lambda>(q, i). \<not> is_prefix p q) (d_names d), d_dirs := filter (\<lambda>q. \<not> is_prefix p q) (d_dirs d)\<rparr>"
    using assms by (auto simp: fs_remove_dir_all_def split: if_splits)
  have lookup: "map_of (d_names d') q = (if is_prefix p q then None else map_of (d_names d) q)" for q
    using map_of_filter_out [of "Collect (is_prefix p)" "d_names d" q] by (simp add: d')
  show "file_contents d' q = (if is_prefix p q then None else file_contents d q)"
    using lookup [of q] by (simp add: file_contents_def d')
  show "path_exists d' q \<longleftrightarrow> \<not> is_prefix p q \<and> path_exists d q"
    using lookup [of q] by (auto simp: path_exists_def d')
  show "disk_ok d'" if "disk_ok d" using that lookup by (auto simp: disk_ok_def) (auto simp: d')
qed

lemma delete_snapshot_ok:
  assumes t: "tree_ok x t M" and path: "lt_active_dir t = lt_path t @ [''active'']"
    and load: "ps_load x mc (lt_path t) name (tree_disk t) = Inr sn" "ps_path sn = snapshot_path (lt_path t) name"
    and dir: "snapshot_path (lt_path t) name \<in> set (d_dirs (tree_disk t))"
  obtains t' where "delete_snapshot x mc name t = (Inr (), t')" and "tree_ok x t' M" and "tree_map t' = tree_map t"
    and "ps_load x mc (lt_path t) name (tree_disk t') = Inl (InvalidOperation (''Snapshot does not exist: '' @ name))"
proof -
  let ?dir = "snapshot_path (lt_path t) name"
  obtain d' where d': "fs_remove_dir_all ?dir (tree_disk t) = (Inr (), d')"
    using dir by (simp add: fs_remove_dir_all_def)
  let ?t = "t\<lparr>lt_store := (lt_store t)\<lparr>st_world := (st_world (lt_store t))\<lparr>w_disk := d'\<rparr>\<rparr>\<rparr>"
  note rm = remove_dir_contents [OF d']
  have ok: "disk_ok (tree_disk t)" using t by (simp add: tree_ok_def store_ok_def runs_ok_def tree_disk_def)
  have side: "path_exists d' q = path_exists (tree_disk t) q \<and> file_contents d' q = file_contents (tree_disk t) q"
    if "butlast q = lt_active_dir t" for q
    using active_not_snapshot(1) [of q "lt_path t" name] that path rm(1,2) [of q] by simp
  have "\<not> is_prefix ?dir (lt_active_dir t)" by (simp add: path is_prefix_def snapshot_path_def)
  then have dirs: "lt_active_dir t \<in> set (d_dirs d')" if "lt_active_dir t \<in> set (d_dirs (tree_disk t))"
    using that d' by (auto simp: fs_remove_dir_all_def split: if_splits)
  have "delete_snapshot x mc name t = (Inr (), ?t)"
    using load d'
    by (simp add: delete_snapshot_def result_simps ps_delete_def on_store_def on_world_def on_disk_def tree_disk_def)
  moreover have "tree_ok x ?t M" and maps: "\<And>h. h \<in> set (concat (tree_levels t)) \<Longrightarrow> run_map d' h = run_map (tree_disk t) h"
    using tree_ok_other_files [OF t rm(3) [OF ok]] side dirs by auto
  moreover have "tree_map ?t = tree_map t"
    using levels_map_cong [of "tree_levels t" d' "tree_disk t"] maps
    by (simp add: tree_map_def store_map_def tree_disk_def tree_levels_def)
  moreover have "\<not> path_exists d' ?dir" using rm(2) [of ?dir] is_prefix_append [of ?dir "[]"] by simp
  then have "ps_load x mc (lt_path t) name d' = Inl (InvalidOperation (''Snapshot does not exist: '' @ name))"
    by (simp add: ps_load_def)
  ultimately show thesis by (intro that [of ?t]) (simp_all add: tree_disk_def)
qed



section \<open>Restoring\<close>



section \<open>Damage\<close>

text \<open>
  C38. Damage is found. When the checksum that stands beside the metadata is not the one of its
  bytes, loading the snapshot answers \<open>Corruption\<close>. When it is, and the bytes decode, the snapshot
  loads, and validating it succeeds exactly if every run is intact: its checksums file can be
  read and states the checksum of each of the four other files.
\<close>

theorem snapshot_damage_found:
  assumes "path_exists d (snapshot_path p name)"
    and bytes: "file_contents d (snapshot_path p name @ [''metadata'']) = Some bytes"
    and hex: "file_contents d (snapshot_path p name @ [''metadata.checksum'']) = Some (string_bytes (crc_to_hex w))"
    and decode: "mc_from_cbor mc bytes = Inr md"
  shows "(w \<noteq> cd_crc x bytes \<longrightarrow>
      ps_load x mc p name d = Inl (Corruption (''Snapshot metadata checksum mismatch: '' @ name)))
    \<and> (w = cd_crc x bytes \<longrightarrow> (\<exists>sn. ps_load x mc p name d = Inr sn \<and> ps_metadata sn = md
        \<and> (ps_validate x sn d = Inr () \<longleftrightarrow>
             (\<forall>r \<in> set (sm_runs md). run_intact x d (snapshot_path p name) (sr_run_number r)))))"
proof -
  have "fs_read_to_string (snapshot_path p name @ [''metadata.checksum'']) d = Inr (crc_to_hex w)"
    using hex string_bytes_ascii [OF is_ascii_hex] bytes_string_bytes by (simp add: fs_read_to_string_def fs_read_def)
  then have "ps_load x mc p name d =
      (if cd_crc x bytes \<noteq> w then Inl (Corruption (''Snapshot metadata checksum mismatch: '' @ name))
       else Inr \<lparr>ps_name = name, ps_path = snapshot_path p name, ps_metadata = md\<rparr>)"
    using assms by (simp add: ps_load_def fs_read_def trim_hex crc_from_hex_to_hex crc_hash_def Let_def)
  then show ?thesis by (auto simp: ps_validate_def validate_runs_iff)
qed

theorem snapshot_damage_found_witness:
  "\<exists>d sn. ps_load sample_codecs sample_metadata_codec [] ''s'' d = Inr sn \<and> ps_validate sample_codecs sn d \<noteq> Inr ()"
proof -
  let ?s = "snapshot_path [] ''s''" and ?x = sample_codecs
  let ?md = "\<lparr>sm_version = 1, sm_label = ''l'', sm_config = default_config, sm_runs =
      [\<lparr>sr_run_number = 1, sr_min_key = [7], sr_max_key = [7], sr_num_entries = 1, sr_level = 0\<rparr>], sm_sequence_number = 0\<rparr>"
  obtain bytes where bytes: "mc_from_cbor sample_metadata_codec bytes = Inr ?md"
    using sample_metadata_codec_ok unfolding metadata_codec_ok_def by blast
  let ?d = "disk_of [?s] [(?s @ [''metadata''], bytes), (?s @ [''metadata.checksum''], string_bytes (crc_to_hex (cd_crc ?x bytes)))]"
  have "path_exists ?d ?s" by (simp add: path_exists_def disk_of_def)
  note damage = snapshot_damage_found [OF this _ _ bytes, of "cd_crc ?x bytes" ?x]
  have "run_file ?s 1 ''keyops'' \<noteq> ?s @ [''metadata'']" "run_file ?s 1 ''keyops'' \<noteq> ?s @ [''metadata.checksum'']"
    by (rule run_file_not_metadata, simp add: components_def)+
  then have "\<not> run_intact ?x ?d ?s 1" by (simp add: run_intact_def)
  with damage show ?thesis by simp blast
qed

section \<open>Reading a restored tree\<close>

lemma organize_first:
  "\<forall>h \<in> set hs. h_level h = 0 \<Longrightarrow> concat (map rev (organize_levels hs)) = rev (sort_key h_min_key hs)"
proof -
  assume zero: "\<forall>h \<in> set hs. h_level h = 0"
  have "filter (\<lambda>h. h_level h = i) hs = []" if "i \<in> set [1..<Suc max_level_default]" for i
    using zero that by (auto simp: filter_empty_conv)
  then have "concat (map rev (map (\<lambda>i. sort_key h_min_key (filter (\<lambda>h. h_level h = i) hs)) [1..<Suc max_level_default])) = []"
    by (simp del: upt_Suc)
  moreover have "filter (\<lambda>h. h_level h = 0) hs = hs" using zero by (simp add: filter_id_conv)
  ultimately show ?thesis by (simp add: organize_levels_def upt_conv_Cons del: upt_Suc)
qed

text \<open>
  C39. A restored tree can answer with an overwritten value. The runs of a level are sorted by
  their least key when a snapshot is opened, while a lookup takes the last run of a level for
  the newest one. With two runs in L0 of which the newer one starts at a smaller key, a key they
  share is looked up in the older run first: \<open>get\<close> gives the value that was overwritten, although
  the tree stands for the new one, which a range query gives.
\<close>

theorem restored_get_stale:
  assumes codecs: "codecs_ok x" and disk: "disk_ok (w_disk w)" "names_distinct (w_disk w)" "active_ready p (w_disk w)"
    and runs: "sm_runs md = [r1, r2]" "sr_level r1 = 0" "sr_level r2 = 0"
    and nums: "sr_run_number r1 < sr_run_number r2" "Suc (sr_run_number r2) < 2 ^ 64"
    and stored: "stored_run x (file_contents (w_disk w)) (run_paths_new (snapshot_path p name) (sr_run_number r1)) es1"
      "stored_run x (file_contents (w_disk w)) (run_paths_new (snapshot_path p name) (sr_run_number r2)) es2"
    and order: "fst (hd es2) < fst (hd es1)" and k: "bt_get es1 k = Some (Some v1)" "bt_get es2 k = Some (Some v2)"
  shows "\<exists>t w'. restore_snapshot x p name md w = (Inr t, w') \<and> tree_ok x t {#}
    \<and> tree_view t k = Some v2 \<and> tree_get x t k = Inr (Some v1)"
proof -
  let ?n1 = "sr_run_number r1" and ?n2 = "sr_run_number r2"
  let ?f = "\<lambda>n. if n = ?n1 then es1 else es2"
  have f: "?f ?n1 = es1" "?f ?n2 = es2" using nums(1) by simp_all
  obtain t w' hs where t: "restore_snapshot x p name md w = (Inr t, w')" "tree_ok x t {#}"
      "tree_view t = live (runs_map (\<lambda>n. bt_get (?f n)) (sm_runs md))" "lt_memtable t = mt_new (sm_sequence_number md)"
      "tree_levels t = organize_levels hs" "list_all2 (opened x (tree_disk t) (p @ [''active'']) ?f) (sm_runs md) hs"
  proof (rule restore_snapshot_ok [OF codecs disk, of md name ?f])
    show "\<forall>r \<in> set (sm_runs md). sr_level r \<le> max_level_default \<and> Suc (sr_run_number r) < 2 ^ 64
        \<and> stored_run x (file_contents (w_disk w)) (run_paths_new (snapshot_path p name) (sr_run_number r)) (?f (sr_run_number r))"
      using runs nums stored f by auto
  qed (use runs nums in \<open>auto simp: max_level_default_def\<close>)
  obtain h1 h2 where hs: "hs = [h1, h2]" "table_ok x (tree_disk t) h1 es1" "table_ok x (tree_disk t) h2 es2"
      "h_level h1 = 0" "h_level h2 = 0"
    using t(6) runs f by (auto simp: list_all2_Cons1 opened_def)
  have keys: "h_min_key h2 < h_min_key h1" using hs order by (simp add: table_ok_def)
  then have "sort_key h_min_key hs = [h2, h1]" using hs(1) by simp
  then have searched: "concat (map rev (tree_levels t)) = [h1, h2]" using organize_first [of hs] hs t(5) by simp
  have "present x (tree_disk t) (concat (tree_levels t))" by (rule tree_runs_present [OF t(2)]) simp
  note search = search_levels_eq [OF this, of k, unfolded searched]
  have "run_map (tree_disk t) h1 = bt_get es1" using hs(2) by (simp add: run_map_def entries_of_ok)
  then have "search_levels x (tree_disk t) (tree_levels t) k = Inr (Some v1)" using search k(1) by simp
  then have "tree_get x t k = Inr (Some v1)"
    using t(2,4) by (simp add: tree_get_def search_memtables_eq memtables_map_def tree_ok_def)
  moreover have "tree_view t k = Some v2"
  proof -
    have "numbers_map (\<lambda>n. bt_get (?f n)) [?n1, ?n2] k = Some (Some v2)"
      using nums(1) k(2) by (simp add: numbers_map_def map_add_Some_iff)
    then have "runs_map (\<lambda>n. bt_get (?f n)) (sm_runs md) k = Some (Some v2)"
      using runs by (simp add: runs_map_def upt_conv_Cons map_add_Some_iff del: upt_Suc)
    then show ?thesis by (simp add: t(3) live_def)
  qed
  ultimately show ?thesis using t(1,2) by blast
qed

theorem restored_get_stale_witness:
  "\<exists>md w t w'. restore_snapshot sample_codecs [] ''s'' md w = (Inr t, w')
     \<and> tree_view t (Key [7]) = Some (Value [2]) \<and> tree_get sample_codecs t (Key [7]) = Inr (Some (Value [1]))"
proof -
  let ?x = sample_codecs and ?s = "snapshot_path [] ''s''"
  let ?es1 = "[(Key [7], Some (Value [1]))]" and ?es2 = "[(Key [3], Some (Value [0])), (Key [7], Some (Value [2]))]"
  let ?r = "\<lambda>n. \<lparr>sr_run_number = n, sr_min_key = [], sr_max_key = [], sr_num_entries = 1, sr_level = 0\<rparr>"
  let ?md = "\<lparr>sm_version = 1, sm_label = ''l'', sm_config = default_config, sm_runs = [?r 1, ?r 2], sm_sequence_number = 0\<rparr>"
  have fine: "table_fine ?es1" "table_fine ?es2"
    by (simp_all add: table_fine_def bt_wf_def fits_def key_size_def opt_size_def value_size_def less_key_def)
  obtain f1 i1 where s1: "stored_run ?x (map_of (stored_files ?x ?s 1 ?es1 f1 i1)) (run_paths_new ?s 1) ?es1"
    by (rule stored_files_run [OF fine(1) sample_codecs_total])
  obtain f2 i2 where s2: "stored_run ?x (map_of (stored_files ?x ?s 2 ?es2 f2 i2)) (run_paths_new ?s 2) ?es2"
    by (rule stored_files_run [OF fine(2) sample_codecs_total])
  let ?fs = "stored_files ?x ?s 1 ?es1 f1 i1 @ stored_files ?x ?s 2 ?es2 f2 i2"
  have "(1 :: nat) \<noteq> 2" by simp
  note two = two_runs_stored [OF this s1 s2]
  let ?dirs = "[[], [''active''], [''snapshots''], ?s]"
  let ?w = "\<lparr>w_disk = disk_of ?dirs ?fs, w_refs = (\<lambda>_. 0), w_next_arc = 0\<rparr>"
  have "butlast q \<noteq> ?s" if "q \<in> set ?dirs" for q using that by (auto simp: snapshot_path_def)
  then have "\<forall>q \<in> set ?dirs. q \<notin> set (map fst ?fs)" using two(4) by blast
  then have "disk_ok (disk_of ?dirs ?fs)" by (rule disk_ok_disk_of)
  then have "disk_ok (w_disk ?w)" by simp
  moreover have "names_distinct (w_disk ?w)" using names_distinct_disk_of [OF two(3), of ?dirs] by (simp only: world.select_convs)
  moreover have "active_ready [] (w_disk ?w)"
    by (simp add: active_ready_def dir_there_def path_prefixes_def disk_of_def snapshot_path_def)
  ultimately show ?thesis
    using restored_get_stale [of ?x ?w "[]" ?md "?r 1" "?r 2" "''s''" ?es1 ?es2 "Key [7]" "Value [1]" "Value [2]"] two(1,2)
    by (auto simp: bt_get_def less_key_def)
qed

end
