(* ===== verification/ReopenProperties.thy ===== *)
theory ReopenProperties
  imports SnapshotSamples CompactionProperties
begin

text \<open>
  Opening a tree on the files an earlier process left behind. \<open>open\<close> finds the runs by the names
  of their files, puts every one of them into L0 and orders them by number; what that restores,
  and when it is what the earlier tree stood for.
\<close>

section \<open>Run numbers in file names\<close>

lemma name_parts:
  assumes "CHR ''.'' \<notin> set e" and "s \<noteq> []"
  shows "file_extension (s @ CHR ''.'' # e) = Some e" and "file_stem (s @ CHR ''.'' # e) = s"
proof -
  have "dropWhile (\<lambda>c. c \<noteq> CHR ''.'') (rev (s @ CHR ''.'' # e)) = CHR ''.'' # rev s"
    using assms(1) by (auto simp: dropWhile_append)
  moreover have "takeWhile (\<lambda>c. c \<noteq> CHR ''.'') (rev (s @ CHR ''.'' # e)) = rev e"
    using assms(1) takeWhile_no [of "CHR ''.''" "rev e" "rev s"] by simp
  ultimately show "file_extension (s @ CHR ''.'' # e) = Some e" "file_stem (s @ CHR ''.'' # e) = s"
    using assms(2) by (simp_all add: file_extension_def file_stem_def)
qed

lemma fmt_05_nonempty [simp]: "fmt_05 n \<noteq> []"
  by (simp add: fmt_05_def pad_zero_def fmt_radix_def)

lemma keyops_run_file:
  assumes "e \<in> set run_exts" and "n < 2 ^ 64"
  shows "keyops_run (last (run_file dir n e)) = (if e = ''keyops'' then Some n else None)"
proof (cases "e \<in> set components")
  case True
  then have dot: "CHR ''.'' \<notin> set e" by (rule components_no_dot)
  have "last (run_file dir n e) = fmt_05 n @ CHR ''.'' # e" by (simp add: run_file_def)
  then show ?thesis
    using from_str_radix_fmt_05 [OF assms(2)]
    by (simp only: keyops_run_def name_parts [OF dot fmt_05_nonempty]) simp
next
  case False
  then have e: "e = ''checksum.tmp''" using assms(1) by (auto simp: run_exts_eq)
  have "file_extension ((fmt_05 n @ ''.checksum'') @ CHR ''.'' # ''tmp'') = Some ''tmp''" by (rule name_parts) simp_all
  then show ?thesis by (simp add: e keyops_run_def run_file_def)
qed

text \<open>The numbers found in a directory that holds the files of some runs and nothing else.\<close>

definition only_runs :: "disk \<Rightarrow> path \<Rightarrow> nat set \<Rightarrow> bool" where
  "only_runs d dir N \<longleftrightarrow>
     (\<forall>q. butlast q = dir \<longrightarrow> path_exists d q \<longrightarrow> (\<exists>n \<in> N. \<exists>e \<in> set run_exts. q = run_file dir n e))"

lemma distinct_map_filter:
  assumes "distinct xs" and "\<And>x y z. x \<in> set xs \<Longrightarrow> y \<in> set xs \<Longrightarrow> f x = Some z \<Longrightarrow> f y = Some z \<Longrightarrow> x = y"
  shows "distinct (List.map_filter f xs)"
  using assms
proof (induction xs)
  case (Cons x xs)
  have rest: "distinct (List.map_filter f xs)" using Cons by auto
  show ?case
  proof (cases "f x")
    case (Some z)
    have "f y \<noteq> Some z" if "y \<in> set xs" for y using Cons.prems(2) [of x y z] Cons.prems(1) Some that by auto
    then have "z \<notin> set (List.map_filter f xs)" by (auto simp: map_filter_def)
    with rest Some show ?thesis by (simp add: map_filter_simps)
  qed (use rest in \<open>simp add: map_filter_simps\<close>)
qed (simp add: map_filter_simps)

lemma in_map_filter: "y \<in> set (List.map_filter g (map h qs)) \<longleftrightarrow> (\<exists>q \<in> set qs. g (h q) = Some y)"
  by (induction qs) (auto simp: map_filter_simps split: option.splits)

lemma found_runs:
  assumes names: "names_distinct d" and ready: "active_ready p d" and only: "only_runs d (p @ [''active'']) N"
    and bound: "\<forall>n \<in> N. n < 2 ^ 64" and there: "\<forall>n \<in> N. file_contents d (run_file (p @ [''active'']) n ''keyops'') \<noteq> None"
  obtains ls where "dir_entries (p @ [''active'']) d = Inr ls" and "set (List.map_filter keyops_run ls) = N"
    and "distinct (List.map_filter keyops_run ls)"
proof -
  let ?a = "p @ [''active'']"
  let ?qs = "filter (child_of ?a) (map fst (d_names d))"
  let ?ls = "map last ?qs"
  have "filter (child_of ?a) (d_dirs d) = []"
    using ready by (auto simp: filter_empty_conv active_ready_def child_of_def)
  then have entries: "dir_entries ?a d = Inr ?ls"
    using active_ready_dirs(1) [OF ready] by (simp add: dir_entries_def fs_read_dir_files_def fs_read_dir_dirs_def)
  have child: "q = ?a @ [last q] \<and> butlast q = ?a \<and> file_contents d q \<noteq> None" if "q \<in> set ?qs" for q
  proof -
    have q: "q \<noteq> []" "butlast q = ?a" "q \<in> fst ` set (d_names d)" using that by (auto simp: child_of_def)
    have "q = ?a @ [last q]" using append_butlast_last_id [OF q(1)] unfolding q(2) by (rule sym)
    with q show ?thesis by (simp add: file_contents_def map_of_eq_None_iff)
  qed
  have of_run: "\<exists>n \<in> N. \<exists>e \<in> set run_exts. q = run_file ?a n e" if "q \<in> set ?qs" for q
    using only child [OF that] by (auto simp: only_runs_def path_exists_contents)
  have run: "keyops_run (last q) = Some n \<longleftrightarrow> n \<in> N \<and> q = run_file ?a n ''keyops''" if "q \<in> set ?qs" for q n
  proof -
    obtain m e where m: "m \<in> N" "e \<in> set run_exts" "q = run_file ?a m e" using of_run [OF \<open>q \<in> set ?qs\<close>] by blast
    have "keyops_run (last q) = (if e = ''keyops'' then Some m else None)"
      unfolding m(3) using m(1,2) bound by (intro keyops_run_file) auto
    moreover have "run_file ?a m ''keyops'' = run_file ?a n ''keyops'' \<longleftrightarrow> m = n" by (auto simp: run_file_def)
    moreover have "q \<noteq> run_file ?a n ''keyops''" if "e \<noteq> ''keyops''"
      using that m(2) run_file_exts_other [of m n e "''keyops''" ?a] unfolding m(3)
      by (cases "m = n") (auto simp: run_exts_def)
    ultimately show ?thesis using m by auto
  qed
  have "y \<in> set (List.map_filter keyops_run ?ls) \<longleftrightarrow> y \<in> N" for y
  proof -
    have "run_file ?a n ''keyops'' \<in> set ?qs" if "n \<in> N" for n
    proof -
      have "run_file ?a n ''keyops'' \<in> fst ` set (d_names d)"
        using there that by (auto simp: file_contents_def map_of_eq_None_iff)
      then show ?thesis by (simp add: child_of_def run_file_def butlast_append)
    qed
    with run show ?thesis unfolding in_map_filter by blast
  qed
  then have "set (List.map_filter keyops_run ?ls) = N" by blast
  moreover have "distinct (List.map_filter keyops_run ?ls)"
  proof (rule distinct_map_filter)
    have "inj_on last (set ?qs)"
    proof (rule inj_onI)
      fix u v
      assume "u \<in> set ?qs" and v: "v \<in> set ?qs" and eq: "last u = last v"
      then have "u = ?a @ [last u]" using child by blast
      also have "\<dots> = ?a @ [last v]" by (simp only: eq)
      also have "\<dots> = v" using child [OF v] by (rule conjunct1 [THEN sym])
      finally show "u = v" .
    qed
    moreover have "distinct ?qs" using names by (simp add: names_distinct_def)
    ultimately show "distinct ?ls" by (simp add: distinct_map)
  next
    fix u v n
    assume "u \<in> set ?ls" "v \<in> set ?ls" and n: "keyops_run u = Some n" "keyops_run v = Some n"
    then obtain q r where q: "q \<in> set ?qs" "r \<in> set ?qs" "u = last q" "v = last r" unfolding set_map by blast
    then have "q = run_file ?a n ''keyops''" "r = run_file ?a n ''keyops''" using run n by blast+
    then show "u = v" using q by simp
  qed
  ultimately show thesis using entries by (intro that)
qed

section \<open>Opening\<close>

text \<open>The entry of a snapshot that stands for a run found by its number: every run is put into L0.\<close>

definition l0_run :: "nat \<Rightarrow> snapshot_run" where
  "l0_run n = \<lparr>sr_run_number = n, sr_min_key = [], sr_max_key = [], sr_num_entries = 0, sr_level = 0\<rparr>"

lemma l0_run_simps [simp]: "sr_run_number (l0_run n) = n" "sr_level (l0_run n) = 0"
  by (simp_all add: l0_run_def)

lemma map_l0_run [simp]: "map sr_run_number (map l0_run ns) = ns"
  by (simp add: map_idI)

lemma load_open_runs:
  assumes "codecs_ok x" and "\<forall>n \<in> set ns. \<exists>es. stored_run x (file_contents (w_disk w)) (run_paths_new a n) es"
  shows "load_runs x a ns acc w = open_runs x a (map l0_run ns) acc w"
  using assms(2)
proof (induction ns arbitrary: acc w)
  case (Cons n ns)
  then obtain es where "stored_run x (file_contents (w_disk w)) (run_paths_new a n) es" by auto
  from sst_open_total [OF assms(1) this] obtain h where h: "sst_open x a n w = (Inr h, snd (new_arc w))" "h_level h = 0"
    by blast
  have "w_disk (snd (new_arc w)) = w_disk w" by (simp add: new_arc_def)
  with Cons.IH [of "snd (new_arc w)"] Cons.prems
  have "load_runs x a ns (acc @ [h]) (snd (new_arc w)) = open_runs x a (map l0_run ns) (acc @ [h]) (snd (new_arc w))" by simp
  moreover have "h\<lparr>h_level := 0\<rparr> = h" using h(2) by simp
  ultimately show ?case using h(1) by simp
qed simp

lemma runs_map_l0: "runs_map f (map l0_run ns) = numbers_map f ns"
proof -
  have rest: "overlay (map (\<lambda>i. numbers_map f (map sr_run_number (filter (\<lambda>r. sr_level r = i) (map l0_run ns))))
      [1..<Suc max_level_default]) = Map.empty"
    by (rule overlay_empties) (auto simp: numbers_map_def filter_map comp_def)
  show ?thesis
    using rest by (simp add: runs_map_def upt_conv_Cons filter_map comp_def del: upt_Suc)
qed

lemma organize_l0:
  assumes "list_all2 (opened x d a f) (map l0_run ns) hs"
  shows "\<forall>l \<in> set (tl (organize_levels hs)). l = []"
proof -
  have zero: "h_level h = 0" if h: "h \<in> set hs" for h
  proof -
    obtain r where "r \<in> set (map l0_run ns)" "opened x d a f r h" by (rule opened_run [OF assms h])
    then show ?thesis by (auto simp: opened_def)
  qed
  then have "filter (\<lambda>h. h_level h = i) hs = []" if "i \<in> set [1..<Suc max_level_default]" for i
    using that by (auto simp: filter_empty_conv)
  then show ?thesis by (simp add: organize_levels_def upt_conv_Cons del: upt_Suc)
qed

lemma only_runs_same:
  assumes "only_runs d dir N" and "\<And>q. butlast q = dir \<Longrightarrow> path_exists d' q = path_exists d q"
  shows "only_runs d' dir N"
  using assms by (auto simp: only_runs_def)

text \<open>What is restored is read off the files: the runs that are there, put over each other by number.\<close>

lemma tree_open_ok:
  assumes codecs: "codecs_ok x" and ready: "session_ready e p s lock l"
    and only: "only_runs (w_disk (se_world s)) (p @ [''active'']) N"
    and runs: "\<forall>n \<in> N. Suc n < 2 ^ 64
      \<and> stored_run x (file_contents (w_disk (se_world s))) (run_paths_new (p @ [''active'']) n) (f n)"
  obtains t s' where "tree_open x e p config s = (Inr (lock, t), s')" and "tree_ok x t {#}"
    and "tree_view t = live (numbers_map (\<lambda>n. bt_get (f n)) (sorted_list_of_set N))"
    and "\<forall>l \<in> set (tl (tree_levels t)). l = []" and "lt_path t = p" and "st_world (lt_store t) = se_world s'"
proof -
  let ?d = "w_disk (se_world s)" and ?a = "p @ [''active'']" and ?s = "p @ [''snapshots'']"
  have ok: "disk_ok ?d" "names_distinct ?d" "active_ready p ?d" "temp_free ?d (lock_path p)"
    and lock: "acquire e p (lock_world_of s) = (Inr lock, l)" using ready by (simp_all add: session_ready_def)
  have lw: "lw_disk (lock_world_of s) = ?d" by (simp add: lock_world_of_def)
  note frame = acquire_frame [OF lock, unfolded lw, OF ok(1,4) active_ready_dirs(3) [OF ok(3)]]
  let ?w = "(se_world s)\<lparr>w_disk := lw_disk l\<rparr>"
  have w: "w_disk ?w = lw_disk l" by simp
  have session: "acquire_session e p s = (Inr lock, s\<lparr>se_world := ?w, se_flock := lw_flock l, se_next_fd := lw_next_fd l\<rparr>)"
    using lock by (simp add: acquire_session_def with_lock_world_def)
  have same: "file_contents (lw_disk l) q = file_contents ?d q" if "butlast q = ?a" for q
  proof -
    have "q \<noteq> lock_path p" using that by (auto simp: lock_path_def)
    then show ?thesis using frame(2) by (simp add: same_but_def)
  qed
  have dirs: "d_dirs (lw_disk l) = d_dirs ?d" using frame(2) by (simp add: same_but_def)
  have wok: "disk_ok (lw_disk l)" "names_distinct (lw_disk l)" "active_ready p (lw_disk l)"
    using frame(1) frame(3) [OF ok(2)] active_ready_same [OF ok(3) dirs] by simp_all
  have only': "only_runs (lw_disk l) ?a N"
    by (rule only_runs_same [OF only]) (simp add: path_exists_contents same dirs)
  have stored: "stored_run x (file_contents (lw_disk l)) (run_paths_new ?a n) (f n)" if "n \<in> N" for n
  proof (rule stored_run_moved)
    show "stored_run x (file_contents ?d) (run_paths_new ?a n) (f n)" using runs that by blast
  qed (simp add: same)
  have there: "\<forall>n \<in> N. file_contents (lw_disk l) (run_file ?a n ''keyops'') \<noteq> None"
    using stored_run_files [OF stored] by (simp add: components_def)
  have "\<forall>n \<in> N. n < 2 ^ 64" using runs by auto
  then obtain names where names: "dir_entries ?a (lw_disk l) = Inr names" "set (List.map_filter keyops_run names) = N"
      "distinct (List.map_filter keyops_run names)"
    by (rule found_runs [OF wok(2,3) only' _ there])
  let ?ns = "List.map_filter keyops_run names"
  have "\<forall>r \<in> set (map l0_run ?ns). sr_level r \<le> max_level_default \<and> Suc (sr_run_number r) < 2 ^ 64
      \<and> stored_run x (file_contents (lw_disk l)) (run_paths_new ?a (sr_run_number r)) (f (sr_run_number r))"
    using runs stored by (auto simp: names(2))
  moreover have "length (filter (\<lambda>r. sr_level r = max_level_default) (map l0_run ?ns)) \<le> 1"
    by (simp add: filter_map comp_def max_level_default_def)
  moreover have "\<forall>q. butlast q = ?a \<longrightarrow>
      (\<forall>n \<in> set (map sr_run_number (map l0_run ?ns)). \<forall>e \<in> set run_exts. q \<noteq> run_file ?a n e) \<longrightarrow> \<not> path_exists (lw_disk l) q"
    using only' unfolding only_runs_def map_l0_run names(2) by blast
  moreover have "distinct (map sr_run_number (map l0_run ?ns))" unfolding map_l0_run by (rule names(3))
  ultimately obtain hs w' t where t: "open_runs x ?a (map l0_run ?ns) [] ?w = (Inr hs, w')"
      "finish_open p config 0 (foldl max 0 (map sr_run_number (map l0_run ?ns))) hs w' = (Inr t, w')"
      "st_world (lt_store t) = w'" "tree_ok x t {#}" "tree_view t = live (runs_map (\<lambda>n. bt_get (f n)) (map l0_run ?ns))"
      "lt_path t = p" "tree_levels t = organize_levels hs" "list_all2 (opened x (lw_disk l) ?a f) (map l0_run ?ns) hs"
    by - (rule open_tree_ok [OF codecs, of ?w p "map l0_run ?ns" f config 0, unfolded w,
        OF wok(1) active_ready_dirs(1) [OF wok(3)]])
  have load: "load_runs x ?a ?ns [] ?w = (Inr hs, w')"
    using load_open_runs [OF codecs, of ?ns ?w ?a "[]"] stored t(1) by (auto simp: names(2))
  have there: "dir_there ?d p" "dir_there (lw_disk l) ?a" "dir_there (lw_disk l) ?s"
    using ok(3) wok(3) by (auto simp: active_ready_def dir_there_def path_prefixes_def)
  note d = active_ready_dirs [OF wok(3)]
  have run: "tree_open x e p config s = (Inr (lock, t), s\<lparr>se_world := w', se_flock := lw_flock l, se_next_fd := lw_next_fd l\<rparr>)"
    using create_dir_there [OF ok(1) there(1)] create_dir_there [OF wok(1) there(2)] create_dir_there [OF wok(1) there(3)]
      session fsync_dir_ok [OF d(1)] fsync_dir_ok [OF d(2)] fsync_dir_ok [OF d(3)] names(1) load t(2) [unfolded map_l0_run]
    by (simp add: tree_open_def Let_def result_simps holding_lock_def in_world_def)
  have "numbers_map (\<lambda>n. bt_get (f n)) ?ns = numbers_map (\<lambda>n. bt_get (f n)) (sorted_list_of_set N)"
  proof (rule numbers_map_mset)
    have "finite N" unfolding names(2) [symmetric] by simp
    then show "mset ?ns = mset (sorted_list_of_set N)"
      using names(2,3) by (intro set_eq_iff_mset_eq_distinct [THEN iffD1]) simp_all
  qed
  then have view: "tree_view t = live (numbers_map (\<lambda>n. bt_get (f n)) (sorted_list_of_set N))"
    using t(5) by (simp only: runs_map_l0)
  show thesis by (rule that [OF run t(4) view _ t(6)]) (use organize_l0 [OF t(8)] t(3,7) in simp_all)
qed

section \<open>What reopening restores\<close>

lemma sorted_numbers:
  "distinct ns \<Longrightarrow> numbers_map f (sorted_list_of_set (set ns)) = numbers_map f ns"
  by (rule numbers_map_mset) (simp add: sorted_list_of_set_sort_remdups distinct_remdups_id)

text \<open>
  C40. Opening a tree on the run files that an earlier tree left, with the files of no other run
  beside them, succeeds once the lock is granted. Every run comes back, all of them in L0, so
  the level a run was in is forgotten: the restored value is that of the runs put over each other
  by run number. It is the value the files had in the earlier tree when, from level to level, the
  upper runs have the higher numbers.
\<close>

theorem reopened_by_number:
  assumes t: "tree_ok x t M" "lt_active_dir t = p @ [''active'']" "st_next_run (lt_store t) < 2 ^ 64"
    and nums: "distinct (map h_run_number (concat (tree_levels t)))"
    and codecs: "codecs_ok x" and ready: "session_ready e p s lock l"
    and files: "\<forall>h \<in> set (concat (tree_levels t)). \<forall>q \<in> set (run_files (h_paths h)).
      file_contents (w_disk (se_world s)) q = file_contents (tree_disk t) q"
    and only: "only_runs (w_disk (se_world s)) (p @ [''active'']) (h_run_number ` set (concat (tree_levels t)))"
  shows "\<exists>r s'. tree_open x e p config s = (Inr (lock, r), s') \<and> tree_ok x r {#}
    \<and> (\<forall>lv \<in> set (tl (tree_levels r)). lv = [])
    \<and> tree_view r = live (level_map (tree_disk t) (concat (tree_levels t)))
    \<and> (age_ordered (tree_levels t) \<longrightarrow> tree_view r = live (store_map (lt_store t)))"
proof -
  let ?hs = "concat (tree_levels t)" and ?d = "tree_disk t" and ?a = "p @ [''active'']"
  let ?f = "\<lambda>n. entries_of ?d (inv_into (set ?hs) h_run_number n)"
  have "inj_on h_run_number (set ?hs)" using nums by (simp add: distinct_map)
  then have f: "?f (h_run_number h) = entries_of ?d h" if "h \<in> set ?hs" for h
    using that by (simp add: inv_into_f_f)
  have run: "run_ok x ?d h (entries_of ?d h)" if h: "h \<in> set ?hs" for h
  proof -
    obtain es where "run_ok x ?d h es" using tree_ok_run(3) [OF t(1) h] by blast
    then show ?thesis using entries_of_run by metis
  qed
  have stored: "Suc n < 2 ^ 64 \<and> stored_run x (file_contents (w_disk (se_world s))) (run_paths_new ?a n) (?f n)"
    if "n \<in> h_run_number ` set ?hs" for n
  proof -
    obtain h where h: "h \<in> set ?hs" "n = h_run_number h" using \<open>n \<in> h_run_number ` set ?hs\<close> by blast
    have paths: "h_paths h = run_paths_new ?a n" using tree_ok_run(1) [OF t(1) h(1)] by (simp add: t(2) h(2))
    have "stored_run x (file_contents ?d) (h_paths h) (?f n)" using run [OF h(1)] f [OF h(1)] by (simp only: run_ok_def h(2))
    then have "stored_run x (file_contents (w_disk (se_world s))) (h_paths h) (?f n)"
      by (rule stored_run_view) (use files h(1) in blast)
    moreover have "Suc n < 2 ^ 64" using tree_ok_run(2) [OF t(1) h(1)] t(3) h(2) by simp
    ultimately show ?thesis by (simp only: paths)
  qed
  then have all: "\<forall>n \<in> h_run_number ` set ?hs. Suc n < 2 ^ 64
      \<and> stored_run x (file_contents (w_disk (se_world s))) (run_paths_new ?a n) (?f n)" by blast
  obtain r s' where r: "tree_open x e p config s = (Inr (lock, r), s')" "tree_ok x r {#}"
      "tree_view r = live (numbers_map (\<lambda>n. bt_get (?f n)) (sorted_list_of_set (h_run_number ` set ?hs)))"
      "\<forall>lv \<in> set (tl (tree_levels r)). lv = []"
    by (rule tree_open_ok [OF codecs ready only all])
  have "level_map ?d ?hs = numbers_map (\<lambda>n. bt_get (?f n)) (map h_run_number ?hs)"
  proof (rule level_map_numbers, rule ballI)
    fix h
    assume "h \<in> set ?hs"
    from f [OF this] show "run_map ?d h = bt_get (?f (h_run_number h))" by (simp only: run_map_def)
  qed
  also have "\<dots> = numbers_map (\<lambda>n. bt_get (?f n)) (sorted_list_of_set (set (map h_run_number ?hs)))"
    by (rule sorted_numbers [OF nums, symmetric])
  finally have view: "tree_view r = live (level_map ?d ?hs)" by (simp only: r(3) set_map)
  moreover have "tree_view r = live (store_map (lt_store t))" if "age_ordered (tree_levels t)"
    using age_ordered_map [OF that, of ?d] view by (simp add: store_map_def tree_levels_def tree_disk_def)
  ultimately show ?thesis using r(1,2,4) by blast
qed

text \<open>A disk that holds the run files of a tree and nothing else.\<close>

definition left_behind :: "lsm_tree \<Rightarrow> disk" where
  "left_behind t = disk_of [[], [''active''], [''snapshots'']]
     (map (\<lambda>q. (q, the (file_contents (tree_disk t) q))) (concat (map (run_files \<circ> h_paths) (concat (tree_levels t)))))"

lemma left_behind_ok:
  assumes t: "tree_ok x t M" and active: "lt_active_dir t = [''active'']"
  shows "disk_ok (left_behind t)" and "active_ready [] (left_behind t)" and "\<not> path_exists (left_behind t) (lock_path [])"
    and "\<And>h q. h \<in> set (concat (tree_levels t)) \<Longrightarrow> q \<in> set (run_files (h_paths h)) \<Longrightarrow>
      file_contents (left_behind t) q = file_contents (tree_disk t) q"
    and "only_runs (left_behind t) [''active''] (h_run_number ` set (concat (tree_levels t)))"
proof -
  let ?hs = "concat (tree_levels t)"
  let ?qs = "concat (map (run_files \<circ> h_paths) ?hs)" and ?g = "\<lambda>q. the (file_contents (tree_disk t) q)"
  have dirs: "d_dirs (left_behind t) = [[], [''active''], [''snapshots'']]" by (simp add: left_behind_def disk_of_def)
  have lookup: "file_contents (left_behind t) q = (if q \<in> set ?qs then Some (?g q) else None)" for q
    by (simp add: left_behind_def map_of_map_restrict restrict_map_def del: set_concat)
  have of_run: "\<exists>h \<in> set ?hs. \<exists>c \<in> set components. q = run_file [''active''] (h_run_number h) c" if m: "q \<in> set ?qs" for q
  proof -
    obtain h where h: "h \<in> set ?hs" "q \<in> set (run_files (h_paths h))" using m by auto
    then show ?thesis using tree_ok_run(1) [OF t h(1)] by (auto simp: active run_files_new)
  qed
  have in_active: "butlast q = [''active'']" if "q \<in> set ?qs" for q using of_run [OF that] by auto
  have "\<forall>q \<in> set [[], [''active''], [''snapshots'']]. q \<notin> set ?qs" using in_active by force
  then have "\<forall>q \<in> set [[], [''active''], [''snapshots'']]. q \<notin> set (map fst (map (\<lambda>q. (q, ?g q)) ?qs))"
    by (simp add: comp_def del: set_concat)
  then show "disk_ok (left_behind t)" unfolding left_behind_def by (rule disk_ok_disk_of)
  show "active_ready [] (left_behind t)" by (simp add: active_ready_def dir_there_def path_prefixes_def dirs)
  show "\<not> path_exists (left_behind t) (lock_path [])"
    using in_active [of "lock_path []"] by (auto simp: path_exists_contents lookup dirs lock_path_def)
  show "file_contents (left_behind t) q = file_contents (tree_disk t) q"
    if h: "h \<in> set ?hs" "q \<in> set (run_files (h_paths h))" for h q
  proof -
    obtain es where "run_ok x (tree_disk t) h es" using tree_ok_run(3) [OF t h(1)] by blast
    then have "file_contents (tree_disk t) q \<noteq> None" using h(2) by (auto simp: run_ok_def stored_run_def run_files_def)
    moreover have "q \<in> set ?qs" using h by auto
    ultimately show ?thesis by (auto simp: lookup)
  qed
  have "set components \<subseteq> set run_exts" by (simp add: run_exts_eq subset_iff)
  moreover have "q \<in> set ?qs" if "butlast q = [''active'']" "path_exists (left_behind t) q" for q
    using that by (auto simp: path_exists_contents lookup dirs split: if_splits)
  ultimately show "only_runs (left_behind t) [''active''] (h_run_number ` set ?hs)"
    using of_run unfolding only_runs_def by blast
qed

theorem reopened_by_number_witness:
  "\<exists>t e s lock r s'. tree_view t (Key [1]) = Some (Value [7])
     \<and> tree_open sample_codecs e [] default_config s = (Inr (lock, r), s') \<and> tree_view r (Key [1]) = Some (Value [8])"
proof (rule two_runs [OF tables_fine(1,2), of False])
  let ?t = "tables_tree [table_7, table_8] (two_levels False)"
  fix a b
  assume ok: "tree_ok sample_codecs ?t {#}"
    and ls: "tree_levels ?t = (if False then [b] # [a] # replicate 5 [] else [a] # [b] # replicate 5 [])"
    and num: "h_run_number a = 1" "h_run_number b = 2"
    and map: "run_map (tree_disk ?t) a = bt_get table_7" "run_map (tree_disk ?t) b = bt_get table_8"
  have cc: "concat (tree_levels ?t) = [a, b]" by (simp add: ls)
  have active: "lt_active_dir ?t = [''active'']" "lt_active_dir ?t = [] @ [''active'']"
    by (simp_all add: tables_tree_def sample_tree_def)
  have next_run: "st_next_run (lt_store ?t) < 2 ^ 64"
    by (simp add: tables_tree_def tables_store_def split: prod.split)
  note left = left_behind_ok [OF ok active(1)]
  obtain lock l where ready: "session_ready (sample_lock_env 7) [] (later_session (left_behind ?t)) lock l"
    by (rule later_session_ready [OF left(1-3)])
  have "distinct (map h_run_number (concat (tree_levels ?t)))" by (simp add: cc num)
  note reopened = reopened_by_number [OF ok active(2) next_run this sample_codecs_ok ready]
  have "only_runs (w_disk (se_world (later_session (left_behind ?t)))) ([] @ [''active''])
      (h_run_number ` set (concat (tree_levels ?t)))"
    using left(5) by (simp add: only_runs_def later_session_contents)
  from reopened [OF _ this] left(4) obtain r s' where
    r: "tree_open sample_codecs (sample_lock_env 7) [] default_config (later_session (left_behind ?t)) = (Inr (lock, r), s')"
      "tree_view r = live (level_map (tree_disk ?t) (concat (tree_levels ?t)))"
    unfolding later_session_contents by blast
  have "level_map (tree_disk ?t) [a, b] (Key [1]) = Some (Some (Value [8]))"
    by (rule level_map_top [of b]) (auto simp: map num)
  then have "tree_view r (Key [1]) = Some (Value [8])" by (simp only: r(2) cc live_def) simp
  moreover have "tree_view ?t (Key [1]) = Some (Value [7])"
    by (simp add: tree_view_tables ls map live_def)
  ultimately show ?thesis using r(1) by blast
qed (simp_all add: table_7_def table_8_def)

end
